(* ===== verification/Go_Prelude.thy ===== *)
theory Go_Prelude
  imports Main "HOL-Library.Word"
begin

text \<open>
  The part of the Go language the histogram code rests on, shared by every component.

  Signed machine integers are \<open>int\<close> values with the wrap-around written out: \<open>i64\<close> and
  \<open>i32\<close> reduce a mathematical result to the two's complement value of that width, so an
  expression of the source such as \<open>a + b\<close> on \<open>int64\<close> is \<open>i64 (a + b)\<close>. Shifts take the
  shift count as Go does (a count that is negative before the conversion to \<open>uint\<close>, or at
  least the width, shifts everything out). \<open>int\<close> and \<open>uint\<close> are 64 bits wide.

  Failures are values of the sum type \<open>error + 'a\<close>. An error carries what its message
  prints. \<open>Diverges\<close> is the outcome of a call that does not return; it is the value a
  loop written as \<^theory_text>\<open>partial_function (option)\<close> yields when it never stops.
\<close>

unbundle bit_operations_syntax

named_theorems width_simps \<open>elimination of the width reductions on values in range\<close>

abbreviation MaxInt64 :: int where "MaxInt64 \<equiv> 9223372036854775807"
abbreviation MinInt64 :: int where "MinInt64 \<equiv> - 9223372036854775808"

definition i64 :: "int \<Rightarrow> int" where
  "i64 x = (x + 9223372036854775808) mod 18446744073709551616 - 9223372036854775808"

definition i32 :: "int \<Rightarrow> int" where
  "i32 x = (x + 2147483648) mod 4294967296 - 2147483648"

definition u64 :: "int \<Rightarrow> int" where
  "u64 x = x mod 18446744073709551616"

definition u32 :: "int \<Rightarrow> int" where
  "u32 x = x mod 4294967296"

definition shl64 :: "int \<Rightarrow> int \<Rightarrow> int" where
  "shl64 x n = (if n < 0 \<or> 64 \<le> n then 0 else i64 (x * 2 ^ nat n))"

definition shl32 :: "int \<Rightarrow> int \<Rightarrow> int" where
  "shl32 x n = (if n < 0 \<or> 32 \<le> n then 0 else i32 (x * 2 ^ nat n))"

definition shr64 :: "int \<Rightarrow> int \<Rightarrow> int" where
  "shr64 x n = (if n < 0 \<or> 64 \<le> n then (if x < 0 then - 1 else 0) else x div 2 ^ nat n)"

definition shr32 :: "int \<Rightarrow> int \<Rightarrow> int" where
  "shr32 x n = (if n < 0 \<or> 32 \<le> n then (if x < 0 then - 1 else 0) else x div 2 ^ nat n)"

definition quot :: "int \<Rightarrow> int \<Rightarrow> int" where
  "quot a b = sgn a * sgn b * (\<bar>a\<bar> div \<bar>b\<bar>)"

definition go_rem :: "int \<Rightarrow> int \<Rightarrow> int" where
  "go_rem a b = a - b * quot a b"

text \<open>\<open>math/bits.Len64\<close>: the number of bits needed to write a non-negative value.\<close>

function bits_len :: "int \<Rightarrow> int" where
  "bits_len x = (if x \<le> 0 then 0 else 1 + bits_len (x div 2))"
  by pat_completeness auto
termination
  by (relation "measure nat") auto

declare bits_len.simps [simp del]

definition LeadingZeros64 :: "int \<Rightarrow> int" where
  "LeadingZeros64 x = 64 - bits_len x"

section \<open>Width reductions\<close>

lemma i64_id [width_simps]: "MinInt64 \<le> x \<Longrightarrow> x \<le> MaxInt64 \<Longrightarrow> i64 x = x"
  by (simp add: i64_def)

lemma i32_id [width_simps]: "- 2147483648 \<le> x \<Longrightarrow> x \<le> 2147483647 \<Longrightarrow> i32 x = x"
  by (simp add: i32_def)

lemma u64_id [width_simps]: "0 \<le> x \<Longrightarrow> x \<le> 18446744073709551615 \<Longrightarrow> u64 x = x"
  by (simp add: u64_def)

lemma u32_id [width_simps]: "0 \<le> x \<Longrightarrow> x \<le> 4294967295 \<Longrightarrow> u32 x = x"
  by (simp add: u32_def)

lemma i64_range: "MinInt64 \<le> i64 x \<and> i64 x \<le> MaxInt64"
  using pos_mod_bound [of 18446744073709551616 "x + 9223372036854775808"]
    pos_mod_sign [of 18446744073709551616 "x + 9223372036854775808"]
  by (simp add: i64_def)

lemma i64_idem [simp]: "i64 (i64 x) = i64 x"
  using i64_range [of x] by (simp add: i64_id)

lemma i64_add_left [simp]: "i64 (i64 a + b) = i64 (a + b)"
proof -
  have "(i64 a + b + 9223372036854775808) mod 18446744073709551616
      = ((a + 9223372036854775808) mod 18446744073709551616 + b) mod 18446744073709551616"
    by (simp add: i64_def)
  also have "\<dots> = (a + b + 9223372036854775808) mod 18446744073709551616"
    unfolding mod_add_left_eq by (rule arg_cong [where f = "\<lambda>t. t mod _"]) simp
  finally show ?thesis by (simp add: i64_def)
qed

lemma i64_add_right [simp]: "i64 (a + i64 b) = i64 (a + b)"
  using i64_add_left [of b a] by (simp add: add.commute)

lemma quot_nonneg [simp]: "0 \<le> a \<Longrightarrow> 0 < b \<Longrightarrow> quot a b = a div b"
  by (cases "a = 0") (auto simp: quot_def)

lemma go_rem_nonneg [simp]: "0 \<le> a \<Longrightarrow> 0 < b \<Longrightarrow> go_rem a b = a mod b"
  by (simp add: go_rem_def minus_mult_div_eq_mod)

lemma shl64_small [width_simps]:
  "0 \<le> n \<Longrightarrow> n < 64 \<Longrightarrow> 0 \<le> x \<Longrightarrow> x * 2 ^ nat n \<le> MaxInt64 \<Longrightarrow> shl64 x n = x * 2 ^ nat n"
proof -
  assume a: "0 \<le> n" "n < 64" "0 \<le> x" "x * 2 ^ nat n \<le> MaxInt64"
  have "0 \<le> x * 2 ^ nat n" using a by simp
  then have "i64 (x * 2 ^ nat n) = x * 2 ^ nat n" using a by (intro i64_id) linarith+
  with a show ?thesis by (simp add: shl64_def)
qed

lemma shl32_small [width_simps]:
  "0 \<le> n \<Longrightarrow> n < 32 \<Longrightarrow> 0 \<le> x \<Longrightarrow> x * 2 ^ nat n \<le> 2147483647 \<Longrightarrow> shl32 x n = x * 2 ^ nat n"
proof -
  assume a: "0 \<le> n" "n < 32" "0 \<le> x" "x * 2 ^ nat n \<le> 2147483647"
  have "0 \<le> x * 2 ^ nat n" using a by simp
  then have "i32 (x * 2 ^ nat n) = x * 2 ^ nat n" using a by (intro i32_id) linarith+
  with a show ?thesis by (simp add: shl32_def)
qed

lemma shr64_div [width_simps]: "0 \<le> n \<Longrightarrow> n < 64 \<Longrightarrow> shr64 x n = x div 2 ^ nat n"
  by (simp add: shr64_def)

lemma shr32_div [width_simps]: "0 \<le> n \<Longrightarrow> n < 32 \<Longrightarrow> shr32 x n = x div 2 ^ nat n"
  by (simp add: shr32_def)

section \<open>Bit lengths\<close>

lemma bits_len_0 [simp]: "x \<le> 0 \<Longrightarrow> bits_len x = 0"
  by (subst bits_len.simps) simp

lemma bits_len_pos: "0 < x \<Longrightarrow> bits_len x = 1 + bits_len (x div 2)"
  by (subst bits_len.simps) simp

lemma bits_len_nonneg [simp]: "0 \<le> bits_len x"
  by (induction x rule: bits_len.induct) (subst bits_len.simps, auto)

lemma bits_len_le_iff: "0 \<le> x \<Longrightarrow> bits_len x \<le> int k \<longleftrightarrow> x < 2 ^ k"
proof (induction k arbitrary: x)
  case 0
  show ?case
  proof (cases "x = 0")
    case False
    with 0 have "0 < x" by simp
    with bits_len_nonneg [of "x div 2"] have "0 < bits_len x" by (simp only: bits_len_pos)
    with \<open>0 < x\<close> show ?thesis by simp
  qed simp
next
  case (Suc k)
  show ?case
  proof (cases "x = 0")
    case False
    with Suc.prems have "0 < x" by simp
    then have "bits_len x \<le> int (Suc k) \<longleftrightarrow> bits_len (x div 2) \<le> int k"
      by (simp add: bits_len_pos)
    also have "\<dots> \<longleftrightarrow> x div 2 < 2 ^ k" using Suc.IH [of "x div 2"] \<open>0 < x\<close> by simp
    also have "\<dots> \<longleftrightarrow> x < 2 ^ Suc k" by auto
    finally show ?thesis .
  qed simp
qed

lemma bits_len_less: "0 \<le> x \<Longrightarrow> x < 2 ^ nat (bits_len x)"
  using bits_len_le_iff [of x "nat (bits_len x)"] by simp

lemma bits_len_ge: "0 \<le> x \<Longrightarrow> int k < bits_len x \<Longrightarrow> 2 ^ k \<le> x"
  using bits_len_le_iff [of x k] by simp

lemma bits_len_mono: "0 \<le> x \<Longrightarrow> x \<le> y \<Longrightarrow> bits_len x \<le> bits_len y"
  using bits_len_le_iff [of x "nat (bits_len y)"] bits_len_less [of y] by simp

lemma bits_len_power2: "bits_len (2 ^ k) = int k + 1"
  using bits_len_le_iff [of "2 ^ k" k] bits_len_le_iff [of "2 ^ k" "Suc k"] by simp

lemma bits_len_or:
  assumes "0 \<le> a" and "0 \<le> b"
  shows "bits_len (a OR b) = max (bits_len a) (bits_len b)"
proof (rule antisym)
  let ?k = "nat (max (bits_len a) (bits_len b))"
  have k: "int ?k = max (bits_len a) (bits_len b)" using bits_len_nonneg [of a] by linarith
  have "a < 2 ^ ?k" "b < 2 ^ ?k"
    using bits_len_le_iff [OF assms(1), of ?k] bits_len_le_iff [OF assms(2), of ?k]
    unfolding k by simp_all
  then have "a OR b < 2 ^ ?k" using assms by (intro OR_upper)
  then show "bits_len (a OR b) \<le> max (bits_len a) (bits_len b)"
    using assms bits_len_le_iff [of "a OR b" ?k] unfolding k by simp
next
  have "a \<le> a OR b" "b \<le> a OR b"
    using assms or_greater_eq [of b a] or_greater_eq [of a b] by (simp_all add: or.commute)
  then show "max (bits_len a) (bits_len b) \<le> bits_len (a OR b)"
    using assms bits_len_mono by simp
qed

section \<open>Division and powers of two\<close>

lemma zdiv_lt_iff: "0 < (c::int) \<Longrightarrow> a div c < b \<longleftrightarrow> a < b * c"
proof -
  assume c: "0 < c"
  have e: "a = c * (a div c) + a mod c" by simp
  have m: "0 \<le> a mod c" "a mod c < c" using c by simp_all
  show ?thesis
  proof
    assume "a div c < b"
    then have "c * (a div c + 1) \<le> c * b" using c by (intro mult_left_mono) simp_all
    then have "c * (a div c) + c \<le> b * c" by (simp add: algebra_simps)
    then show "a < b * c" using e m by linarith
  next
    assume "a < b * c"
    then have "(a div c) * c < b * c" using e m mult.commute [of c "a div c"] by linarith
    then show "a div c < b" using c by simp
  qed
qed

lemma zdiv_ge_iff: "0 < (c::int) \<Longrightarrow> b \<le> a div c \<longleftrightarrow> b * c \<le> a"
  using zdiv_lt_iff [of c a b] by linarith

lemma zdiv_eqI: "0 < (c::int) \<Longrightarrow> b * c \<le> a \<Longrightarrow> a < (b + 1) * c \<Longrightarrow> a div c = b"
  using zdiv_lt_iff [of c a "b + 1"] zdiv_ge_iff [of c b a] by linarith

lemma pow2_int_le: "a \<le> b \<Longrightarrow> (2::int) ^ a \<le> 2 ^ b"
  by (rule power_increasing) simp_all

lemma pow2_62: "k \<le> 62 \<Longrightarrow> (2::int) ^ k \<le> 4611686018427387904"
  using pow2_int_le [of k 62] by simp

lemma pow2_63: "k \<le> 63 \<Longrightarrow> (2::int) ^ k \<le> 9223372036854775808"
  using pow2_int_le [of k 63] by simp

lemma pow2_17: "k \<le> 17 \<Longrightarrow> (2::int) ^ k \<le> 131072"
  using pow2_int_le [of k 17] by simp

end
