(* ===== verification/Hist_Types.thy ===== *)
theory Hist_Types
  imports Go_Prelude
begin

text \<open>
  The \<open>Histogram\<close> struct of \<open>hdr.go\<close> and the errors its operations and codecs return. Each
  constructor of \<open>error\<close> is one \<open>fmt.Errorf\<close> (or panic) of the source with the values its
  message prints; what the runtime panics with is under \<open>Panic\<close>. \<open>int64\<close> and \<open>int32\<close> fields are integers; \<open>conversionRatio\<close> is the IEEE bit
  pattern of the \<open>float64\<close> field, which the code only compares with zero and copies.
\<close>

section \<open>Errors and the histogram struct\<close>

datatype error =
    Diverges
  | Panic error
  | DigitsOutOfRange int
  | LowestTooLarge int int
  | NegativeValue int
  | ValueTooLarge int
  | NegativeCount int
  | TotalOverflow int
  | NilSnapshot
  | FiguresOutOfRange int
  | NegativeCountAt int int
  | CountBeyondRange int int
  | CountsSumOverflow int
  | UnsupportedVersion int
  | Truncated int int
  | TooShort int
  | UnsupportedCookie int
  | NegativeCompressedLength int
  | CompressedTooShort int int
  | HeaderTruncated int int
  | NegativePayloadLength int
  | CorruptHeader error
  | PayloadTooLong int int int
  | PayloadSizeMismatch int int
  | ZeroRunOverflow int int int
  | IndexOverflow int int
  | PayloadSumOverflow int
  | Base64Corrupt
  | ZlibError
  | IndexOutOfRange int int
  | SliceOutOfRange int int int
  | DivideByZero
  | NegativeLength int
  | BadTag string
  | BadNumber string

record histogram =
  lowestDiscernibleValue :: int
  highestTrackableValue :: int
  unitMagnitude :: int
  significantFigures :: int
  subBucketHalfCountMagnitude :: int
  subBucketHalfCount :: int
  subBucketMask :: int
  subBucketCount :: int
  bucketCount :: int
  countsLen :: int
  totalCount :: int
  counts :: "int list"
  startTimeMs :: int
  endTimeMs :: int
  tag :: string
  conversionRatio :: "64 word"

section \<open>Checked access\<close>

text \<open>The expressions \<open>xs[i]\<close> and \<open>xs[lo:hi]\<close> and the call \<open>make([]int64, n)\<close>, with their panics. The upper
  bound of a slice may lie between its length and its capacity, which the model does not have: there it panics as well,
  so that what does not panic here neither panics in the program nor sees bytes beyond the length.\<close>

definition index_at :: "'a list \<Rightarrow> int \<Rightarrow> error + 'a" where
  "index_at xs i =
     (if 0 \<le> i \<and> i < int (length xs) then Inr (xs ! nat i)
      else Inl (Panic (IndexOutOfRange i (int (length xs)))))"

definition slice :: "'a list \<Rightarrow> int \<Rightarrow> int \<Rightarrow> error + 'a list" where
  "slice xs lo hi =
     (if 0 \<le> lo \<and> lo \<le> hi \<and> hi \<le> int (length xs) then Inr (take (nat (hi - lo)) (drop (nat lo) xs))
      else Inl (Panic (SliceOutOfRange lo hi (int (length xs)))))"

definition make_counts :: "int \<Rightarrow> error + int list" where
  "make_counts n = (if n < 0 then Inl (Panic (NegativeLength n)) else Inr (replicate (nat n) 0))"

lemma index_at_ok: "0 \<le> i \<Longrightarrow> i < int (length xs) \<Longrightarrow> index_at xs i = Inr (xs ! nat i)"
  by (simp add: index_at_def)

lemma index_at_nat [simp]: "k < length xs \<Longrightarrow> index_at xs (int k) = Inr (xs ! k)"
  by (simp add: index_at_def)

lemma slice_ok: "0 \<le> lo \<Longrightarrow> lo \<le> hi \<Longrightarrow> hi \<le> int (length xs) \<Longrightarrow> slice xs lo hi = Inr (take (nat (hi - lo)) (drop (nat lo) xs))"
  by (simp add: slice_def)

lemma slice_from: "k \<le> length xs \<Longrightarrow> slice xs (int k) (int (length xs)) = Inr (drop k xs)"
  by (simp add: slice_def)

end
