(* ===== verification/Geometry.thy ===== *)
theory Geometry
  imports Hist_Types
begin

text \<open>
  The bucket geometry of \<open>hdr.go\<close>: the \<open>Histogram\<close> struct, its constructors up to the
  allocation of the counts array (\<open>newGeometry\<close>, \<open>wireGeometry\<close>, \<open>newExactGeometry\<close>), and
  the arithmetic that maps a value to a bucket, a sub-bucket and a flat counts index and
  back. \<open>geom_ok\<close> is the well-formedness every constructor establishes; under it the flat
  index is monotone, every index is hit by the bucket it denotes, the equivalent-value
  ranges partition the values, and the configured precision holds.

  \<open>math.Floor(math.Log2(float64(x)))\<close> is the parameter \<open>lg\<close>: the last bit of
  \<open>math.Log2\<close> is not fixed by Go across platforms, and nothing but the precision of the
  unit depends on it.
\<close>

section \<open>Constructors\<close>

definition clampGeometryArgs :: "int \<Rightarrow> int \<Rightarrow> int \<times> int" where
  "clampGeometryArgs lowest digits =
     (let digits' = (if digits < 1 then 1 else if digits > 5 then 5 else digits);
          lowest' = (if lowest < 1 then 1 else lowest)
      in (lowest', digits'))"

text \<open>
  \<open>2 * math.Pow10(digits)\<close> is at most 200000 for the digits the callers admit, and its
  logarithm is exact (2) or far from an integer, so the rounded-up logarithm is the bit
  length of its predecessor.
\<close>

definition geometryMagnitudes :: "(int \<Rightarrow> int) \<Rightarrow> int \<Rightarrow> int \<Rightarrow> int \<times> int" where
  "geometryMagnitudes lg lowest digits =
     (let largestValueWithSingleUnitResolution = 2 * 10 ^ nat digits;
          subBucketCountMagnitude = bits_len (largestValueWithSingleUnitResolution - 1);
          halfMagnitude = (if subBucketCountMagnitude < 1 then 1 else subBucketCountMagnitude) - 1;
          unit = i32 (lg lowest);
          unit' = (if unit < 0 then 0 else unit)
      in (unit', halfMagnitude))"

definition checkGeometry :: "(int \<Rightarrow> int) \<Rightarrow> int \<Rightarrow> int \<Rightarrow> error option" where
  "checkGeometry lg lowest digits =
     (let (low, sig) = clampGeometryArgs lowest digits;
          (unit, half) = geometryMagnitudes lg low sig
      in if i32 (unit + half) > 61 then Some (LowestTooLarge lowest sig) else None)"

partial_function (option) buckets_loop :: "int \<Rightarrow> int \<Rightarrow> int \<Rightarrow> int option" where
  "buckets_loop smallestUntrackable maxValue bucketsNeeded =
     (if smallestUntrackable \<le> maxValue
      then if smallestUntrackable > MaxInt64 div 2
           then Some (i32 (bucketsNeeded + 1))
           else buckets_loop (shl64 smallestUntrackable 1) maxValue (i32 (bucketsNeeded + 1))
      else Some bucketsNeeded)"

declare buckets_loop.simps [code]

definition getBucketsNeededToCoverValue :: "int \<Rightarrow> int \<Rightarrow> int option" where
  "getBucketsNeededToCoverValue smallestUntrackable maxValue =
     buckets_loop smallestUntrackable maxValue 1"

definition newExactGeometry :: "(int \<Rightarrow> int) \<Rightarrow> int \<Rightarrow> int \<Rightarrow> int \<Rightarrow> error + histogram" where
  "newExactGeometry lg lowest highest digits =
     (let (unit, half) = geometryMagnitudes lg lowest digits;
          sbCount = i32 (2 ^ nat (half + 1));
          sbHalf = quot sbCount 2;
          sbMask = shl64 (i32 (sbCount - 1)) unit;
          smallestUntrackableValue = shl64 sbCount unit
      in case getBucketsNeededToCoverValue smallestUntrackableValue highest of
           None \<Rightarrow> Inl Diverges
         | Some bucketsNeeded \<Rightarrow> Inr
             \<lparr>lowestDiscernibleValue = lowest,
              highestTrackableValue = highest,
              unitMagnitude = unit,
              significantFigures = digits,
              subBucketHalfCountMagnitude = half,
              subBucketHalfCount = sbHalf,
              subBucketMask = sbMask,
              subBucketCount = sbCount,
              bucketCount = bucketsNeeded,
              countsLen = i32 (i32 (bucketsNeeded + 1) * quot sbCount 2),
              totalCount = 0,
              counts = [],
              startTimeMs = 0,
              endTimeMs = 0,
              tag = '''',
              conversionRatio = 0\<rparr>)"

definition newGeometry :: "(int \<Rightarrow> int) \<Rightarrow> int \<Rightarrow> int \<Rightarrow> int \<Rightarrow> error + histogram" where
  "newGeometry lg lowest highest digits =
     (case checkGeometry lg lowest digits of
        Some err \<Rightarrow> Inl (Panic err)
      | None \<Rightarrow> (let (low, sig) = clampGeometryArgs lowest digits
                 in newExactGeometry lg low highest sig))"

definition wireGeometry :: "(int \<Rightarrow> int) \<Rightarrow> int \<Rightarrow> int \<Rightarrow> int \<Rightarrow> error + histogram" where
  "wireGeometry lg lowest highest digits =
     (if digits < 0 \<or> digits > 5 then Inl (DigitsOutOfRange digits)
      else let low = (if lowest < 1 then 1 else lowest);
               (unit, half) = geometryMagnitudes lg low digits
           in if i32 (unit + half) > 61 then Inl (LowestTooLarge low digits)
              else newExactGeometry lg low highest digits)"

section \<open>Value and index arithmetic\<close>

definition getBucketIndex :: "histogram \<Rightarrow> int \<Rightarrow> int" where
  "getBucketIndex h v =
     (let pow2Ceiling = i64 (64 - LeadingZeros64 (u64 (v OR subBucketMask h)))
      in i32 (i64 (i64 (pow2Ceiling - unitMagnitude h)
                   - i32 (subBucketHalfCountMagnitude h + 1))))"

definition getSubBucketIdx :: "histogram \<Rightarrow> int \<Rightarrow> int \<Rightarrow> int" where
  "getSubBucketIdx h v bucketIdx = i32 (shr64 v (i64 (bucketIdx + unitMagnitude h)))"

definition getBucketBaseIdx :: "histogram \<Rightarrow> int \<Rightarrow> int" where
  "getBucketBaseIdx h bucketIdx = shl32 (i32 (bucketIdx + 1)) (subBucketHalfCountMagnitude h)"

definition countsIndex :: "histogram \<Rightarrow> int \<Rightarrow> int \<Rightarrow> int" where
  "countsIndex h bucketIdx subBucketIdx =
     i32 (i32 (getBucketBaseIdx h bucketIdx + subBucketIdx) - subBucketHalfCount h)"

definition countsIndexFor :: "histogram \<Rightarrow> int \<Rightarrow> int" where
  "countsIndexFor h v =
     (let bucketIdx = getBucketIndex h v;
          subBucketIdx = getSubBucketIdx h v bucketIdx
      in countsIndex h bucketIdx subBucketIdx)"

definition valueFromIndex :: "histogram \<Rightarrow> int \<Rightarrow> int \<Rightarrow> int" where
  "valueFromIndex h bucketIdx subBucketIdx =
     shl64 subBucketIdx (i64 (bucketIdx + unitMagnitude h))"

definition valueFromFlatIndex :: "histogram \<Rightarrow> int \<Rightarrow> int" where
  "valueFromFlatIndex h i =
     (let bucketIdx = i32 (shr32 i (subBucketHalfCountMagnitude h) - 1);
          subBucketIdx = i32 ((i AND i32 (subBucketHalfCount h - 1)) + subBucketHalfCount h)
      in if bucketIdx < 0
         then valueFromIndex h 0 (i32 (subBucketIdx - subBucketHalfCount h))
         else valueFromIndex h bucketIdx subBucketIdx)"

definition lowestEquivalentValueGivenBucketIdx :: "histogram \<Rightarrow> int \<Rightarrow> int \<Rightarrow> int" where
  "lowestEquivalentValueGivenBucketIdx h v bucketIdx =
     valueFromIndex h bucketIdx (getSubBucketIdx h v bucketIdx)"

definition lowestEquivalentValue :: "histogram \<Rightarrow> int \<Rightarrow> int" where
  "lowestEquivalentValue h v = lowestEquivalentValueGivenBucketIdx h v (getBucketIndex h v)"

definition sizeOfEquivalentValueRangeGivenBucketIdx :: "histogram \<Rightarrow> int \<Rightarrow> int \<Rightarrow> int" where
  "sizeOfEquivalentValueRangeGivenBucketIdx h v bucketIdx =
     (let subBucketIdx = getSubBucketIdx h v bucketIdx;
          adjustedBucket = (if subBucketIdx \<ge> subBucketCount h then i32 (bucketIdx + 1) else bucketIdx)
      in shl64 1 (i64 (unitMagnitude h + adjustedBucket)))"

definition sizeOfEquivalentValueRange :: "histogram \<Rightarrow> int \<Rightarrow> int" where
  "sizeOfEquivalentValueRange h v =
     sizeOfEquivalentValueRangeGivenBucketIdx h v (getBucketIndex h v)"

definition nextNonEquivalentValue :: "histogram \<Rightarrow> int \<Rightarrow> int" where
  "nextNonEquivalentValue h v =
     (let bucketIdx = getBucketIndex h v
      in i64 (lowestEquivalentValueGivenBucketIdx h v bucketIdx
              + sizeOfEquivalentValueRangeGivenBucketIdx h v bucketIdx))"

definition highestEquivalentValue :: "histogram \<Rightarrow> int \<Rightarrow> int" where
  "highestEquivalentValue h v = i64 (nextNonEquivalentValue h v - 1)"

definition medianEquivalentValue :: "histogram \<Rightarrow> int \<Rightarrow> int" where
  "medianEquivalentValue h v =
     i64 (lowestEquivalentValue h v + shr64 (sizeOfEquivalentValueRange h v) 1)"

definition ValuesAreEquivalent :: "histogram \<Rightarrow> int \<Rightarrow> int \<Rightarrow> bool" where
  "ValuesAreEquivalent h value1 value2 \<longleftrightarrow>
     lowestEquivalentValue h value1 = lowestEquivalentValue h value2"

section \<open>Well-formed geometries\<close>

definition geom_ok :: "histogram \<Rightarrow> bool" where
  "geom_ok h \<longleftrightarrow>
     0 \<le> unitMagnitude h \<and> 0 \<le> subBucketHalfCountMagnitude h \<and>
     subBucketHalfCountMagnitude h \<le> 17 \<and>
     subBucketHalfCount h = 2 ^ nat (subBucketHalfCountMagnitude h) \<and>
     subBucketCount h = 2 * 2 ^ nat (subBucketHalfCountMagnitude h) \<and>
     subBucketMask h = (2 * 2 ^ nat (subBucketHalfCountMagnitude h) - 1) * 2 ^ nat (unitMagnitude h) \<and>
     1 \<le> bucketCount h \<and>
     unitMagnitude h + subBucketHalfCountMagnitude h + bucketCount h \<le> 63 \<and>
     countsLen h = (bucketCount h + 1) * 2 ^ nat (subBucketHalfCountMagnitude h)"

text \<open>The same as natural-number exponents, the form every proof below works with.\<close>

lemma geom_okE:
  assumes "geom_ok h"
  obtains u m n :: nat where
    "unitMagnitude h = int u" "subBucketHalfCountMagnitude h = int m" "m \<le> 17"
    "subBucketHalfCount h = 2 ^ m" "subBucketCount h = 2 * 2 ^ m"
    "subBucketMask h = (2 * 2 ^ m - 1) * 2 ^ u" "bucketCount h = int n" "1 \<le> n"
    "u + m + n \<le> 63" "countsLen h = (int n + 1) * 2 ^ m"
proof
  let ?u = "nat (unitMagnitude h)" and ?m = "nat (subBucketHalfCountMagnitude h)"
    and ?n = "nat (bucketCount h)"
  show "unitMagnitude h = int ?u" "subBucketHalfCountMagnitude h = int ?m" "?m \<le> 17"
    "subBucketHalfCount h = 2 ^ ?m" "subBucketCount h = 2 * 2 ^ ?m"
    "subBucketMask h = (2 * 2 ^ ?m - 1) * 2 ^ ?u" "bucketCount h = int ?n" "1 \<le> ?n"
    "?u + ?m + ?n \<le> 63" "countsLen h = (int ?n + 1) * 2 ^ ?m"
    using assms by (auto simp: geom_ok_def)
qed

lemma getBucketIndex_eq:
  assumes g: "geom_ok h" and v: "0 \<le> v" "v \<le> MaxInt64"
    and u: "unitMagnitude h = int u" and m: "subBucketHalfCountMagnitude h = int m"
  shows "getBucketIndex h v = max 0 (bits_len v - (int u + int m + 1))"
proof -
  from g u m have mask: "subBucketMask h = (2 * 2 ^ m - 1) * 2 ^ u" (is "_ = ?mask")
    and um: "u + m + 1 \<le> 63" and m17: "m \<le> 17"
    by (auto simp: geom_ok_def)
  have "(1::int) \<le> 2 ^ m" by simp
  then have nonneg: "0 \<le> ?mask" by (intro mult_nonneg_nonneg) simp_all
  have "?mask < 2 ^ (u + m + 1)" by (simp add: algebra_simps power_add)
  moreover have "2 ^ (u + m) \<le> ?mask"
  proof -
    have "(2::int) ^ m * 2 ^ u \<le> (2 * 2 ^ m - 1) * 2 ^ u"
      by (rule mult_right_mono) simp_all
    then show ?thesis by (simp add: power_add mult.commute)
  qed
  ultimately have bm: "bits_len ?mask = int (u + m + 1)"
    using bits_len_le_iff [OF nonneg, of "u + m"] bits_len_le_iff [OF nonneg, of "u + m + 1"]
    by simp
  have bv: "bits_len v \<le> 63" using bits_len_le_iff [OF v(1), of 63] v(2) by simp
  have or: "bits_len (v OR ?mask) = max (bits_len v) (int (u + m + 1))"
    using bits_len_or [OF v(1) nonneg] bm by simp
  then have "bits_len (v OR ?mask) \<le> int 63" using bv um by simp
  then have "v OR ?mask < 2 ^ 63" using bits_len_le_iff [of "v OR ?mask" 63] v nonneg by simp
  then have "u64 (v OR ?mask) = v OR ?mask" using v nonneg by (intro u64_id) simp_all
  then have "getBucketIndex h v =
      i32 (i64 (i64 (i64 (max (bits_len v) (int (u + m + 1))) - int u) - i32 (int m + 1)))"
    using or by (simp add: getBucketIndex_def LeadingZeros64_def mask u m)
  also have "\<dots> = max 0 (bits_len v - (int u + int m + 1))"
    using bv um m17 bits_len_nonneg [of v] by (simp add: i64_def i32_def)
  finally show ?thesis .
qed

text \<open>
  A value's bucket and sub-bucket are determined by the range of width \<open>2 ^ (b + u)\<close> it
  lies in.
\<close>

lemma bucket_exists:
  assumes v: "0 \<le> v" "v \<le> MaxInt64" and um: "u + m \<le> 62"
  obtains b :: nat and s :: int where
    "int b = max 0 (bits_len v - (int u + int m + 1))" "u + m + b \<le> 62"
    "0 \<le> s" "s < 2 * 2 ^ m" "b = 0 \<or> 2 ^ m \<le> s"
    "s = v div 2 ^ (b + u)"
proof
  define b where "b = nat (bits_len v - (int u + int m + 1))"
  have bv: "bits_len v \<le> 63" using bits_len_le_iff [OF v(1), of 63] v(2) by simp
  show "int b = max 0 (bits_len v - (int u + int m + 1))" by (simp add: b_def)
  show "u + m + b \<le> 62" using bv um by (auto simp: b_def)
  have "v < 2 ^ (m + 1 + (b + u))"
    using bits_len_le_iff [OF v(1), of "m + 1 + (b + u)"] unfolding b_def by linarith
  then have "v < 2 * 2 ^ m * 2 ^ (b + u)" by (simp add: power_add mult.assoc)
  then show "v div 2 ^ (b + u) < 2 * 2 ^ m" by (simp add: zdiv_lt_iff)
  show "0 \<le> v div 2 ^ (b + u)" using v by (simp add: pos_imp_zdiv_nonneg_iff)
  show "b = 0 \<or> 2 ^ m \<le> v div 2 ^ (b + u)"
  proof (cases "b = 0")
    case False
    then have "int (m + (b + u)) < bits_len v" by (auto simp: b_def)
    from bits_len_ge [OF v(1) this] have "2 ^ m * 2 ^ (b + u) \<le> v" by (simp add: power_add)
    then show ?thesis by (simp add: zdiv_ge_iff)
  qed simp
  show "v div 2 ^ (b + u) = v div 2 ^ (b + u)" by simp
qed

lemma bucket_unique:
  assumes s: "0 \<le> s" "s < 2 * 2 ^ m" "b = 0 \<or> 2 ^ m \<le> s"
    and v: "s * 2 ^ (b + u) \<le> v" "v < (s + 1) * 2 ^ (b + u)"
  shows "max 0 (bits_len v - (int u + int m + 1)) = int b" and "v div 2 ^ (b + u) = s"
proof -
  have v0: "0 \<le> v" using s(1) v(1) by (meson mult_nonneg_nonneg order_trans zero_le_numeral zero_le_power)
  have "(s + 1) * 2 ^ (b + u) \<le> 2 * 2 ^ m * 2 ^ (b + u)"
    using s(2) by (intro mult_right_mono) simp_all
  with v(2) have "v < 2 * 2 ^ m * 2 ^ (b + u)" by linarith
  then have "v < 2 ^ (m + 1 + (b + u))" by (simp add: power_add mult.assoc)
  then have up: "bits_len v \<le> int (m + 1 + (b + u))" using bits_len_le_iff [OF v0] by blast
  show "max 0 (bits_len v - (int u + int m + 1)) = int b"
  proof (cases "b = 0")
    case False
    with s(3) have "2 ^ m * 2 ^ (b + u) \<le> s * 2 ^ (b + u)" by (intro mult_right_mono) simp_all
    with v(1) have "2 ^ m * 2 ^ (b + u) \<le> v" by linarith
    then have "2 ^ (m + (b + u)) \<le> v" by (simp add: power_add)
    then have "\<not> bits_len v \<le> int (m + (b + u))" using bits_len_le_iff [OF v0, of "m + (b + u)"] by linarith
    with up show ?thesis by simp
  qed (use up in simp)
  show "v div 2 ^ (b + u) = s"
    using v by (intro zdiv_eqI) simp_all
qed


lemma countsIndex_eq:
  assumes g: "geom_ok h" and m: "subBucketHalfCountMagnitude h = int m"
    and s: "0 \<le> s" "s < 2 * 2 ^ m" and b: "b \<le> 62"
  shows "countsIndex h (int b) s = int b * 2 ^ m + s"
proof -
  from g m have m17: "m \<le> 17" and half: "subBucketHalfCount h = 2 ^ m"
    by (auto simp: geom_ok_def)
  have m2: "(2::int) ^ m \<le> 131072" using m17 by (rule pow2_17)
  have bm: "int b * 2 ^ m \<le> 62 * 131072" using b m2 by (intro mult_mono) simp_all
  have bm0: "0 \<le> int b * 2 ^ m" and m0: "(0::int) < 2 ^ m" by simp_all
  have "getBucketBaseIdx h (int b) = int b * 2 ^ m + 2 ^ m"
    using bm m2 m17 b by (simp add: getBucketBaseIdx_def m shl32_small i32_id algebra_simps)
  moreover have "i32 (int b * 2 ^ m + 2 ^ m + s) = int b * 2 ^ m + 2 ^ m + s"
    using bm bm0 m0 m2 s by (intro i32_id) linarith+
  moreover have "i32 (int b * 2 ^ m + s) = int b * 2 ^ m + s"
    using bm bm0 m0 m2 s by (intro i32_id) linarith+
  ultimately show ?thesis by (simp add: countsIndex_def half)
qed

text \<open>
  The parts of a value: its bucket \<open>b\<close>, its sub-bucket \<open>s\<close>, and everything the code
  derives from them.
\<close>

lemma value_parts:
  assumes g: "geom_ok h" and v: "0 \<le> v" "v \<le> MaxInt64"
    and u: "unitMagnitude h = int u" and m: "subBucketHalfCountMagnitude h = int m"
  obtains b :: nat and s :: int where
    "getBucketIndex h v = int b" "getSubBucketIdx h v (int b) = s"
    "countsIndexFor h v = int b * 2 ^ m + s"
    "lowestEquivalentValue h v = s * 2 ^ (b + u)"
    "sizeOfEquivalentValueRange h v = 2 ^ (b + u)"
    "nextNonEquivalentValue h v = i64 ((s + 1) * 2 ^ (b + u))"
    "s * 2 ^ (b + u) \<le> v" "v < (s + 1) * 2 ^ (b + u)"
    "(s + 1) * 2 ^ (b + u) \<le> 9223372036854775808"
    "0 \<le> s" "s < 2 * 2 ^ m" "b = 0 \<or> 2 ^ m \<le> s" "u + m + b \<le> 62"
proof -
  from g u m have um: "u + m \<le> 62" and m17: "m \<le> 17"
    and half: "subBucketHalfCount h = 2 ^ m" and cnt: "subBucketCount h = 2 * 2 ^ m"
    by (auto simp: geom_ok_def)
  from bucket_exists [OF v um] obtain b s where
    b: "int b = max 0 (bits_len v - (int u + int m + 1))" and ub: "u + m + b \<le> 62"
    and s: "0 \<le> s" "s < 2 * 2 ^ m" "b = 0 \<or> 2 ^ m \<le> s" and sv: "s = v div 2 ^ (b + u)"
    by blast
  have bi: "getBucketIndex h v = int b" using getBucketIndex_eq [OF g v u m] b by simp
  have m2: "(2::int) ^ m \<le> 131072" using m17 by (rule pow2_17)
  have si: "getSubBucketIdx h v (int b) = s"
    using s m2 ub by (simp add: getSubBucketIdx_def u i64_id shr64_div nat_add_distrib i32_id
        flip: sv of_nat_add)
  have "b \<le> 62" using ub by simp
  from countsIndex_eq [OF g m s(1,2) this] have ci: "countsIndexFor h v = int b * 2 ^ m + s"
    by (simp add: countsIndexFor_def bi si)
  have pow: "(2::int) ^ (b + u) \<le> 4611686018427387904" using ub by (intro pow2_62) simp
  have lo: "s * 2 ^ (b + u) \<le> v" using sv by (simp add: flip: zdiv_ge_iff)
  have hi: "v < (s + 1) * 2 ^ (b + u)" using sv by (simp add: flip: zdiv_lt_iff)
  have vi: "valueFromIndex h (int b) s = s * 2 ^ (b + u)"
    using s lo v ub by (simp add: valueFromIndex_def u i64_id shl64_small nat_add_distrib
        flip: of_nat_add)
  have sz: "sizeOfEquivalentValueRangeGivenBucketIdx h v (int b) = 2 ^ (b + u)"
    using s pow ub by (simp add: sizeOfEquivalentValueRangeGivenBucketIdx_def si cnt u i64_id
        shl64_small nat_add_distrib add.commute flip: of_nat_add)
  have "(s + 1) * 2 ^ (b + u) \<le> 2 * 2 ^ m * 2 ^ (b + u)" using s by (intro mult_right_mono) simp_all
  also have "\<dots> = 2 ^ (u + m + b + 1)" by (simp add: power_add)
  also have "\<dots> \<le> 9223372036854775808" using ub by (intro pow2_63) simp
  finally have top: "(s + 1) * 2 ^ (b + u) \<le> 9223372036854775808" .
  show thesis
  proof (rule that [OF bi si ci _ _ _ lo hi top s ub])
    show "lowestEquivalentValue h v = s * 2 ^ (b + u)"
      by (simp add: lowestEquivalentValue_def lowestEquivalentValueGivenBucketIdx_def bi si vi)
    show "sizeOfEquivalentValueRange h v = 2 ^ (b + u)"
      by (simp add: sizeOfEquivalentValueRange_def bi sz)
    show "nextNonEquivalentValue h v = i64 ((s + 1) * 2 ^ (b + u))"
      by (simp add: nextNonEquivalentValue_def lowestEquivalentValueGivenBucketIdx_def bi si vi sz
          algebra_simps)
  qed
qed

text \<open>The same for a flat index: its bucket and sub-bucket, and the value it denotes.\<close>

lemma index_parts:
  assumes g: "geom_ok h" and i: "0 \<le> i" "i < countsLen h"
    and u: "unitMagnitude h = int u" and m: "subBucketHalfCountMagnitude h = int m"
  obtains b :: nat and s :: int where
    "i = int b * 2 ^ m + s" "0 \<le> s" "s < 2 * 2 ^ m" "b = 0 \<or> 2 ^ m \<le> s"
    "u + m + b \<le> 62" "int b < bucketCount h"
    "valueFromFlatIndex h i = s * 2 ^ (b + u)"
    "(s + 1) * 2 ^ (b + u) \<le> 9223372036854775808"
    "countsIndex h (int b) s = i" "valueFromIndex h (int b) s = valueFromFlatIndex h i"
proof -
  from g u m obtain n where m17: "m \<le> 17" and half: "subBucketHalfCount h = 2 ^ m"
    and n: "bucketCount h = int n" "1 \<le> n" and umn: "u + m + n \<le> 63" and len: "countsLen h = (int n + 1) * 2 ^ m"
    by (metis geom_okE of_nat_eq_iff)
  define q r where "q = i div 2 ^ m" and "r = i mod 2 ^ m"
  have iq: "i = q * 2 ^ m + r" unfolding q_def r_def by (rule div_mult_mod_eq [symmetric])
  have r: "0 \<le> r" "r < 2 ^ m" by (simp_all add: r_def)
  have q: "0 \<le> q" "q < int n + 1"
    using i len zdiv_lt_iff [of "2 ^ m" i "int n + 1"] by (simp_all add: q_def pos_imp_zdiv_nonneg_iff)
  define b where "b = nat (q - 1)"
  define s where "s = (if q = 0 then r else r + 2 ^ m)"
  have ibs: "i = int b * 2 ^ m + s"
    using iq q by (auto simp: b_def s_def algebra_simps of_nat_diff nat_diff_distrib)
  have s: "0 \<le> s" "s < 2 * 2 ^ m" "b = 0 \<or> 2 ^ m \<le> s"
    using r q by (auto simp: s_def b_def)
  have ub: "u + m + b \<le> 62" using q umn n by (auto simp: b_def)
  have m2: "(2::int) ^ m \<le> 131072" using m17 by (rule pow2_17)
  have and_mod: "i AND (2 ^ m - 1) = r"
    using take_bit_eq_mask [of m i] by (simp add: r_def take_bit_eq_mod mask_eq_exp_minus_1)
  have "(s + 1) * 2 ^ (b + u) \<le> 2 * 2 ^ m * 2 ^ (b + u)" using s by (intro mult_right_mono) simp_all
  also have "\<dots> = 2 ^ (u + m + b + 1)" by (simp add: power_add)
  also have "\<dots> \<le> 9223372036854775808" using ub by (intro pow2_63) simp
  finally have top: "(s + 1) * 2 ^ (b + u) \<le> 9223372036854775808" .
  have "(1::int) \<le> 2 ^ (b + u)" by simp
  with top have "s * 2 ^ (b + u) \<le> MaxInt64" unfolding distrib_right mult_1 by linarith
  then have vi: "valueFromIndex h (int b) s = s * 2 ^ (b + u)"
    using s ub by (simp add: valueFromIndex_def u i64_id shl64_small nat_add_distrib
        flip: of_nat_add)
  have n63: "int n \<le> 63" using umn by simp
  have "valueFromFlatIndex h i = s * 2 ^ (b + u)"
  proof (cases "q = 0")
    case True
    then show ?thesis
      using vi r m2 m17 by (simp add: valueFromFlatIndex_def m half i32_id shr32_div and_mod
          flip: q_def) (simp add: b_def s_def)
  next
    case False
    then have "q - 1 = int b" using q by (simp add: b_def)
    then show ?thesis
      using False vi r m2 m17 n63 q by (simp add: valueFromFlatIndex_def m half i32_id shr32_div and_mod
          flip: q_def) (simp add: s_def)
  qed
  moreover have "int b < bucketCount h" using q n g by (auto simp: b_def geom_ok_def)
  moreover have "countsIndex h (int b) s = i"
    using countsIndex_eq [OF g m s(1,2), of b] ub ibs by simp
  ultimately show thesis using that ibs s ub top vi by metis
qed


lemma flat_less:
  "b < b' \<Longrightarrow> s < 2 * 2 ^ m \<Longrightarrow> 2 ^ m \<le> s' \<Longrightarrow> int b * 2 ^ m + s < int b' * 2 ^ m + (s' :: int)"
proof -
  assume a: "b < b'" "s < 2 * 2 ^ m" "2 ^ m \<le> s'"
  then have "(int b + 1) * 2 ^ m \<le> int b' * 2 ^ m" by (intro mult_right_mono) simp_all
  with a show ?thesis by (simp add: algebra_simps)
qed

lemma flat_unique:
  assumes "int b * 2 ^ m + s = int b' * 2 ^ m + s'" "0 \<le> s" "s < 2 * 2 ^ m" "b = 0 \<or> 2 ^ m \<le> s"
    "0 \<le> s'" "s' < 2 * 2 ^ m" "b' = 0 \<or> 2 ^ m \<le> s'"
  shows "b = b'" and "s = s'"
proof -
  show "b = b'"
    using flat_less [of b b' s m s'] flat_less [of b' b s' m s] assms by (cases b b' rule: linorder_cases) auto
  with assms show "s = s'" by simp
qed

lemma same_index:
  assumes g: "geom_ok h" and v: "0 \<le> v" "v \<le> MaxInt64" and w: "0 \<le> w" "w \<le> MaxInt64"
    and eq: "countsIndexFor h v = countsIndexFor h w"
  shows "lowestEquivalentValue h v = lowestEquivalentValue h w"
    and "sizeOfEquivalentValueRange h v = sizeOfEquivalentValueRange h w"
    and "highestEquivalentValue h v = highestEquivalentValue h w"
proof -
  from g obtain u m where um: "unitMagnitude h = int u" "subBucketHalfCountMagnitude h = int m"
    by (metis geom_okE)
  from value_parts [OF g v um] obtain b s where
    P: "countsIndexFor h v = int b * 2 ^ m + s" "lowestEquivalentValue h v = s * 2 ^ (b + u)"
    "sizeOfEquivalentValueRange h v = 2 ^ (b + u)" "nextNonEquivalentValue h v = i64 ((s + 1) * 2 ^ (b + u))"
    "0 \<le> s" "s < 2 * 2 ^ m" "b = 0 \<or> 2 ^ m \<le> s" by metis
  from value_parts [OF g w um] obtain b' s' where
    Q: "countsIndexFor h w = int b' * 2 ^ m + s'" "lowestEquivalentValue h w = s' * 2 ^ (b' + u)"
    "sizeOfEquivalentValueRange h w = 2 ^ (b' + u)" "nextNonEquivalentValue h w = i64 ((s' + 1) * 2 ^ (b' + u))"
    "0 \<le> s'" "s' < 2 * 2 ^ m" "b' = 0 \<or> 2 ^ m \<le> s'" by metis
  have "b = b'" "s = s'" using flat_unique [OF _ P(5-7) Q(5-7)] eq P(1) Q(1) by simp_all
  with P Q show "lowestEquivalentValue h v = lowestEquivalentValue h w"
    "sizeOfEquivalentValueRange h v = sizeOfEquivalentValueRange h w"
    "highestEquivalentValue h v = highestEquivalentValue h w"
    by (simp_all add: highestEquivalentValue_def)
qed

section \<open>Properties of the index arithmetic\<close>

lemma countsIndexFor_nonneg: "geom_ok h \<Longrightarrow> 0 \<le> v \<Longrightarrow> v \<le> MaxInt64 \<Longrightarrow> 0 \<le> countsIndexFor h v"
  by (metis geom_okE value_parts add_nonneg_nonneg mult_nonneg_nonneg of_nat_0_le_iff
      zero_le_numeral zero_le_power)

lemma valueFromFlatIndex_range:
  "geom_ok h \<Longrightarrow> 0 \<le> i \<Longrightarrow> i < countsLen h \<Longrightarrow>
   0 \<le> valueFromFlatIndex h i \<and> valueFromFlatIndex h i \<le> MaxInt64"
proof -
  assume g: "geom_ok h" "0 \<le> i" "i < countsLen h"
  from g(1) obtain u m where um: "unitMagnitude h = int u" "subBucketHalfCountMagnitude h = int m"
    by (metis geom_okE)
  from index_parts [OF g um] obtain b s where
    v: "valueFromFlatIndex h i = s * 2 ^ (b + u)" "0 \<le> s" "(s + 1) * 2 ^ (b + u) \<le> 9223372036854775808"
    by metis
  have "(1::int) \<le> 2 ^ (b + u)" by simp
  moreover have "0 \<le> s * 2 ^ (b + u)" using v(2) by simp
  moreover have "s * 2 ^ (b + u) + 2 ^ (b + u) \<le> 9223372036854775808"
    using v(3) by (simp add: distrib_right)
  ultimately show ?thesis unfolding v(1) by linarith
qed

lemma countsIndexFor_mono:
  assumes g: "geom_ok h" and v: "0 \<le> v" "v \<le> w" "w \<le> MaxInt64"
  shows "countsIndexFor h v \<le> countsIndexFor h w"
proof -
  from g obtain u m where um: "unitMagnitude h = int u" "subBucketHalfCountMagnitude h = int m"
    by (metis geom_okE)
  from v have v': "v \<le> MaxInt64" and w': "0 \<le> w" by simp_all
  from value_parts [OF g v(1) v' um] obtain b s where
    P: "getBucketIndex h v = int b" "countsIndexFor h v = int b * 2 ^ m + s"
    "s * 2 ^ (b + u) \<le> v" "s < 2 * 2 ^ m" by metis
  from value_parts [OF g w' v(3) um] obtain b' s' where
    Q: "getBucketIndex h w = int b'" "countsIndexFor h w = int b' * 2 ^ m + s'"
    "w < (s' + 1) * 2 ^ (b' + u)" "b' = 0 \<or> 2 ^ m \<le> s'" by metis
  have "b \<le> b'"
    using getBucketIndex_eq [OF g v(1) v' um] getBucketIndex_eq [OF g w' v(3) um]
      bits_len_mono [OF v(1,2)] P(1) Q(1) by linarith
  show ?thesis
  proof (cases "b = b'")
    case True
    have "s * 2 ^ (b' + u) < (s' + 1) * 2 ^ (b' + u)" using P(3) Q(3) v(2) unfolding True by linarith
    then have "s < s' + 1" by simp
    with True P(2) Q(2) show ?thesis by simp
  next
    case False
    with \<open>b \<le> b'\<close> Q(4) have "b < b'" "2 ^ m \<le> s'" by auto
    from flat_less [OF this(1) P(4) this(2)] P(2) Q(2) show ?thesis by simp
  qed
qed

lemma countsIndexFor_valueFromFlatIndex:
  assumes g: "geom_ok h" and i: "0 \<le> i" "i < countsLen h"
  shows "countsIndexFor h (valueFromFlatIndex h i) = i"
    and "lowestEquivalentValue h (valueFromFlatIndex h i) = valueFromFlatIndex h i"
proof -
  from g obtain u m where um: "unitMagnitude h = int u" "subBucketHalfCountMagnitude h = int m"
    by (metis geom_okE)
  from index_parts [OF g i um] obtain b s where
    I: "i = int b * 2 ^ m + s" "0 \<le> s" "s < 2 * 2 ^ m" "b = 0 \<or> 2 ^ m \<le> s"
    "valueFromFlatIndex h i = s * 2 ^ (b + u)" by metis
  let ?v = "valueFromFlatIndex h i"
  from valueFromFlatIndex_range [OF g i] have v: "0 \<le> ?v" "?v \<le> MaxInt64" by simp_all
  have b: "getBucketIndex h ?v = int b" "?v div 2 ^ (b + u) = s"
    using bucket_unique [OF I(2,3,4), of u ?v] getBucketIndex_eq [OF g v um] I(5) by simp_all
  from value_parts [OF g v um] obtain b' s' where
    V: "getBucketIndex h ?v = int b'" "countsIndexFor h ?v = int b' * 2 ^ m + s'"
    "lowestEquivalentValue h ?v = s' * 2 ^ (b' + u)"
    "s' * 2 ^ (b' + u) \<le> ?v" "?v < (s' + 1) * 2 ^ (b' + u)" by metis
  with b have bb: "b' = b" by simp
  with V(4,5) b(2) zdiv_eqI [of "2 ^ (b + u)" s' ?v] have "s' = s" by simp
  with V I bb show "countsIndexFor h ?v = i" "lowestEquivalentValue h ?v = ?v" by simp_all
qed

lemma countsIndexFor_eq_iff:
  assumes g: "geom_ok h" and v: "0 \<le> v" "v \<le> MaxInt64" and w: "0 \<le> w" "w \<le> MaxInt64"
  shows "countsIndexFor h v = countsIndexFor h w \<longleftrightarrow>
         lowestEquivalentValue h v \<le> w \<and> w < lowestEquivalentValue h v + sizeOfEquivalentValueRange h v"
proof -
  from g obtain u m where um: "unitMagnitude h = int u" "subBucketHalfCountMagnitude h = int m"
    by (metis geom_okE)
  from value_parts [OF g v um] obtain b s where
    P: "countsIndexFor h v = int b * 2 ^ m + s" "lowestEquivalentValue h v = s * 2 ^ (b + u)"
    "sizeOfEquivalentValueRange h v = 2 ^ (b + u)" "0 \<le> s" "s < 2 * 2 ^ m" "b = 0 \<or> 2 ^ m \<le> s"
    by metis
  from value_parts [OF g w um] obtain b' s' where
    Q: "getBucketIndex h w = int b'" "countsIndexFor h w = int b' * 2 ^ m + s'"
    "s' * 2 ^ (b' + u) \<le> w" "w < (s' + 1) * 2 ^ (b' + u)"
    "0 \<le> s'" "s' < 2 * 2 ^ m" "b' = 0 \<or> 2 ^ m \<le> s'" by metis
  show ?thesis
  proof
    assume eq: "countsIndexFor h v = countsIndexFor h w"
    have "b = b'"
    proof (rule linorder_cases [of b b'])
      assume "b < b'" with flat_less [OF this P(5), of s'] Q(7) eq P(1) Q(2) show ?thesis by auto
    next
      assume "b' < b" with flat_less [OF this Q(6), of s] P(6) eq P(1) Q(2) show ?thesis by auto
    qed
    with eq P(1) Q(2) have "s = s'" by simp
    with \<open>b = b'\<close> Q(3,4) P(2,3) show
      "lowestEquivalentValue h v \<le> w \<and> w < lowestEquivalentValue h v + sizeOfEquivalentValueRange h v"
      by (simp add: algebra_simps)
  next
    assume "lowestEquivalentValue h v \<le> w \<and> w < lowestEquivalentValue h v + sizeOfEquivalentValueRange h v"
    then have w': "s * 2 ^ (b + u) \<le> w" "w < (s + 1) * 2 ^ (b + u)"
      using P(2,3) by (simp_all add: algebra_simps)
    have "b' = b"
      using bucket_unique(1) [OF P(4,5,6) w'] getBucketIndex_eq [OF g w um] Q(1) by simp
    moreover from this have "s' = s"
      using zdiv_eqI [of "2 ^ (b + u)" s' w] zdiv_eqI [of "2 ^ (b + u)" s w] Q(3,4) w' by simp
    ultimately show "countsIndexFor h v = countsIndexFor h w" using P(1) Q(2) by simp
  qed
qed

lemma value_in_range:
  assumes g: "geom_ok h" and v: "0 \<le> v" "v \<le> MaxInt64"
  shows "0 \<le> lowestEquivalentValue h v" and "lowestEquivalentValue h v \<le> v"
    and "v < lowestEquivalentValue h v + sizeOfEquivalentValueRange h v"
    and "highestEquivalentValue h v = lowestEquivalentValue h v + sizeOfEquivalentValueRange h v - 1"
    and "highestEquivalentValue h v \<le> MaxInt64"
    and "1 \<le> sizeOfEquivalentValueRange h v"
proof -
  from g obtain u m where um: "unitMagnitude h = int u" "subBucketHalfCountMagnitude h = int m"
    by (metis geom_okE)
  from value_parts [OF g v um] obtain b s where
    P: "lowestEquivalentValue h v = s * 2 ^ (b + u)" "sizeOfEquivalentValueRange h v = 2 ^ (b + u)"
    "nextNonEquivalentValue h v = i64 ((s + 1) * 2 ^ (b + u))"
    "s * 2 ^ (b + u) \<le> v" "v < (s + 1) * 2 ^ (b + u)" "(s + 1) * 2 ^ (b + u) \<le> 9223372036854775808"
    "0 \<le> s" by metis
  have "highestEquivalentValue h v = i64 ((s + 1) * 2 ^ (b + u) - 1)"
    using i64_add_left [of "(s + 1) * 2 ^ (b + u)" "- 1"] by (simp add: highestEquivalentValue_def P(3))
  also have "\<dots> = (s + 1) * 2 ^ (b + u) - 1" using P v by (intro i64_id) linarith+
  finally have hi: "highestEquivalentValue h v = (s + 1) * 2 ^ (b + u) - 1" .
  show "0 \<le> lowestEquivalentValue h v" "lowestEquivalentValue h v \<le> v"
    "v < lowestEquivalentValue h v + sizeOfEquivalentValueRange h v"
    "highestEquivalentValue h v = lowestEquivalentValue h v + sizeOfEquivalentValueRange h v - 1"
    "highestEquivalentValue h v \<le> MaxInt64" "1 \<le> sizeOfEquivalentValueRange h v"
    using P hi by (simp_all add: algebra_simps)
qed

lemma valueFromFlatIndex_countsIndexFor:
  assumes g: "geom_ok h" and v: "0 \<le> v" "v \<le> MaxInt64" "countsIndexFor h v < countsLen h"
  shows "valueFromFlatIndex h (countsIndexFor h v) = lowestEquivalentValue h v"
proof -
  let ?i = "countsIndexFor h v" and ?w = "valueFromFlatIndex h (countsIndexFor h v)"
  have i: "0 \<le> ?i" using g v by (simp add: countsIndexFor_nonneg)
  note w = valueFromFlatIndex_range [OF g i v(3)]
  note r = countsIndexFor_valueFromFlatIndex [OF g i v(3)]
  have lo: "0 \<le> lowestEquivalentValue h v" "lowestEquivalentValue h v \<le> MaxInt64"
    using value_in_range [OF g v(1,2)] v by simp_all
  have "countsIndexFor h ?w = countsIndexFor h (lowestEquivalentValue h v)"
    using r countsIndexFor_eq_iff [OF g v(1,2) lo] value_in_range(6) [OF g v(1,2)] by simp
  then have "?w \<le> lowestEquivalentValue h v"
    using countsIndexFor_eq_iff [OF g _ _ lo, of ?w] w r(2) by simp
  moreover have "lowestEquivalentValue h v \<le> ?w"
    using countsIndexFor_eq_iff [OF g v(1,2), of ?w] w r(1) by simp
  ultimately show ?thesis by simp
qed

lemma countsIndexFor_less_iff:
  assumes g: "geom_ok h" and v: "0 \<le> v" "v \<le> MaxInt64"
  shows "countsIndexFor h v < countsLen h \<longleftrightarrow>
         v < 2 ^ nat (unitMagnitude h + subBucketHalfCountMagnitude h + bucketCount h)"
proof -
  from g obtain u m n where um: "unitMagnitude h = int u" "subBucketHalfCountMagnitude h = int m"
    and n: "bucketCount h = int n" "1 \<le> n" "countsLen h = (int n + 1) * 2 ^ m"
    by (metis geom_okE)
  from value_parts [OF g v um] obtain b s where
    P: "getBucketIndex h v = int b" "countsIndexFor h v = int b * 2 ^ m + s"
    "s < 2 * 2 ^ m" "b = 0 \<or> 2 ^ m \<le> s" by metis
  have "countsIndexFor h v < countsLen h \<longleftrightarrow> b < n"
  proof
    assume "b < n"
    then have "(int b + 2) * 2 ^ m \<le> (int n + 1) * 2 ^ m" by (intro mult_right_mono) simp_all
    with P n show "countsIndexFor h v < countsLen h" by (simp add: algebra_simps)
  next
    assume l: "countsIndexFor h v < countsLen h"
    show "b < n"
    proof (rule ccontr)
      assume "\<not> b < n"
      then have "int n * 2 ^ m \<le> int b * 2 ^ m" "2 ^ m \<le> s" using P(4) n by (auto intro: mult_right_mono)
      with l P n show False by (simp add: algebra_simps)
    qed
  qed
  also have "b < n \<longleftrightarrow> bits_len v \<le> int (u + m + n)"
    using getBucketIndex_eq [OF g v um] P(1) n by auto
  also have "\<dots> \<longleftrightarrow> v < 2 ^ (u + m + n)" using bits_len_le_iff [OF v(1)] by blast
  finally show ?thesis using um n by (simp add: nat_add_distrib)
qed

section \<open>The constructors establish the geometry\<close>

text \<open>
  What the code relies on of \<open>math.Floor(math.Log2(float64(x)))\<close> for a positive \<open>int64\<close>: it is
  the exact floor of the logarithm, except that the conversion to \<open>float64\<close> and the rounding
  of the logarithm may lift it to the next integer, which cannot happen up to \<open>2 ^ 48\<close>.
\<close>

definition log2_ok :: "(int \<Rightarrow> int) \<Rightarrow> bool" where
  "log2_ok lg \<longleftrightarrow>
     (\<forall>x. 1 \<le> x \<and> x \<le> MaxInt64 \<longrightarrow>
        bits_len x - 1 \<le> lg x \<and> lg x \<le> bits_len x \<and>
        (x \<le> 281474976710656 \<longrightarrow> lg x = bits_len x - 1))"

text \<open>A concrete function with these properties, the exact floor of the logarithm.\<close>

definition floor_log2 :: "int \<Rightarrow> int" where
  "floor_log2 x = bits_len x - 1"

lemma log2_ok_floor_log2: "log2_ok floor_log2"
  by (simp add: log2_ok_def floor_log2_def)

lemma log2_ok_range:
  assumes "log2_ok lg" "1 \<le> x" "x \<le> MaxInt64"
  shows "0 \<le> lg x" and "lg x \<le> 63"
proof -
  have "bits_len x \<le> 63" using bits_len_le_iff [of x 63] assms by simp
  moreover have "1 \<le> bits_len x" using assms by (simp add: bits_len_pos)
  ultimately show "0 \<le> lg x" "lg x \<le> 63" using assms by (auto simp: log2_ok_def)
qed

lemma log2_unit_bounds:
  assumes "log2_ok lg" "1 \<le> x" "x \<le> MaxInt64"
  shows "2 ^ nat (lg x) \<le> 2 * x" and "x \<le> 281474976710656 \<Longrightarrow> 2 ^ nat (lg x) \<le> x"
proof -
  have lg: "bits_len x - 1 \<le> lg x" "lg x \<le> bits_len x" "x \<le> 281474976710656 \<Longrightarrow> lg x = bits_len x - 1"
    using assms by (auto simp: log2_ok_def)
  have pow: "2 ^ nat (bits_len x - 1) \<le> x"
    using bits_len_ge [of x "nat (bits_len x - 1)"] bits_len_nonneg [of "x div 2"] assms
    by (simp add: bits_len_pos)
  have "nat (lg x) \<le> Suc (nat (bits_len x - 1))" using lg(2) by linarith
  from pow2_int_le [OF this] pow show "2 ^ nat (lg x) \<le> 2 * x" by simp
  show "2 ^ nat (lg x) \<le> x" if "x \<le> 281474976710656" using lg(3) [OF that] pow by simp
qed

lemma buckets_loop_spec:
  assumes "k \<le> 62" "0 \<le> c" "c + (63 - int k) \<le> 100"
  shows "\<exists>d. buckets_loop (2 ^ k) mx c = Some (c + int d) \<and> k + d \<le> 63 \<and>
             (mx \<le> MaxInt64 \<longrightarrow> mx < 2 ^ (k + d)) \<and> (d = 0 \<or> 2 ^ (k + d - 1) \<le> mx)"
  using assms
proof (induction "62 - k" arbitrary: k c)
  case 0
  then have k: "k = 62" by simp
  with 0 have "i32 (c + 1) = c + 1" by (intro i32_id) simp_all
  then show ?case
    by (subst buckets_loop.simps) (auto simp: k intro!: exI [of _ "Suc 0"] exI [of _ 0])
next
  case (Suc n)
  then have k: "k < 62" by simp
  have c1: "i32 (c + 1) = c + 1" using Suc.prems by (intro i32_id) simp_all
  have le: "(2::int) ^ k \<le> 2 ^ 61" using k by (intro pow2_int_le) simp
  then have sh: "shl64 (2 ^ k) 1 = 2 ^ Suc k" by (simp add: shl64_small)
  show ?case
  proof (cases "2 ^ k \<le> mx")
    case True
    from Suc.hyps(1) [of "Suc k" "c + 1"] Suc.hyps(2) Suc.prems k obtain d where
      d: "buckets_loop (2 ^ Suc k) mx (c + 1) = Some (c + 1 + int d)" "Suc k + d \<le> 63"
      "mx \<le> MaxInt64 \<longrightarrow> mx < 2 ^ (Suc k + d)" "d = 0 \<or> 2 ^ (Suc k + d - 1) \<le> mx" by fastforce
    have "buckets_loop (2 ^ k) mx c = Some (c + int (Suc d))"
      using True le d(1) by (subst buckets_loop.simps) (simp add: c1 sh)
    moreover have "2 ^ (k + Suc d - 1) \<le> mx" using d(4) True by auto
    ultimately show ?thesis using d by (intro exI [of _ "Suc d"]) simp
  next
    case False
    then show ?thesis
      using Suc.prems by (subst buckets_loop.simps) (auto intro!: exI [of _ 0])
  qed
qed

lemma halfMagnitude_values:
  assumes "0 \<le> d" "d \<le> 5"
  shows "snd (geometryMagnitudes lg lo d) \<in> {0..17}"
    and "10 ^ nat d \<le> (2::int) ^ nat (snd (geometryMagnitudes lg lo d))"
proof -
  from assms consider "d = 0" | "d = 1" | "d = 2" | "d = 3" | "d = 4" | "d = 5" by linarith
  then show "snd (geometryMagnitudes lg lo d) \<in> {0..17}"
    and "10 ^ nat d \<le> (2::int) ^ nat (snd (geometryMagnitudes lg lo d))"
    by (cases; simp add: geometryMagnitudes_def Let_def bits_len.simps)+
qed

lemma newExactGeometry_ok:
  assumes d: "0 \<le> d" "d \<le> 5" and mg: "geometryMagnitudes lg lo d = (unit, half)"
    and sum: "0 \<le> unit" "unit + half \<le> 61" and hi: "hi \<le> MaxInt64"
  obtains h where "newExactGeometry lg lo hi d = Inr h" "geom_ok h"
    "lowestDiscernibleValue h = lo" "highestTrackableValue h = hi" "significantFigures h = d"
    "unitMagnitude h = unit" "subBucketHalfCountMagnitude h = half"
    "hi < 2 ^ nat (unit + half + bucketCount h)"
    "bucketCount h = 1 \<or> 2 ^ nat (unit + half + bucketCount h - 1) \<le> hi"
    "counts h = []" "totalCount h = 0" "tag h = ''''" "startTimeMs h = 0" "endTimeMs h = 0"
    "conversionRatio h = 0"
proof -
  from halfMagnitude_values(1) [OF d, of lg lo] mg have half: "0 \<le> half" "half \<le> 17" by simp_all
  define u m where "u = nat unit" and "m = nat half"
  have um: "unit = int u" "half = int m" "m \<le> 17" "u + m \<le> 61" using sum half by (auto simp: u_def m_def)
  have m2: "(2::int) ^ m \<le> 131072" and m0: "(0::int) < 2 ^ m" using um(3) by (simp_all add: pow2_17)
  have "i32 (2 * 2 ^ m) = 2 * 2 ^ m" using m2 m0 by (intro i32_id) linarith+
  then have cnt: "i32 (2 ^ nat (half + 1)) = 2 * 2 ^ m"
    using um by (simp add: nat_add_distrib)
  have all: "(2::int) ^ (u + m + 1) \<le> 4611686018427387904" using um by (intro pow2_62) simp
  then have top: "2 * 2 ^ m * 2 ^ u \<le> (4611686018427387904 :: int)" by (simp add: power_add mult.commute mult.left_commute)
  have small: "shl64 (2 * 2 ^ m) (int u) = 2 ^ (u + m + 1)"
    using top um by (simp add: shl64_small power_add mult.commute mult.left_commute)
  have "(2 * 2 ^ m - 1) * 2 ^ u \<le> 2 * 2 ^ m * (2::int) ^ u" by (intro mult_right_mono) simp_all
  with top have "(2 * 2 ^ m - 1) * 2 ^ u \<le> MaxInt64" by linarith
  moreover have "0 \<le> 2 * 2 ^ m - (1::int)" using m0 by linarith
  ultimately have mask: "shl64 (2 * 2 ^ m - 1) (int u) = (2 * 2 ^ m - 1) * 2 ^ u"
    using shl64_small [of "int u" "2 * 2 ^ m - 1"] um by simp
  from buckets_loop_spec [of "u + m + 1" 1 hi] um obtain e where
    e: "buckets_loop (2 ^ (u + m + 1)) hi 1 = Some (1 + int e)" "u + m + 1 + e \<le> 63"
    "hi < 2 ^ (u + m + 1 + e)" "e = 0 \<or> 2 ^ (u + m + 1 + e - 1) \<le> hi" using hi by auto
  have "(int e + 2) * 2 ^ m \<le> 64 * 131072" using e(2) m2 by (intro mult_mono) simp_all
  moreover have "0 \<le> (int e + 2) * 2 ^ m" by simp
  ultimately have "i32 ((int e + 2) * 2 ^ m) = (int e + 2) * 2 ^ m" by (intro i32_id) linarith+
  then have len: "i32 (i32 (int e + 2) * 2 ^ m) = (int e + 2) * 2 ^ m"
    using e(2) by (simp add: i32_id)
  have mm: "i32 (2 * 2 ^ m - 1) = 2 * 2 ^ m - 1" using m2 m0 by (intro i32_id) linarith+
  define h where "h = \<lparr>lowestDiscernibleValue = lo, highestTrackableValue = hi,
      unitMagnitude = int u, significantFigures = d, subBucketHalfCountMagnitude = int m,
      subBucketHalfCount = 2 ^ m, subBucketMask = (2 * 2 ^ m - 1) * 2 ^ u,
      subBucketCount = 2 * 2 ^ m, bucketCount = 1 + int e, countsLen = (int e + 2) * 2 ^ m,
      totalCount = 0, counts = [], startTimeMs = 0, endTimeMs = 0, tag = '''', conversionRatio = 0\<rparr>"
  have "getBucketsNeededToCoverValue (shl64 (2 * 2 ^ m) (int u)) hi = Some (1 + int e)"
    unfolding getBucketsNeededToCoverValue_def small by (rule e(1))
  moreover have "i32 (i32 (1 + int e + 1) * quot (2 * 2 ^ m) 2) = (int e + 2) * 2 ^ m"
    using len by (simp add: add.commute)
  ultimately have h: "newExactGeometry lg lo hi d = Inr h"
    unfolding newExactGeometry_def mg Let_def prod.case cnt mm um(1) mask by (simp add: h_def um(2))
  have "geom_ok h" using um e by (simp add: geom_ok_def h_def algebra_simps)
  moreover have "nat (unit + half + bucketCount h) = u + m + 1 + e"
    "nat (unit + half + bucketCount h - 1) = u + m + 1 + e - 1" "bucketCount h = 1 + int e"
    using um by (simp_all add: h_def)
  ultimately show thesis using h um e by (intro that [of h]) (simp_all add: h_def)
qed

lemma clampGeometryArgs_range:
  assumes "clampGeometryArgs lo d = (lo', d')" "lo \<le> MaxInt64"
  shows "1 \<le> lo'" "lo' \<le> MaxInt64" "1 \<le> d'" "d' \<le> 5" "1 \<le> lo \<Longrightarrow> lo' = lo" "1 \<le> d \<Longrightarrow> d \<le> 5 \<Longrightarrow> d' = d"
  using assms by (auto simp: clampGeometryArgs_def Let_def split: if_splits)

lemma geometryMagnitudes_unit:
  assumes "log2_ok lg" "1 \<le> lo" "lo \<le> MaxInt64"
  shows "fst (geometryMagnitudes lg lo d) = lg lo"
  using log2_ok_range [OF assms] by (simp add: geometryMagnitudes_def Let_def i32_id)

lemma geometry_sum:
  assumes "log2_ok lg" "1 \<le> lo" "lo \<le> MaxInt64" "0 \<le> d" "d \<le> 5"
    "geometryMagnitudes lg lo d = (unit, half)"
  shows "0 \<le> unit" "i32 (unit + half) = unit + half" "unit = lg lo" "0 \<le> half" "half \<le> 17"
  using geometryMagnitudes_unit [OF assms(1-3), of d] log2_ok_range [OF assms(1-3)]
    halfMagnitude_values(1) [OF assms(4,5), of lg lo] assms(6)
  by (simp_all add: i32_id)

text \<open>What a caller of either constructor gets: a panic or error, or a well-formed geometry.\<close>

definition geometry_of :: "(int \<Rightarrow> int) \<Rightarrow> int \<Rightarrow> int \<Rightarrow> int \<Rightarrow> histogram \<Rightarrow> bool" where
  "geometry_of lg lo hi d h \<longleftrightarrow>
     newExactGeometry lg lo hi d = Inr h \<and> geom_ok h \<and> 1 \<le> lo \<and> lo \<le> MaxInt64 \<and>
     hi \<le> MaxInt64 \<and> 0 \<le> d \<and> d \<le> 5 \<and>
     lowestDiscernibleValue h = lo \<and> highestTrackableValue h = hi \<and> significantFigures h = d \<and>
     unitMagnitude h = lg lo \<and> unitMagnitude h + subBucketHalfCountMagnitude h \<le> 61 \<and>
     10 ^ nat d \<le> subBucketHalfCount h \<and>
     hi < 2 ^ nat (unitMagnitude h + subBucketHalfCountMagnitude h + bucketCount h) \<and>
     counts h = [] \<and> totalCount h = 0"

lemma newExactGeometry_cases:
  assumes lg: "log2_ok lg" and lo: "1 \<le> lo" "lo \<le> MaxInt64" and hi: "hi \<le> MaxInt64"
    and d: "0 \<le> d" "d \<le> 5" and mg: "geometryMagnitudes lg lo d = (unit, half)"
    and sum: "\<not> 61 < i32 (unit + half)"
  shows "\<exists>h. newExactGeometry lg lo hi d = Inr h \<and> geometry_of lg lo hi d h"
proof -
  note s = geometry_sum [OF lg lo d mg]
  from s sum have le: "unit + half \<le> 61" by simp
  from newExactGeometry_ok [OF d mg s(1) this hi] obtain h where
    h: "newExactGeometry lg lo hi d = Inr h" "geom_ok h" "lowestDiscernibleValue h = lo"
      "highestTrackableValue h = hi" "significantFigures h = d" "unitMagnitude h = unit"
      "subBucketHalfCountMagnitude h = half" "hi < 2 ^ nat (unit + half + bucketCount h)"
      "counts h = []" "totalCount h = 0" by metis
  moreover have "10 ^ nat d \<le> subBucketHalfCount h"
    using halfMagnitude_values(2) [OF d, of lg lo] mg h by (simp add: geom_ok_def)
  ultimately have "geometry_of lg lo hi d h" using lo hi d s(3) le by (simp add: geometry_of_def)
  with h show ?thesis by blast
qed

lemma newGeometry_cases:
  assumes lg: "log2_ok lg" and lo: "lo \<le> MaxInt64" and hi: "hi \<le> MaxInt64"
    and c: "clampGeometryArgs lo d = (lo', d')"
  shows "(\<exists>h. newGeometry lg lo hi d = Inr h \<and> geometry_of lg lo' hi d' h) \<or>
         newGeometry lg lo hi d = Inl (Panic (LowestTooLarge lo d'))"
proof -
  note r = clampGeometryArgs_range [OF c lo]
  obtain unit half where mg: "geometryMagnitudes lg lo' d' = (unit, half)" by fastforce
  show ?thesis
  proof (cases "61 < i32 (unit + half)")
    case True
    then show ?thesis by (simp add: newGeometry_def checkGeometry_def c mg)
  next
    case False
    from newExactGeometry_cases [OF lg r(1,2) hi _ r(4) mg False] r(3) False show ?thesis
      by (auto simp: newGeometry_def checkGeometry_def c mg)
  qed
qed

lemma newGeometry_panics_only_large:
  assumes lg: "log2_ok lg" and lo: "lo \<le> MaxInt64" and c: "clampGeometryArgs lo d = (lo', d')"
    and p: "newGeometry lg lo hi d = Inl (Panic (LowestTooLarge lo d'))"
  shows "35184372088832 \<le> lo'"
proof (rule ccontr)
  assume small: "\<not> 35184372088832 \<le> lo'"
  note r = clampGeometryArgs_range [OF c lo]
  obtain unit half where mg: "geometryMagnitudes lg lo' d' = (unit, half)" by fastforce
  from r have d: "0 \<le> d'" by simp
  note s = geometry_sum [OF lg r(1,2) d r(4) mg]
  have "bits_len lo' \<le> int 45" using small r(1) by (subst bits_len_le_iff) simp_all
  moreover have "lg lo' = bits_len lo' - 1" using lg r small by (simp add: log2_ok_def)
  ultimately have "\<not> 61 < i32 (unit + half)" using s by linarith
  with p show False by (auto simp: newGeometry_def checkGeometry_def c mg newExactGeometry_def Let_def split: option.splits)
qed

lemma wireGeometry_cases:
  assumes lg: "log2_ok lg" and lo: "lo \<le> MaxInt64" and hi: "hi \<le> MaxInt64"
  shows "(\<exists>h. wireGeometry lg lo hi d = Inr h \<and> geometry_of lg (max 1 lo) hi d h) \<or>
         wireGeometry lg lo hi d = Inl (LowestTooLarge (max 1 lo) d) \<or>
         wireGeometry lg lo hi d = Inl (DigitsOutOfRange d)"
proof (cases "d < 0 \<or> d > 5")
  case True
  then show ?thesis by (auto simp: wireGeometry_def)
next
  case False
  let ?lo = "max 1 lo"
  have eq: "(if lo < 1 then 1 else lo) = ?lo" by simp
  obtain unit half where mg: "geometryMagnitudes lg ?lo d = (unit, half)" by fastforce
  show ?thesis
  proof (cases "61 < i32 (unit + half)")
    case True
    with False show ?thesis by (simp add: wireGeometry_def eq mg)
  next
    case small: False
    from newExactGeometry_cases [OF lg _ _ hi _ _ mg small] False lo small show ?thesis
      by (auto simp: wireGeometry_def eq mg)
  qed
qed

lemma wireGeometry_geometry_of:
  assumes "geometry_of lg lo hi d h" "log2_ok lg"
  shows "wireGeometry lg lo hi d = Inr h"
proof -
  obtain unit half where mg: "geometryMagnitudes lg lo d = (unit, half)" by fastforce
  from assms have d: "0 \<le> d" "d \<le> 5" "1 \<le> lo" "lo \<le> MaxInt64" "hi \<le> MaxInt64"
    and h: "newExactGeometry lg lo hi d = Inr h" "geom_ok h" by (auto simp: geometry_of_def)
  note s = geometry_sum [OF assms(2) d(3,4,1,2) mg]
  have "unitMagnitude h = unit" "subBucketHalfCountMagnitude h = half"
    using h(1) by (auto simp: newExactGeometry_def mg Let_def split: option.splits)
  with assms(1) have "unit + half \<le> 61" by (simp add: geometry_of_def)
  with d h(1) s(2) show ?thesis by (simp add: wireGeometry_def mg)
qed

text \<open>
  The precision the configuration promises: an equivalent-value range has the width of the
  unit, or it is at most a \<open>10 ^ digits\<close>-th of every value in it.
\<close>

lemma precision:
  assumes g: "geom_ok h" and v: "0 \<le> v" "v \<le> MaxInt64" and p: "p \<le> subBucketHalfCount h"
  shows "sizeOfEquivalentValueRange h v = 2 ^ nat (unitMagnitude h) \<or>
         sizeOfEquivalentValueRange h v * p \<le> lowestEquivalentValue h v"
proof -
  from g obtain u m where um: "unitMagnitude h = int u" "subBucketHalfCountMagnitude h = int m"
    by (metis geom_okE)
  with g have half: "subBucketHalfCount h = 2 ^ m" by (simp add: geom_ok_def)
  from value_parts [OF g v um] obtain b s where
    P: "lowestEquivalentValue h v = s * 2 ^ (b + u)" "sizeOfEquivalentValueRange h v = 2 ^ (b + u)"
    "b = 0 \<or> 2 ^ m \<le> s" by metis
  show ?thesis
  proof (cases "b = 0")
    case False
    with P(3) p half have "p * 2 ^ (b + u) \<le> s * 2 ^ (b + u)" by (intro mult_right_mono) auto
    then show ?thesis by (simp add: P mult.commute)
  qed (simp add: P um)
qed

section \<open>The interface to the histograms\<close>

text \<open>
  All the recording and query code needs of a geometry: an index for every value, the least
  value of every index, and the laws that tie the two together.
\<close>

locale bucketing =
  fixes ok :: "'g \<Rightarrow> bool"
    and index :: "'g \<Rightarrow> int \<Rightarrow> int"
    and low :: "'g \<Rightarrow> int \<Rightarrow> int"
    and len :: "'g \<Rightarrow> int"
  assumes index_nonneg: "ok g \<Longrightarrow> 0 \<le> v \<Longrightarrow> v \<le> MaxInt64 \<Longrightarrow> 0 \<le> index g v"
    and index_mono: "ok g \<Longrightarrow> 0 \<le> v \<Longrightarrow> v \<le> w \<Longrightarrow> w \<le> MaxInt64 \<Longrightarrow> index g v \<le> index g w"
    and low_range: "ok g \<Longrightarrow> 0 \<le> i \<Longrightarrow> i < len g \<Longrightarrow> 0 \<le> low g i \<and> low g i \<le> MaxInt64"
    and index_low: "ok g \<Longrightarrow> 0 \<le> i \<Longrightarrow> i < len g \<Longrightarrow> index g (low g i) = i"
    and low_index: "ok g \<Longrightarrow> 0 \<le> v \<Longrightarrow> v \<le> MaxInt64 \<Longrightarrow> index g v < len g \<Longrightarrow> low g (index g v) \<le> v"
begin

lemma low_le_iff:
  assumes "ok g" "0 \<le> i" "i < len g" "0 \<le> v" "v \<le> MaxInt64"
  shows "low g i \<le> v \<longleftrightarrow> i \<le> index g v"
proof
  assume "low g i \<le> v"
  with index_mono [of g "low g i" v] low_range index_low assms show "i \<le> index g v" by auto
next
  assume i: "i \<le> index g v"
  show "low g i \<le> v"
  proof (rule ccontr)
    assume n: "\<not> low g i \<le> v"
    with index_mono [of g v "low g i"] low_range [of g i] index_low [of g i] assms
    have "index g v \<le> i" by auto
    with i have "index g v = i" by simp
    with low_index [of g v] assms n show False by simp
  qed
qed

lemma low_strict_mono:
  assumes "ok g" "0 \<le> i" "i < j" "j < len g"
  shows "low g i < low g j"
proof -
  have "\<not> j \<le> index g (low g i)" using assms by (simp add: index_low)
  then show ?thesis using low_le_iff [of g j "low g i"] low_range [of g i] assms by auto
qed

lemma low_inj:
  assumes "ok g" "0 \<le> i" "i < len g" "0 \<le> j" "j < len g" "low g i = low g j"
  shows "i = j"
  using low_strict_mono [of g i j] low_strict_mono [of g j i] assms by (cases i j rule: linorder_cases) auto

end

interpretation buckets: bucketing geom_ok countsIndexFor valueFromFlatIndex countsLen
proof
  show "geom_ok g \<Longrightarrow> 0 \<le> v \<Longrightarrow> v \<le> MaxInt64 \<Longrightarrow> 0 \<le> countsIndexFor g v" for g v
    by (rule countsIndexFor_nonneg)
  show "geom_ok g \<Longrightarrow> 0 \<le> v \<Longrightarrow> v \<le> w \<Longrightarrow> w \<le> MaxInt64 \<Longrightarrow> countsIndexFor g v \<le> countsIndexFor g w"
    for g v w by (rule countsIndexFor_mono)
  show "geom_ok g \<Longrightarrow> 0 \<le> i \<Longrightarrow> i < countsLen g \<Longrightarrow>
        0 \<le> valueFromFlatIndex g i \<and> valueFromFlatIndex g i \<le> MaxInt64" for g i
    by (rule valueFromFlatIndex_range)
  show "geom_ok g \<Longrightarrow> 0 \<le> i \<Longrightarrow> i < countsLen g \<Longrightarrow> countsIndexFor g (valueFromFlatIndex g i) = i" for g i
    by (rule countsIndexFor_valueFromFlatIndex)
  show "geom_ok g \<Longrightarrow> 0 \<le> v \<Longrightarrow> v \<le> MaxInt64 \<Longrightarrow> countsIndexFor g v < countsLen g \<Longrightarrow>
        valueFromFlatIndex g (countsIndexFor g v) \<le> v" for g v
    by (simp add: valueFromFlatIndex_countsIndexFor value_in_range)
qed

text \<open>A small geometry, \<open>New(1, 100, 1)\<close>, to evaluate the definitions on.\<close>

definition sample_geometry :: histogram where
  "sample_geometry = \<lparr>lowestDiscernibleValue = 1, highestTrackableValue = 100, unitMagnitude = 0,
     significantFigures = 1, subBucketHalfCountMagnitude = 4, subBucketHalfCount = 16,
     subBucketMask = 31, subBucketCount = 32, bucketCount = 3, countsLen = 64, totalCount = 0,
     counts = [], startTimeMs = 0, endTimeMs = 0, tag = '''', conversionRatio = 0\<rparr>"

lemma sample_geometry_new: "newGeometry floor_log2 1 100 1 = Inr sample_geometry"
  by code_simp

lemma sample_geometry_ok: "geom_ok sample_geometry"
  by (simp add: geom_ok_def sample_geometry_def)

section \<open>Properties\<close>

text \<open>C2: On every geometry a constructor builds, the equivalent-value ranges partition the
  recordable values. A value lies between its lowest and highest equivalent value, two values
  have the same counts index exactly when the second lies in the range of the first, which is
  what \<open>ValuesAreEquivalent\<close> reports.\<close>

theorem equivalent_ranges_partition:
  assumes "geom_ok h" "0 \<le> v" "v \<le> MaxInt64" "0 \<le> w" "w \<le> MaxInt64"
  shows "lowestEquivalentValue h v \<le> v \<and> v \<le> highestEquivalentValue h v \<and>
         (countsIndexFor h v = countsIndexFor h w \<longleftrightarrow>
            lowestEquivalentValue h v \<le> w \<and> w \<le> highestEquivalentValue h v) \<and>
         (countsIndexFor h v = countsIndexFor h w \<longleftrightarrow> ValuesAreEquivalent h v w)"
proof -
  note r = value_in_range [OF assms(1-3)] and r' = value_in_range [OF assms(1,4,5)]
  note iff = countsIndexFor_eq_iff [OF assms(1)]
  have same: "countsIndexFor h v = countsIndexFor h w \<longleftrightarrow> lowestEquivalentValue h v \<le> w \<and> w \<le> highestEquivalentValue h v"
    using iff [OF assms(2-5)] r by auto
  have low: "countsIndexFor h x = countsIndexFor h (lowestEquivalentValue h x)"
    if "0 \<le> x" "x \<le> MaxInt64" for x
    using iff [OF that, of "lowestEquivalentValue h x"] value_in_range [OF assms(1) that] that by auto
  have "countsIndexFor h v = countsIndexFor h w \<longleftrightarrow> lowestEquivalentValue h v = lowestEquivalentValue h w"
    using same_index(1) [OF assms] low [OF assms(2,3)] low [OF assms(4,5)] by metis
  with same r show ?thesis by (auto simp: ValuesAreEquivalent_def)
qed

theorem equivalent_ranges_partition_witness:
  "geom_ok sample_geometry \<and>
   (lowestEquivalentValue sample_geometry 77 \<le> 77 \<and> 77 \<le> highestEquivalentValue sample_geometry 77 \<and>
    (countsIndexFor sample_geometry 77 = countsIndexFor sample_geometry 76 \<longleftrightarrow>
       lowestEquivalentValue sample_geometry 77 \<le> 76 \<and> 76 \<le> highestEquivalentValue sample_geometry 77) \<and>
    (countsIndexFor sample_geometry 77 = countsIndexFor sample_geometry 76 \<longleftrightarrow>
       ValuesAreEquivalent sample_geometry 77 76))"
  by (rule conjI [OF sample_geometry_ok equivalent_ranges_partition [OF sample_geometry_ok]]) simp_all

text \<open>C3: The flat index and the value it stands for are inverse to each other on the counts
  array: every index of the array is the index of its own value, and the value of a value's
  index is the lowest value equivalent to it.\<close>

theorem flat_index_roundtrip:
  assumes "geom_ok h" "0 \<le> i" "i < countsLen h" "0 \<le> v" "v \<le> MaxInt64" "countsIndexFor h v < countsLen h"
  shows "countsIndexFor h (valueFromFlatIndex h i) = i \<and>
         valueFromFlatIndex h (countsIndexFor h v) = lowestEquivalentValue h v \<and>
         (valueFromFlatIndex h i \<le> v \<longleftrightarrow> i \<le> countsIndexFor h v)"
  using assms by (simp add: buckets.index_low valueFromFlatIndex_countsIndexFor buckets.low_le_iff)

theorem flat_index_roundtrip_witness:
  "countsIndexFor sample_geometry (valueFromFlatIndex sample_geometry 50) = 50 \<and>
   valueFromFlatIndex sample_geometry (countsIndexFor sample_geometry 77) = lowestEquivalentValue sample_geometry 77 \<and>
   (valueFromFlatIndex sample_geometry 50 \<le> 77 \<longleftrightarrow> 50 \<le> countsIndexFor sample_geometry 77)"
proof (rule flat_index_roundtrip [OF sample_geometry_ok])
  show "countsIndexFor sample_geometry 77 < countsLen sample_geometry" by code_simp
qed (simp_all add: sample_geometry_def)

text \<open>C4: The constructor either panics because the lowest discernible value is too large for
  the precision, which needs a lowest value of at least \<open>2 ^ 45\<close>, or returns a well-formed
  geometry. There every value up to the highest
  trackable one has an index inside the counts array, and the value range that shares one
  bucket is one unit wide or at most the \<open>10 ^ digits\<close>-th part of every value in it, with the
  digits clamped to 1..5. The unit is at most the lowest discernible value up to \<open>2 ^ 48\<close>, and
  always at most twice that value.\<close>

theorem newGeometry_correct:
  assumes "log2_ok lg" "lo \<le> MaxInt64" "hi \<le> MaxInt64" "clampGeometryArgs lo d = (lo', d')"
  shows "newGeometry lg lo hi d = Inl (Panic (LowestTooLarge lo d')) \<and> 35184372088832 \<le> lo' \<or>
         (\<exists>h. newGeometry lg lo hi d = Inr h \<and> geom_ok h \<and>
            (\<forall>v. 0 \<le> v \<and> v \<le> hi \<longrightarrow> 0 \<le> countsIndexFor h v \<and> countsIndexFor h v < countsLen h) \<and>
            (\<forall>v. 0 \<le> v \<and> v \<le> MaxInt64 \<longrightarrow>
               sizeOfEquivalentValueRange h v = 2 ^ nat (unitMagnitude h) \<or>
               sizeOfEquivalentValueRange h v * 10 ^ nat d' \<le> lowestEquivalentValue h v) \<and>
            2 ^ nat (unitMagnitude h) \<le> 2 * lo' \<and>
            (lo' \<le> 281474976710656 \<longrightarrow> 2 ^ nat (unitMagnitude h) \<le> lo'))"
proof -
  from newGeometry_cases [OF assms] show ?thesis
  proof
    assume "\<exists>h. newGeometry lg lo hi d = Inr h \<and> geometry_of lg lo' hi d' h"
    then obtain h where h: "newGeometry lg lo hi d = Inr h" and g: "geometry_of lg lo' hi d' h" by blast
    from g have ok: "geom_ok h" and top: "hi < 2 ^ nat (unitMagnitude h + subBucketHalfCountMagnitude h + bucketCount h)"
      and p: "10 ^ nat d' \<le> subBucketHalfCount h" and um: "unitMagnitude h = lg lo'"
      and lo: "1 \<le> lo'" "lo' \<le> MaxInt64" by (auto simp: geometry_of_def)
    have in_range: "0 \<le> countsIndexFor h v \<and> countsIndexFor h v < countsLen h" if "0 \<le> v" "v \<le> hi" for v
      using countsIndexFor_less_iff [OF ok, of v] countsIndexFor_nonneg [OF ok, of v] top that assms(3) by auto
    from h ok in_range precision [OF ok _ _ p] um log2_unit_bounds [OF assms(1) lo] show ?thesis by auto
  qed (simp add: newGeometry_panics_only_large [OF assms(1,2,4)])
qed

theorem newGeometry_correct_witness:
  "\<exists>h. newGeometry floor_log2 1 100 1 = Inr h \<and> geom_ok h \<and>
      0 \<le> countsIndexFor h 100 \<and> countsIndexFor h 100 < countsLen h"
proof -
  have c: "clampGeometryArgs 1 1 = (1, 1)" by code_simp
  have "100 \<le> MaxInt64" "(1::int) \<le> MaxInt64" by simp_all
  from newGeometry_correct [OF log2_ok_floor_log2 this(2,1) c] show ?thesis
    by (auto simp: sample_geometry_new)
qed

end
