(* ===== verification/Histogram.thy ===== *)
theory Histogram
  imports Geometry "HOL-Library.Multiset"
begin

text \<open>
  The dense \<open>Histogram\<close> of \<open>hdr.go\<close>: construction, recording, resetting, the bucket iterators,
  merging, the extrema, and the snapshot import and export. A mutating method returns the new
  histogram; one that can fail returns the error, if any, beside it.

  \<open>hist_ok\<close> is the representation invariant. \<open>represents h M\<close> relates a histogram to the
  multiset \<open>M\<close> of the values recorded into it, which is the abstract state the operations are
  specified by.
\<close>

section \<open>Construction, recording, reset\<close>

definition New :: "(int \<Rightarrow> int) \<Rightarrow> int \<Rightarrow> int \<Rightarrow> int \<Rightarrow> error + histogram" where
  "New lg lowest highest digits =
     (case newGeometry lg lowest highest digits of
        Inl e \<Rightarrow> Inl e
      | Inr h \<Rightarrow> Inr (h\<lparr>counts := replicate (nat (countsLen h)) 0\<rparr>))"

definition setCountAtIndex :: "histogram \<Rightarrow> int \<Rightarrow> int \<Rightarrow> histogram" where
  "setCountAtIndex h i n =
     h\<lparr>counts := (counts h)[nat i := i64 (counts h ! nat i + n)],
       totalCount := i64 (totalCount h + n)\<rparr>"

definition RecordValues :: "histogram \<Rightarrow> int \<Rightarrow> int \<Rightarrow> error option \<times> histogram" where
  "RecordValues h v n =
     (if v < 0 then (Some (NegativeValue v), h)
      else let i = countsIndexFor h v
           in if u64 i \<ge> int (length (counts h)) then (Some (ValueTooLarge v), h)
              else if n < 0 then (Some (NegativeCount n), h)
              else if n > i64 (MaxInt64 - totalCount h) then (Some (TotalOverflow n), h)
              else (None, setCountAtIndex h i n))"

definition RecordValue :: "histogram \<Rightarrow> int \<Rightarrow> error option \<times> histogram" where
  "RecordValue h v = RecordValues h v 1"

text \<open>The loop runs with a positive interval only; the guard says so again for termination.\<close>

function corrected_loop :: "histogram \<Rightarrow> int \<Rightarrow> int \<Rightarrow> error option \<times> histogram" where
  "corrected_loop h missingValue expectedInterval =
     (if 0 < expectedInterval \<and> missingValue \<ge> expectedInterval
      then case RecordValue h missingValue of
             (Some err, h') \<Rightarrow> (Some err, h')
           | (None, h') \<Rightarrow> corrected_loop h' (i64 (missingValue - expectedInterval)) expectedInterval
      else (None, h))"
  by pat_completeness auto

lemma i64_le: "0 \<le> x \<Longrightarrow> i64 x \<le> x"
  using zmod_le_nonneg_dividend [of "x + 9223372036854775808" 18446744073709551616]
  by (simp add: i64_def)

termination corrected_loop
proof (relation "measure (\<lambda>(h, m, e). nat m)")
  fix h :: histogram and m e :: int
  assume a: "0 < e \<and> e \<le> m"
  then have "i64 (m - e) \<le> m - e" by (intro i64_le) simp
  with a show "((h', i64 (m - e), e), h, m, e) \<in> measure (\<lambda>(h, m, e). nat m)" for h' :: histogram
    by simp
qed simp_all

declare corrected_loop.simps [simp del]

definition RecordCorrectedValue :: "histogram \<Rightarrow> int \<Rightarrow> int \<Rightarrow> error option \<times> histogram" where
  "RecordCorrectedValue h v expectedInterval =
     (case RecordValue h v of
        (Some err, h') \<Rightarrow> (Some err, h')
      | (None, h') \<Rightarrow>
          if expectedInterval \<le> 0 \<or> v \<le> expectedInterval then (None, h')
          else corrected_loop h' (i64 (v - expectedInterval)) expectedInterval)"

definition Reset :: "histogram \<Rightarrow> histogram" where
  "Reset h = h\<lparr>totalCount := 0, counts := map (\<lambda>_. 0) (counts h),
               tag := '''', startTimeMs := 0, endTimeMs := 0\<rparr>"

definition SetTag :: "histogram \<Rightarrow> string \<Rightarrow> histogram" where
  "SetTag h t = h\<lparr>tag := t\<rparr>"

definition SetStartTimeMs :: "histogram \<Rightarrow> int \<Rightarrow> histogram" where
  "SetStartTimeMs h t = h\<lparr>startTimeMs := t\<rparr>"

definition SetEndTimeMs :: "histogram \<Rightarrow> int \<Rightarrow> histogram" where
  "SetEndTimeMs h t = h\<lparr>endTimeMs := t\<rparr>"

definition ByteSize :: "histogram \<Rightarrow> int" where
  "ByteSize h = i64 (6 * 8 + 5 * 4 + i64 (int (length (counts h)) * 8))"

definition Clone :: "histogram \<Rightarrow> histogram" where
  "Clone h = h\<lparr>counts := counts h\<rparr>"

section \<open>Iterators\<close>

record iter =
  it_bucketIdx :: int
  it_subBucketIdx :: int
  countAtIdx :: int
  countToIdx :: int
  valueFromIdx :: int
  it_highestEquivalentValue :: int

definition iterator :: iter where
  "iterator = \<lparr>it_bucketIdx = 0, it_subBucketIdx = - 1, countAtIdx = 0, countToIdx = 0,
               valueFromIdx = 0, it_highestEquivalentValue = 0\<rparr>"

definition getCountAtIndex :: "histogram \<Rightarrow> int \<Rightarrow> int \<Rightarrow> int" where
  "getCountAtIndex h bucketIdx subBucketIdx = counts h ! nat (countsIndex h bucketIdx subBucketIdx)"

definition nextCountAtIdx :: "histogram \<Rightarrow> iter \<Rightarrow> int \<Rightarrow> bool \<times> iter" where
  "nextCountAtIdx h i limit =
     (if countToIdx i \<ge> limit then (False, i)
      else let sub = i32 (it_subBucketIdx i + 1);
               i1 = (if sub \<ge> subBucketCount h
                     then i\<lparr>it_subBucketIdx := subBucketHalfCount h,
                            it_bucketIdx := i32 (it_bucketIdx i + 1)\<rparr>
                     else i\<lparr>it_subBucketIdx := sub\<rparr>)
           in if it_bucketIdx i1 \<ge> bucketCount h then (False, i1)
              else let c = getCountAtIndex h (it_bucketIdx i1) (it_subBucketIdx i1)
                   in (True, i1\<lparr>countAtIdx := c, countToIdx := i64 (countToIdx i1 + c),
                                valueFromIdx := valueFromIndex h (it_bucketIdx i1) (it_subBucketIdx i1)\<rparr>))"

definition iter_next :: "histogram \<Rightarrow> iter \<Rightarrow> bool \<times> iter" where
  "iter_next h i =
     (case nextCountAtIdx h i (totalCount h) of
        (False, i') \<Rightarrow> (False, i')
      | (True, i') \<Rightarrow>
          (True, i'\<lparr>it_highestEquivalentValue := highestEquivalentValue h (valueFromIdx i')\<rparr>))"

text \<open>
  The states a \<open>for i.next()\<close> loop sees, in order. The loop bodies of the methods below do not
  change the iterated histogram, so they are functions of this list.
\<close>

partial_function (option) iter_states :: "histogram \<Rightarrow> iter \<Rightarrow> iter list option" where
  "iter_states h i =
     (case iter_next h i of (found, i') \<Rightarrow>
        if found then Option.bind (iter_states h i') (\<lambda>rest. Some (i' # rest)) else Some [])"

declare iter_states.simps [code]

text \<open>\<open>rIterator.next\<close> skips the empty buckets.\<close>

definition rIterator_states :: "histogram \<Rightarrow> iter list option" where
  "rIterator_states h = map_option (filter (\<lambda>i. countAtIdx i \<noteq> 0)) (iter_states h iterator)"

section \<open>Merge and extrema\<close>

definition addDropped :: "int \<Rightarrow> int \<Rightarrow> int" where
  "addDropped tot c = (if c > i64 (MaxInt64 - tot) then MaxInt64 else i64 (tot + c))"

definition merge_bucket :: "int \<times> histogram \<Rightarrow> iter \<Rightarrow> int \<times> histogram" where
  "merge_bucket = (\<lambda>(dropped, h) i.
     (case RecordValues h (valueFromIdx i) (countAtIdx i) of
        (None, h') \<Rightarrow> (dropped, h')
      | (Some _, h') \<Rightarrow> (addDropped dropped (countAtIdx i), h')))"

definition Merge :: "histogram \<Rightarrow> histogram \<Rightarrow> error + int \<times> histogram" where
  "Merge h from =
     (case rIterator_states from of
        None \<Rightarrow> Inl Diverges
      | Some is \<Rightarrow> Inr (foldl merge_bucket (0, h) is))"

definition Max_h :: "histogram \<Rightarrow> error + int" where
  "Max_h h =
     (case iter_states h iterator of
        None \<Rightarrow> Inl Diverges
      | Some is \<Rightarrow>
          Inr (highestEquivalentValue h
            (foldl (\<lambda>mx i. if countAtIdx i \<noteq> 0 then it_highestEquivalentValue i else mx) 0 is)))"

fun min_loop :: "int \<Rightarrow> iter list \<Rightarrow> int" where
  "min_loop mn [] = mn"
| "min_loop mn (i # is) =
     (if countAtIdx i \<noteq> 0 \<and> mn = 0 then it_highestEquivalentValue i else min_loop mn is)"

definition Min_h :: "histogram \<Rightarrow> error + int" where
  "Min_h h =
     (case iter_states h iterator of
        None \<Rightarrow> Inl Diverges
      | Some is \<Rightarrow> Inr (lowestEquivalentValue h (min_loop 0 is)))"

record bar =
  From :: int
  To :: int
  Count :: int

definition Distribution :: "histogram \<Rightarrow> error + bar list" where
  "Distribution h =
     (case iter_states h iterator of
        None \<Rightarrow> Inl Diverges
      | Some is \<Rightarrow>
          Inr (map (\<lambda>i. \<lparr>From = lowestEquivalentValue h (valueFromIdx i),
                         To = it_highestEquivalentValue i, Count = countAtIdx i\<rparr>) is))"

section \<open>Comparison and snapshots\<close>

text \<open>\<open>None\<close> is the index panic when the other counts array is shorter.\<close>

fun counts_equal :: "int list \<Rightarrow> int list \<Rightarrow> bool option" where
  "counts_equal [] _ = Some True"
| "counts_equal (c # cs) [] = None"
| "counts_equal (c # cs) (d # ds) = (if c \<noteq> d then Some False else counts_equal cs ds)"

definition Equals :: "histogram \<Rightarrow> histogram \<Rightarrow> bool option" where
  "Equals h other =
     (if lowestDiscernibleValue h \<noteq> lowestDiscernibleValue other \<or>
         highestTrackableValue h \<noteq> highestTrackableValue other \<or>
         unitMagnitude h \<noteq> unitMagnitude other \<or>
         significantFigures h \<noteq> significantFigures other \<or>
         subBucketHalfCountMagnitude h \<noteq> subBucketHalfCountMagnitude other \<or>
         subBucketHalfCount h \<noteq> subBucketHalfCount other \<or>
         subBucketMask h \<noteq> subBucketMask other \<or>
         subBucketCount h \<noteq> subBucketCount other \<or>
         bucketCount h \<noteq> bucketCount other \<or>
         countsLen h \<noteq> countsLen other \<or>
         totalCount h \<noteq> totalCount other
      then Some False
      else counts_equal (counts h) (counts other))"

record snapshot =
  LowestTrackableValue :: int
  HighestTrackableValue :: int
  SignificantFigures :: int
  Counts :: "int list"
  IntegerToDoubleConversionRatio :: "64 word"

definition Export :: "histogram \<Rightarrow> snapshot" where
  "Export h = \<lparr>LowestTrackableValue = lowestDiscernibleValue h,
               HighestTrackableValue = highestTrackableValue h,
               SignificantFigures = significantFigures h,
               Counts = counts h,
               IntegerToDoubleConversionRatio = conversionRatio h\<rparr>"

fun validate_loop :: "int \<Rightarrow> int \<Rightarrow> int \<Rightarrow> int list \<Rightarrow> error option" where
  "validate_loop len i tot [] = None"
| "validate_loop len i tot (c # cs) =
     (if c < 0 then Some (NegativeCountAt i c)
      else if c = 0 then validate_loop len (i + 1) tot cs
      else if i \<ge> len then Some (CountBeyondRange i len)
      else if c > i64 (MaxInt64 - tot) then Some (CountsSumOverflow i)
      else validate_loop len (i + 1) (i64 (tot + c)) cs)"

definition Validate :: "(int \<Rightarrow> int) \<Rightarrow> snapshot option \<Rightarrow> error option" where
  "Validate lg sp =
     (case sp of
        None \<Rightarrow> Some NilSnapshot
      | Some s \<Rightarrow>
          if SignificantFigures s < 0 \<or> SignificantFigures s > 5
          then Some (FiguresOutOfRange (SignificantFigures s))
          else case wireGeometry lg (LowestTrackableValue s) (HighestTrackableValue s)
                      (i32 (SignificantFigures s)) of
                 Inl err \<Rightarrow> Some err
               | Inr g \<Rightarrow> validate_loop (countsLen g) 0 0 (Counts s))"

definition import_geometry :: "(int \<Rightarrow> int) \<Rightarrow> snapshot \<Rightarrow> error + histogram" where
  "import_geometry lg s =
     (let exact = (if SignificantFigures s \<ge> 0 \<and> SignificantFigures s \<le> 5
                   then wireGeometry lg (LowestTrackableValue s) (HighestTrackableValue s)
                          (i32 (SignificantFigures s))
                   else Inl (FiguresOutOfRange (SignificantFigures s)))
      in case exact of
           Inr g \<Rightarrow> Inr (g\<lparr>counts := replicate (nat (countsLen g)) 0\<rparr>)
         | Inl Diverges \<Rightarrow> Inl Diverges
         | Inl _ \<Rightarrow> New lg (LowestTrackableValue s) (HighestTrackableValue s) (SignificantFigures s))"

definition Import :: "(int \<Rightarrow> int) \<Rightarrow> snapshot \<Rightarrow> error + histogram" where
  "Import lg s =
     (case import_geometry lg s of
        Inl e \<Rightarrow> Inl e
      | Inr h \<Rightarrow>
          let copied = take (length (counts h)) (Counts s) @ drop (length (Counts s)) (counts h);
              tot = foldl (\<lambda>t c. if c > 0 then i64 (t + c) else t) 0 copied;
              cleaned = map (\<lambda>c. if c < 0 then 0 else c) copied
          in Inr (h\<lparr>counts := cleaned, totalCount := tot,
                    conversionRatio := IntegerToDoubleConversionRatio s\<rparr>))"

lemmas geometry_defs = geom_ok_def countsIndexFor_def countsIndex_def valueFromIndex_def valueFromFlatIndex_def lowestEquivalentValue_def
  lowestEquivalentValueGivenBucketIdx_def highestEquivalentValue_def nextNonEquivalentValue_def
  sizeOfEquivalentValueRange_def sizeOfEquivalentValueRangeGivenBucketIdx_def medianEquivalentValue_def
  getBucketIndex_def getSubBucketIdx_def getBucketBaseIdx_def

text \<open>The geometry does not depend on the recorded data and the log metadata.\<close>

lemma geom_counts_update [simp]:
  "geom_ok (h\<lparr>counts := x\<rparr>) = geom_ok h"
  "countsIndexFor (h\<lparr>counts := x\<rparr>) v = countsIndexFor h v"
  "countsIndex (h\<lparr>counts := x\<rparr>) b s = countsIndex h b s"
  "valueFromIndex (h\<lparr>counts := x\<rparr>) b s = valueFromIndex h b s"
  "valueFromFlatIndex (h\<lparr>counts := x\<rparr>) i = valueFromFlatIndex h i"
  "lowestEquivalentValue (h\<lparr>counts := x\<rparr>) v = lowestEquivalentValue h v"
  "highestEquivalentValue (h\<lparr>counts := x\<rparr>) v = highestEquivalentValue h v"
  "sizeOfEquivalentValueRange (h\<lparr>counts := x\<rparr>) v = sizeOfEquivalentValueRange h v"
  "medianEquivalentValue (h\<lparr>counts := x\<rparr>) v = medianEquivalentValue h v"
  by (simp_all add: geometry_defs Let_def)

lemma geom_totalCount_update [simp]:
  "geom_ok (h\<lparr>totalCount := x\<rparr>) = geom_ok h"
  "countsIndexFor (h\<lparr>totalCount := x\<rparr>) v = countsIndexFor h v"
  "countsIndex (h\<lparr>totalCount := x\<rparr>) b s = countsIndex h b s"
  "valueFromIndex (h\<lparr>totalCount := x\<rparr>) b s = valueFromIndex h b s"
  "valueFromFlatIndex (h\<lparr>totalCount := x\<rparr>) i = valueFromFlatIndex h i"
  "lowestEquivalentValue (h\<lparr>totalCount := x\<rparr>) v = lowestEquivalentValue h v"
  "highestEquivalentValue (h\<lparr>totalCount := x\<rparr>) v = highestEquivalentValue h v"
  "sizeOfEquivalentValueRange (h\<lparr>totalCount := x\<rparr>) v = sizeOfEquivalentValueRange h v"
  "medianEquivalentValue (h\<lparr>totalCount := x\<rparr>) v = medianEquivalentValue h v"
  by (simp_all add: geometry_defs Let_def)

lemma geom_startTimeMs_update [simp]:
  "geom_ok (h\<lparr>startTimeMs := x\<rparr>) = geom_ok h"
  "countsIndexFor (h\<lparr>startTimeMs := x\<rparr>) v = countsIndexFor h v"
  "countsIndex (h\<lparr>startTimeMs := x\<rparr>) b s = countsIndex h b s"
  "valueFromIndex (h\<lparr>startTimeMs := x\<rparr>) b s = valueFromIndex h b s"
  "valueFromFlatIndex (h\<lparr>startTimeMs := x\<rparr>) i = valueFromFlatIndex h i"
  "lowestEquivalentValue (h\<lparr>startTimeMs := x\<rparr>) v = lowestEquivalentValue h v"
  "highestEquivalentValue (h\<lparr>startTimeMs := x\<rparr>) v = highestEquivalentValue h v"
  "sizeOfEquivalentValueRange (h\<lparr>startTimeMs := x\<rparr>) v = sizeOfEquivalentValueRange h v"
  "medianEquivalentValue (h\<lparr>startTimeMs := x\<rparr>) v = medianEquivalentValue h v"
  by (simp_all add: geometry_defs Let_def)

lemma geom_endTimeMs_update [simp]:
  "geom_ok (h\<lparr>endTimeMs := x\<rparr>) = geom_ok h"
  "countsIndexFor (h\<lparr>endTimeMs := x\<rparr>) v = countsIndexFor h v"
  "countsIndex (h\<lparr>endTimeMs := x\<rparr>) b s = countsIndex h b s"
  "valueFromIndex (h\<lparr>endTimeMs := x\<rparr>) b s = valueFromIndex h b s"
  "valueFromFlatIndex (h\<lparr>endTimeMs := x\<rparr>) i = valueFromFlatIndex h i"
  "lowestEquivalentValue (h\<lparr>endTimeMs := x\<rparr>) v = lowestEquivalentValue h v"
  "highestEquivalentValue (h\<lparr>endTimeMs := x\<rparr>) v = highestEquivalentValue h v"
  "sizeOfEquivalentValueRange (h\<lparr>endTimeMs := x\<rparr>) v = sizeOfEquivalentValueRange h v"
  "medianEquivalentValue (h\<lparr>endTimeMs := x\<rparr>) v = medianEquivalentValue h v"
  by (simp_all add: geometry_defs Let_def)

lemma geom_tag_update [simp]:
  "geom_ok (h\<lparr>tag := x\<rparr>) = geom_ok h"
  "countsIndexFor (h\<lparr>tag := x\<rparr>) v = countsIndexFor h v"
  "countsIndex (h\<lparr>tag := x\<rparr>) b s = countsIndex h b s"
  "valueFromIndex (h\<lparr>tag := x\<rparr>) b s = valueFromIndex h b s"
  "valueFromFlatIndex (h\<lparr>tag := x\<rparr>) i = valueFromFlatIndex h i"
  "lowestEquivalentValue (h\<lparr>tag := x\<rparr>) v = lowestEquivalentValue h v"
  "highestEquivalentValue (h\<lparr>tag := x\<rparr>) v = highestEquivalentValue h v"
  "sizeOfEquivalentValueRange (h\<lparr>tag := x\<rparr>) v = sizeOfEquivalentValueRange h v"
  "medianEquivalentValue (h\<lparr>tag := x\<rparr>) v = medianEquivalentValue h v"
  by (simp_all add: geometry_defs Let_def)

lemma geom_conversionRatio_update [simp]:
  "geom_ok (h\<lparr>conversionRatio := x\<rparr>) = geom_ok h"
  "countsIndexFor (h\<lparr>conversionRatio := x\<rparr>) v = countsIndexFor h v"
  "countsIndex (h\<lparr>conversionRatio := x\<rparr>) b s = countsIndex h b s"
  "valueFromIndex (h\<lparr>conversionRatio := x\<rparr>) b s = valueFromIndex h b s"
  "valueFromFlatIndex (h\<lparr>conversionRatio := x\<rparr>) i = valueFromFlatIndex h i"
  "lowestEquivalentValue (h\<lparr>conversionRatio := x\<rparr>) v = lowestEquivalentValue h v"
  "highestEquivalentValue (h\<lparr>conversionRatio := x\<rparr>) v = highestEquivalentValue h v"
  "sizeOfEquivalentValueRange (h\<lparr>conversionRatio := x\<rparr>) v = sizeOfEquivalentValueRange h v"
  "medianEquivalentValue (h\<lparr>conversionRatio := x\<rparr>) v = medianEquivalentValue h v"
  by (simp_all add: geometry_defs Let_def)

section \<open>The representation invariant\<close>

definition hist_ok :: "histogram \<Rightarrow> bool" where
  "hist_ok h \<longleftrightarrow>
     geom_ok h \<and> int (length (counts h)) = countsLen h \<and> (\<forall>c \<in> set (counts h). 0 \<le> c) \<and>
     sum_list (counts h) = totalCount h \<and> totalCount h \<le> MaxInt64"

lemma sum_list_nonneg_int: "\<forall>c \<in> set cs. 0 \<le> c \<Longrightarrow> 0 \<le> sum_list (cs :: int list)"
  by (induction cs) auto

lemma nth_le_sum_list: "\<forall>c \<in> set cs. 0 \<le> c \<Longrightarrow> k < length cs \<Longrightarrow> cs ! k \<le> sum_list (cs :: int list)"
proof (induction cs arbitrary: k)
  case (Cons c cs)
  then have "0 \<le> sum_list cs" by (simp add: sum_list_nonneg_int)
  with Cons show ?case by (cases k) (auto intro: add_increasing)
qed simp

lemma sum_list_update_int: "k < length cs \<Longrightarrow> sum_list (cs[k := x]) = sum_list cs + x - cs ! k" for cs :: "int list"
  by (induction cs arbitrary: k) (auto split: nat.splits)

lemma hist_ok_total: "hist_ok h \<Longrightarrow> 0 \<le> totalCount h"
  using sum_list_nonneg_int [of "counts h"] by (simp add: hist_ok_def)

lemma hist_ok_nth:
  assumes "hist_ok h" "k < length (counts h)"
  shows "0 \<le> counts h ! k" and "counts h ! k \<le> totalCount h"
  using assms nth_le_sum_list [of "counts h" k] nth_mem [of k "counts h"] by (auto simp: hist_ok_def)

lemma setCountAtIndex_eq:
  assumes h: "hist_ok h" and k: "k < length (counts h)" and n: "0 \<le> n" "n \<le> MaxInt64 - totalCount h"
  shows "setCountAtIndex h (int k) n =
           h\<lparr>counts := (counts h)[k := counts h ! k + n], totalCount := totalCount h + n\<rparr>"
    and "hist_ok (setCountAtIndex h (int k) n)"
proof -
  note b = hist_ok_total [OF h] hist_ok_nth [OF h k]
  have "i64 (counts h ! k + n) = counts h ! k + n" "i64 (totalCount h + n) = totalCount h + n"
    using b n by (intro i64_id; linarith)+
  then show eq: "setCountAtIndex h (int k) n =
      h\<lparr>counts := (counts h)[k := counts h ! k + n], totalCount := totalCount h + n\<rparr>"
    by (simp add: setCountAtIndex_def)
  have "\<forall>c \<in> set ((counts h)[k := counts h ! k + n]). 0 \<le> c"
    using h b n set_update_subset_insert [of "counts h" k "counts h ! k + n"]
    by (fastforce simp: hist_ok_def)
  moreover have "sum_list ((counts h)[k := counts h ! k + n]) = totalCount h + n"
    using k h by (simp add: sum_list_update_int hist_ok_def)
  ultimately show "hist_ok (setCountAtIndex h (int k) n)"
    using h n unfolding eq by (simp add: hist_ok_def)
qed

text \<open>Every outcome of \<open>RecordValues\<close>, in the order of its checks.\<close>

definition in_array :: "histogram \<Rightarrow> int \<Rightarrow> bool" where
  "in_array h v \<longleftrightarrow> 0 \<le> v \<and> v \<le> MaxInt64 \<and> countsIndexFor h v < countsLen h"

lemma index_check:
  assumes "geom_ok h" "int (length (counts h)) = countsLen h" "0 \<le> v" "v \<le> MaxInt64"
  shows "u64 (countsIndexFor h v) \<ge> int (length (counts h)) \<longleftrightarrow> \<not> in_array h v"
proof -
  have i: "0 \<le> countsIndexFor h v" using assms by (simp add: countsIndexFor_nonneg)
  have "countsIndexFor h v \<le> 2147483647" by (simp add: countsIndexFor_def Let_def countsIndex_def i32_def)
  with i have "u64 (countsIndexFor h v) = countsIndexFor h v" by (intro u64_id) linarith+
  then show ?thesis using assms by (auto simp: in_array_def)
qed

lemma RecordValues_cases:
  assumes h: "hist_ok h" and v: "v \<le> MaxInt64"
  shows "RecordValues h v n =
    (if v < 0 then (Some (NegativeValue v), h)
     else if \<not> in_array h v then (Some (ValueTooLarge v), h)
     else if n < 0 then (Some (NegativeCount n), h)
     else if n > MaxInt64 - totalCount h then (Some (TotalOverflow n), h)
     else (None, h\<lparr>counts := (counts h)[nat (countsIndexFor h v) := counts h ! nat (countsIndexFor h v) + n],
                   totalCount := totalCount h + n\<rparr>))"
proof (cases "v < 0 \<or> \<not> in_array h v \<or> n < 0 \<or> n > MaxInt64 - totalCount h")
  case True
  have "i64 (MaxInt64 - totalCount h) = MaxInt64 - totalCount h"
    using h hist_ok_total [OF h] by (intro i64_id) (simp_all add: hist_ok_def)
  with True show ?thesis
    using index_check [of h v] h v by (auto simp: RecordValues_def Let_def hist_ok_def)
next
  case False
  have "i64 (MaxInt64 - totalCount h) = MaxInt64 - totalCount h"
    using h hist_ok_total [OF h] by (intro i64_id) (simp_all add: hist_ok_def)
  moreover have "0 \<le> countsIndexFor h v"
    using False h by (auto simp: hist_ok_def in_array_def countsIndexFor_nonneg)
  moreover have "nat (countsIndexFor h v) < length (counts h)"
    using False h calculation(2) by (auto simp: hist_ok_def in_array_def)
  ultimately show ?thesis
    using False index_check [of h v] h v setCountAtIndex_eq(1) [OF h, of "nat (countsIndexFor h v)" n]
    by (auto simp: RecordValues_def Let_def hist_ok_def)
qed

lemma RecordValues_ok:
  assumes h: "hist_ok h" and v: "v \<le> MaxInt64"
  shows "hist_ok (snd (RecordValues h v n))"
proof (cases "fst (RecordValues h v n)")
  case None
  then have c: "\<not> v < 0" "in_array h v" "\<not> n < 0" "\<not> n > MaxInt64 - totalCount h"
    by (auto simp: RecordValues_cases [OF h v] split: if_splits)
  then have "0 \<le> countsIndexFor h v" using h by (auto simp: hist_ok_def countsIndexFor_nonneg in_array_def)
  moreover have "nat (countsIndexFor h v) < length (counts h)"
    using c h calculation by (auto simp: hist_ok_def in_array_def)
  ultimately show ?thesis
    using c setCountAtIndex_eq [OF h, of "nat (countsIndexFor h v)" n]
    by (simp add: RecordValues_cases [OF h v])
next
  case (Some e)
  then show ?thesis using h by (auto simp: RecordValues_cases [OF h v] split: if_splits)
qed

section \<open>Accessors\<close>

definition Tag :: "histogram \<Rightarrow> string" where
  [simp]: "Tag h = tag h"

definition StartTimeMs :: "histogram \<Rightarrow> int" where
  [simp]: "StartTimeMs h = startTimeMs h"

definition EndTimeMs :: "histogram \<Rightarrow> int" where
  [simp]: "EndTimeMs h = endTimeMs h"

definition TotalCount :: "histogram \<Rightarrow> int" where
  [simp]: "TotalCount h = totalCount h"

definition SignificantFigures_h :: "histogram \<Rightarrow> int" where
  [simp]: "SignificantFigures_h h = significantFigures h"

definition LowestTrackableValue_h :: "histogram \<Rightarrow> int" where
  [simp]: "LowestTrackableValue_h h = lowestDiscernibleValue h"

definition HighestTrackableValue_h :: "histogram \<Rightarrow> int" where
  [simp]: "HighestTrackableValue_h h = highestTrackableValue h"

end
