(* ===== verification/Recorder.thy ===== *)
theory Recorder
  imports Go_Prelude Hist_Types "HOL-Library.Multiset"
begin

text \<open>
  The contract that the dense and the sparse histogram share as recorders of values: a recording
  is refused without effect, or adds to exactly one bucket and to the total. What follows for
  sequences of recordings is proved here once, and holds for both histograms by interpretation.
\<close>

definition record_all :: "('h \<Rightarrow> int \<Rightarrow> int \<Rightarrow> error option \<times> 'h) \<Rightarrow> 'h \<Rightarrow> (int \<times> int) list \<Rightarrow> 'h" where
  "record_all rec h ps = foldl (\<lambda>h (v, n). snd (rec h v n)) h ps"

lemma record_all_simps [simp]:
  "record_all rec h [] = h" "record_all rec h ((v, n) # ps) = record_all rec (snd (rec h v n)) ps"
  by (simp_all add: record_all_def)

locale recorder =
  fixes inv :: "'h \<Rightarrow> bool"
    and rec :: "'h \<Rightarrow> int \<Rightarrow> int \<Rightarrow> error option \<times> 'h"
    and index :: "'h \<Rightarrow> int \<Rightarrow> int"
    and accepts :: "'h \<Rightarrow> int \<Rightarrow> bool"
    and at :: "'h \<Rightarrow> int \<Rightarrow> int"
    and tot :: "'h \<Rightarrow> int"
  assumes rec_ok: "inv h \<Longrightarrow> v \<le> MaxInt64 \<Longrightarrow> rec h v n = (None, h') \<Longrightarrow>
      inv h' \<and> accepts h v \<and> 0 \<le> n \<and> tot h' = tot h + n \<and> index h' = index h \<and> accepts h' = accepts h \<and>
      at h' = (at h)(index h v := at h (index h v) + n)"
    and rec_error: "inv h \<Longrightarrow> v \<le> MaxInt64 \<Longrightarrow> rec h v n = (Some e, h') \<Longrightarrow> h' = h"
    and rec_accepts: "inv h \<Longrightarrow> v \<le> MaxInt64 \<Longrightarrow> accepts h v \<Longrightarrow> 0 \<le> n \<Longrightarrow> n \<le> MaxInt64 - tot h \<Longrightarrow>
      fst (rec h v n) = None"
begin

lemma rec_inv:
  assumes "inv h" "v \<le> MaxInt64"
  shows "inv (snd (rec h v n))"
  using assms rec_ok [OF assms, of n] rec_error [OF assms, of n] by (cases "rec h v n"; cases "fst (rec h v n)") auto

lemma record_all_inv:
  assumes "inv h" "\<forall>(v, n) \<in> set ps. v \<le> MaxInt64"
  shows "inv (record_all rec h ps)"
  using assms by (induction ps arbitrary: h) (auto simp: rec_inv)

lemma record_all_counts:
  assumes "inv h" "\<forall>(v, n) \<in> set ps. v \<le> MaxInt64 \<and> accepts h v \<and> 0 \<le> n"
    "tot h + sum_list (map snd ps) \<le> MaxInt64"
  shows "inv (record_all rec h ps) \<and> tot (record_all rec h ps) = tot h + sum_list (map snd ps) \<and>
         (\<forall>k. at (record_all rec h ps) k = at h k + (\<Sum>(v, n)\<leftarrow>ps. if index h v = k then n else 0))"
  using assms
proof (induction ps arbitrary: h)
  case (Cons p ps)
  obtain v n where p: "p = (v, n)" by fastforce
  from Cons.prems p have v: "v \<le> MaxInt64" "accepts h v" "0 \<le> n" and tl: "\<forall>(v, n) \<in> set ps. v \<le> MaxInt64 \<and> accepts h v \<and> 0 \<le> n"
    by auto
  have "0 \<le> sum_list (map snd ps)" using tl by (intro sum_list_nonneg) fastforce
  then have "fst (rec h v n) = None" using rec_accepts [OF Cons.prems(1) v] Cons.prems(3) p by simp
  then obtain h1 where h1: "rec h v n = (None, h1)" by (cases "rec h v n") simp
  from rec_ok [OF Cons.prems(1) v(1) h1] have r: "inv h1" "tot h1 = tot h + n" "index h1 = index h" "accepts h1 = accepts h"
    "at h1 = (at h)(index h v := at h (index h v) + n)" by auto
  from Cons.IH [OF r(1)] tl Cons.prems(3) r p show ?case by (auto simp: h1)
qed simp

text \<open>The order of the recordings does not matter.\<close>

lemma record_all_perm:
  assumes "inv h" "\<forall>(v, n) \<in> set ps. v \<le> MaxInt64 \<and> accepts h v \<and> 0 \<le> n"
    "tot h + sum_list (map snd ps) \<le> MaxInt64" "mset qs = mset ps"
  shows "at (record_all rec h qs) = at (record_all rec h ps) \<and> tot (record_all rec h qs) = tot (record_all rec h ps)"
proof -
  have s: "sum_list (map f qs) = sum_list (map f ps)" for f :: "int \<times> int \<Rightarrow> int"
    using assms(4) by (metis mset_map sum_mset_sum_list)
  have "set qs = set ps" using assms(4) by (rule mset_eq_setD)
  with record_all_counts [OF assms(1-3)] record_all_counts [OF assms(1), of qs] assms(2,3) s
  show ?thesis by (auto simp: fun_eq_iff)
qed

end

end
