(* ===== verification/Hist_Spec.thy ===== *)
theory Hist_Spec
  imports Histogram Recorder
begin

text \<open>
  What the dense histogram promises. \<open>represents h M\<close> says that the counts array of \<open>h\<close> is the
  bucketed multiset \<open>M\<close>; the operations of \<open>Histogram\<close> are related to the corresponding
  operations on \<open>M\<close>. First comes the iterator: its loops end and visit exactly the populated
  buckets in order, the fact on which the extrema, the merge and the distribution rest.
\<close>

section \<open>What the iterators visit\<close>

text \<open>The iterator has visited the flat indices below \<open>k\<close>.\<close>

definition at_pos :: "histogram \<Rightarrow> iter \<Rightarrow> nat \<Rightarrow> bool" where
  "at_pos h i k \<longleftrightarrow>
     0 \<le> it_bucketIdx i \<and> it_bucketIdx i < bucketCount h \<and>
     - 1 \<le> it_subBucketIdx i \<and> it_subBucketIdx i < subBucketCount h \<and>
     (it_bucketIdx i = 0 \<or> subBucketHalfCount h \<le> it_subBucketIdx i) \<and>
     int k = it_bucketIdx i * subBucketHalfCount h + it_subBucketIdx i + 1"

lemma at_pos_iterator:
  assumes "geom_ok h"
  shows "at_pos h iterator 0"
proof -
  have "(- 1 :: int) < 2 * 2 ^ nat (subBucketHalfCountMagnitude h)"
    by (rule less_trans [of _ 0]) simp_all
  with assms show ?thesis by (simp add: at_pos_def iterator_def geom_ok_def)
qed

lemma next_position:
  assumes g: "geom_ok h" and p: "at_pos h i k" and lt: "countToIdx i < totalCount h"
  shows "int k < countsLen h \<Longrightarrow>
           \<exists>i'. iter_next h i = (True, i') \<and> at_pos h i' (Suc k) \<and>
                countAtIdx i' = counts h ! k \<and> countToIdx i' = i64 (countToIdx i + counts h ! k) \<and>
                valueFromIdx i' = valueFromFlatIndex h (int k) \<and>
                it_highestEquivalentValue i' = highestEquivalentValue h (valueFromFlatIndex h (int k))"
    and "int k \<ge> countsLen h \<Longrightarrow> \<not> fst (iter_next h i)"
proof -
  from g obtain u m n where um: "unitMagnitude h = int u" "subBucketHalfCountMagnitude h = int m"
    and f: "subBucketHalfCount h = 2 ^ m" "subBucketCount h = 2 * 2 ^ m" "bucketCount h = int n"
      "countsLen h = (int n + 1) * 2 ^ m" "u + m + n \<le> 63" "m \<le> 17" by (metis geom_okE)
  define b where "b = nat (it_bucketIdx i)"
  define s where "s = it_subBucketIdx i"
  have b: "it_bucketIdx i = int b" "b < n" and s: "- 1 \<le> s" "s < 2 * 2 ^ m" "b = 0 \<or> 2 ^ m \<le> s"
    and k: "int k = int b * 2 ^ m + s + 1"
    using p f by (auto simp: at_pos_def b_def s_def)
  have m2: "(2::int) ^ m \<le> 131072" using f by (simp add: pow2_17)
  have i32s: "i32 (s + 1) = s + 1" using s m2 by (intro i32_id) linarith+
  have "i32 (int b + 1) = int b + 1" using b f by (intro i32_id) linarith+
  then have i32b: "i32 (int b + 1) = 1 + int b" by simp
  define b' where "b' = (if s + 1 \<ge> 2 * 2 ^ m then b + 1 else b)"
  define s' where "s' = (if s + 1 \<ge> 2 * 2 ^ m then 2 ^ m else s + 1)"
  have s': "0 \<le> s'" "s' < 2 * 2 ^ m" "b' = 0 \<or> 2 ^ m \<le> s'" using s by (auto simp: s'_def b'_def)
  have k': "int k = int b' * 2 ^ m + s'" using k s by (auto simp: s'_def b'_def algebra_simps)
  define i1 where "i1 = i\<lparr>it_subBucketIdx := s', it_bucketIdx := int b'\<rparr>"
  have step: "nextCountAtIdx h i (totalCount h) =
      (if int b' \<ge> int n then (False, i1)
       else (True, i1\<lparr>countAtIdx := getCountAtIndex h (int b') s',
                      countToIdx := i64 (countToIdx i + getCountAtIndex h (int b') s'),
                      valueFromIdx := valueFromIndex h (int b') s'\<rparr>))"
    using lt by (simp add: nextCountAtIdx_def f b(1) i32s i32b Let_def i1_def s'_def b'_def
        flip: s_def)
  {
    assume lk: "int k < countsLen h"
    from index_parts [OF g _ lk um] obtain b2 s2 where
      P: "int k = int b2 * 2 ^ m + s2" "0 \<le> s2" "s2 < 2 * 2 ^ m" "b2 = 0 \<or> 2 ^ m \<le> s2"
      "int b2 < bucketCount h" "countsIndex h (int b2) s2 = int k"
      "valueFromIndex h (int b2) s2 = valueFromFlatIndex h (int k)" by (metis of_nat_0_le_iff)
    have eq: "b' = b2" "s' = s2"
      using flat_unique [OF _ s' P(2-4)] k' P(1) by auto
    let ?i' = "i1\<lparr>countAtIdx := counts h ! k, countToIdx := i64 (countToIdx i + counts h ! k),
        valueFromIdx := valueFromFlatIndex h (int k),
        it_highestEquivalentValue := highestEquivalentValue h (valueFromFlatIndex h (int k))\<rparr>"
    have "iter_next h i = (True, ?i')"
      using P(5-7) eq f(3) by (simp add: iter_next_def step getCountAtIndex_def)
    moreover have "at_pos h ?i' (Suc k)"
      using s' k' P(5) eq f by (simp add: at_pos_def i1_def)
    ultimately show "\<exists>i'. iter_next h i = (True, i') \<and> at_pos h i' (Suc k) \<and>
                countAtIdx i' = counts h ! k \<and> countToIdx i' = i64 (countToIdx i + counts h ! k) \<and>
                valueFromIdx i' = valueFromFlatIndex h (int k) \<and>
                it_highestEquivalentValue i' = highestEquivalentValue h (valueFromFlatIndex h (int k))"
      by (intro exI [of _ ?i']) simp
  }
  assume "int k \<ge> countsLen h"
  then have "int n * 2 ^ m + 2 ^ m \<le> int b' * 2 ^ m + s'" using k' f by (simp add: algebra_simps)
  have "\<not> b' < n"
  proof
    assume "b' < n"
    then have "(int b' + 1) * 2 ^ m \<le> int n * 2 ^ m" by (intro mult_right_mono) simp_all
    with \<open>int n * 2 ^ m + 2 ^ m \<le> int b' * 2 ^ m + s'\<close> s'(2) show False by (simp add: algebra_simps)
  qed
  then show "\<not> fst (iter_next h i)" by (simp add: iter_next_def step)
qed

lemma rest_zero:
  assumes "\<forall>c \<in> set cs. 0 \<le> c" "sum_list (take k cs) \<ge> sum_list cs" "k \<le> j" "j < length cs"
  shows "cs ! j = (0::int)"
proof -
  have "sum_list cs = sum_list (take k cs) + sum_list (drop k cs)"
    by (metis append_take_drop_id sum_list_append)
  with assms have "sum_list (drop k cs) \<le> 0" by simp
  moreover have nn: "\<forall>c \<in> set (drop k cs). 0 \<le> c" using assms(1) by (meson in_set_dropD)
  moreover have "cs ! j = drop k cs ! (j - k)" "j - k < length (drop k cs)" using assms by simp_all
  ultimately show ?thesis
    using nth_le_sum_list [OF nn, of "j - k"] nth_mem [of "j - k" "drop k cs"] by fastforce
qed

lemma prefix_sum_le: "\<forall>c \<in> set cs. 0 \<le> c \<Longrightarrow> sum_list (take k cs) \<le> (sum_list cs :: int)"
  using sum_list_nonneg_int [of "drop k cs"] sum_list_append [of "take k cs" "drop k cs"]
  by (metis append_take_drop_id in_set_dropD le_add_same_cancel1)

text \<open>The populated flat indices, in order: what the iterators are specified by.\<close>

definition populated :: "histogram \<Rightarrow> nat list" where
  "populated h = filter (\<lambda>k. counts h ! k \<noteq> 0) [0..<length (counts h)]"

lemma iter_states_from:
  assumes h: "hist_ok h" and p: "at_pos h i k" and c: "countToIdx i = sum_list (take k (counts h))"
    and k: "k \<le> length (counts h)"
  shows "\<exists>sts. iter_states h i = Some sts \<and>
    (\<forall>j \<in> set sts. it_highestEquivalentValue j = highestEquivalentValue h (valueFromIdx j)) \<and>
    map (\<lambda>j. (valueFromIdx j, countAtIdx j)) (filter (\<lambda>j. countAtIdx j \<noteq> 0) sts) =
    map (\<lambda>j. (valueFromFlatIndex h (int j), counts h ! j))
      (filter (\<lambda>j. counts h ! j \<noteq> 0) [k..<length (counts h)])"
  using p c k
proof (induction "length (counts h) - k" arbitrary: i k)
  case 0
  then have k: "k = length (counts h)" by simp
  have "\<not> fst (iter_next h i)"
  proof (cases "countToIdx i < totalCount h")
    case True
    with 0 k h show ?thesis using next_position(2) [of h i k] by (simp add: hist_ok_def)
  next
    case False
    then show ?thesis by (simp add: iter_next_def nextCountAtIdx_def)
  qed
  then show ?case using k by (subst iter_states.simps) (simp add: case_prod_beta)
next
  case (Suc n)
  from h have g: "geom_ok h" and nn: "\<forall>c \<in> set (counts h). 0 \<le> c"
    and tot: "sum_list (counts h) = totalCount h" "totalCount h \<le> MaxInt64"
    and len: "int (length (counts h)) = countsLen h" by (auto simp: hist_ok_def)
  show ?case
  proof (cases "countToIdx i < totalCount h")
    case False
    then have "\<not> fst (iter_next h i)" by (simp add: iter_next_def nextCountAtIdx_def)
    moreover have "filter (\<lambda>j. counts h ! j \<noteq> 0) [k..<length (counts h)] = []"
      using rest_zero [OF nn, of k] False Suc.prems(2) tot by (auto simp: filter_empty_conv)
    ultimately show ?thesis by (subst iter_states.simps) (simp add: case_prod_beta)
  next
    case True
    have kl: "k < length (counts h)" using Suc.hyps(2) by simp
    from next_position(1) [OF g Suc.prems(1) True] kl len obtain i' where
      N: "iter_next h i = (True, i')" "at_pos h i' (Suc k)" "countAtIdx i' = counts h ! k"
        "countToIdx i' = i64 (countToIdx i + counts h ! k)"
        "valueFromIdx i' = valueFromFlatIndex h (int k)"
        "it_highestEquivalentValue i' = highestEquivalentValue h (valueFromFlatIndex h (int k))"
      by auto
    have sum: "sum_list (take (Suc k) (counts h)) = sum_list (take k (counts h)) + counts h ! k"
      using kl by (simp add: take_Suc_conv_app_nth)
    have "0 \<le> sum_list (take (Suc k) (counts h))"
      using nn by (intro sum_list_nonneg_int) (meson in_set_takeD)
    then have "i64 (sum_list (take (Suc k) (counts h))) = sum_list (take (Suc k) (counts h))"
      using prefix_sum_le [OF nn, of "Suc k"] tot by (intro i64_id) linarith+
    then have ct: "countToIdx i' = sum_list (take (Suc k) (counts h))"
      using N(4) Suc.prems(2) sum by simp
    have "n = length (counts h) - Suc k" "Suc k \<le> length (counts h)" using Suc.hyps(2) kl by simp_all
    from Suc.hyps(1) [OF this(1) N(2) ct this(2)] obtain sts where
      I: "iter_states h i' = Some sts"
        "\<forall>j \<in> set sts. it_highestEquivalentValue j = highestEquivalentValue h (valueFromIdx j)"
        "map (\<lambda>j. (valueFromIdx j, countAtIdx j)) (filter (\<lambda>j. countAtIdx j \<noteq> 0) sts) =
         map (\<lambda>j. (valueFromFlatIndex h (int j), counts h ! j))
           (filter (\<lambda>j. counts h ! j \<noteq> 0) [Suc k..<length (counts h)])" by blast
    have "iter_states h i = Some (i' # sts)"
      by (subst iter_states.simps) (simp add: N(1) I(1))
    moreover have "[k..<length (counts h)] = k # [Suc k..<length (counts h)]"
      using kl by (rule upt_conv_Cons)
    ultimately show ?thesis using I N by simp
  qed
qed

text \<open>The loops over the iterators end, and see every populated bucket with its value.\<close>

lemma iter_states_ok:
  assumes "hist_ok h"
  obtains sts where "iter_states h iterator = Some sts"
    "\<forall>j \<in> set sts. it_highestEquivalentValue j = highestEquivalentValue h (valueFromIdx j)"
    "map (\<lambda>j. (valueFromIdx j, countAtIdx j)) (filter (\<lambda>j. countAtIdx j \<noteq> 0) sts) =
     map (\<lambda>j. (valueFromFlatIndex h (int j), counts h ! j)) (populated h)"
  using iter_states_from [OF assms at_pos_iterator] assms
  by (auto simp: populated_def hist_ok_def iterator_def)

section \<open>The multiset a histogram represents\<close>

definition represents :: "histogram \<Rightarrow> int multiset \<Rightarrow> bool" where
  "represents h M \<longleftrightarrow>
     hist_ok h \<and> (\<forall>v \<in># M. in_array h v) \<and>
     (\<forall>k < length (counts h). counts h ! k = int (size {#v \<in># M. countsIndexFor h v = int k#}))"

lemma represents_ok: "represents h M \<Longrightarrow> hist_ok h"
  by (simp add: represents_def)

lemma sum_sizes:
  assumes "\<forall>v \<in># M. 0 \<le> f v \<and> f v < int n"
  shows "(\<Sum>k\<leftarrow>[0..<n]. int (size {#v \<in># M. f v = int k#})) = int (size M)"
  using assms
proof (induction M)
  case (add x M)
  then have x: "0 \<le> f x" "f x < int n" by simp_all
  have one: "(\<Sum>k\<leftarrow>[0..<n]. if f x = int k then 1 else 0) = (1::int)"
  proof -
    have "(\<Sum>k\<leftarrow>[0..<n]. if f x = int k then 1 else 0) = (\<Sum>k\<in>{0..<n}. if k = nat (f x) then 1 else (0::int))"
      unfolding sum_list_distinct_conv_sum_set [OF distinct_upt] set_upt using x
      by (intro sum.cong) auto
    also have "\<dots> = 1" using x by (subst sum.delta) auto
    finally show ?thesis .
  qed
  have "(\<Sum>k\<leftarrow>[0..<n]. int (size {#v \<in># add_mset x M. f v = int k#})) =
        (\<Sum>k\<leftarrow>[0..<n]. int (size {#v \<in># M. f v = int k#}) + (if f x = int k then 1 else 0))"
    by (rule arg_cong [where f = sum_list], rule map_cong) auto
  also have "\<dots> = int (size M) + 1" using add one by (simp add: sum_list_addf)
  finally show ?case by simp
qed simp

lemma in_array_index:
  assumes "hist_ok h" "in_array h v"
  shows "0 \<le> countsIndexFor h v" and "countsIndexFor h v < int (length (counts h))"
    and "nat (countsIndexFor h v) < length (counts h)"
  using assms countsIndexFor_nonneg [of h v] by (auto simp: hist_ok_def in_array_def)

lemma represents_total:
  assumes "represents h M"
  shows "totalCount h = int (size M)"
proof -
  from assms have h: "hist_ok h" and M: "\<forall>v \<in># M. in_array h v"
    and c: "\<And>k. k < length (counts h) \<Longrightarrow> counts h ! k = int (size {#v \<in># M. countsIndexFor h v = int k#})"
    by (auto simp: represents_def)
  have "counts h = map (\<lambda>k. counts h ! k) [0..<length (counts h)]" by (simp add: map_nth)
  also have "\<dots> = map (\<lambda>k. int (size {#v \<in># M. countsIndexFor h v = int k#})) [0..<length (counts h)]"
    using c by (intro map_cong) auto
  finally have "sum_list (counts h) = int (size M)"
    using sum_sizes [of M "countsIndexFor h" "length (counts h)"] M in_array_index [OF h] by metis
  with h show ?thesis by (simp add: hist_ok_def)
qed

lemma in_array_update [simp]:
  "in_array (h\<lparr>counts := x\<rparr>) v = in_array h v" "in_array (h\<lparr>totalCount := y\<rparr>) v = in_array h v"
  by (simp_all add: in_array_def)

lemma filter_replicate: "{#w \<in># replicate_mset n v. P w#} = (if P v then replicate_mset n v else {#})"
  by (induction n) auto

lemma represents_record:
  assumes r: "represents h M" and v: "v \<le> MaxInt64" and s: "RecordValues h v n = (None, h')"
  shows "represents h' (M + replicate_mset (nat n) v)" and "in_array h v" and "0 \<le> n"
proof -
  from r have h: "hist_ok h" by (rule represents_ok)
  from s have c: "in_array h v" "0 \<le> n" "n \<le> MaxInt64 - totalCount h"
    and h': "h' = h\<lparr>counts := (counts h)[nat (countsIndexFor h v) := counts h ! nat (countsIndexFor h v) + n],
                   totalCount := totalCount h + n\<rparr>"
    by (auto simp: RecordValues_cases [OF h v] split: if_splits)
  show "in_array h v" "0 \<le> n" by fact+
  note i = in_array_index [OF h c(1)]
  have "hist_ok h'" using RecordValues_ok [OF h v, of n] s by simp
  moreover have "\<forall>w \<in># M + replicate_mset (nat n) v. in_array h' w"
    using r c by (auto simp: represents_def h' in_replicate_mset)
  moreover have "counts h' ! k = int (size {#w \<in># M + replicate_mset (nat n) v. countsIndexFor h' w = int k#})"
    if "k < length (counts h')" for k
    using r that c i by (auto simp: represents_def h' nth_list_update filter_replicate)
  ultimately show "represents h' (M + replicate_mset (nat n) v)" by (simp add: represents_def)
qed

lemma represents_populated:
  assumes r: "represents h M"
  shows "set (populated h) = (\<lambda>v. nat (countsIndexFor h v)) ` set_mset M"
proof -
  from r have h: "hist_ok h" and M: "\<forall>v \<in># M. in_array h v"
    and c: "\<And>k. k < length (counts h) \<Longrightarrow> counts h ! k = int (size {#v \<in># M. countsIndexFor h v = int k#})"
    by (auto simp: represents_def)
  have "k \<in> set (populated h) \<longleftrightarrow> (\<exists>v \<in># M. k = nat (countsIndexFor h v))" for k
  proof
    assume "k \<in> set (populated h)"
    then have k: "k < length (counts h)" "counts h ! k \<noteq> 0" by (auto simp: populated_def)
    with c have "{#v \<in># M. countsIndexFor h v = int k#} \<noteq> {#}" by auto
    then obtain v where "v \<in># {#v \<in># M. countsIndexFor h v = int k#}" by blast
    then show "\<exists>v \<in># M. k = nat (countsIndexFor h v)" by (auto intro!: bexI [of _ v])
  next
    assume "\<exists>v \<in># M. k = nat (countsIndexFor h v)"
    then obtain v where v: "v \<in># M" "k = nat (countsIndexFor h v)" by blast
    note i = in_array_index [OF h M [rule_format, OF v(1)]]
    have "v \<in># {#w \<in># M. countsIndexFor h w = int k#}" using v i by auto
    then have "{#w \<in># M. countsIndexFor h w = int k#} \<noteq> {#}" by auto
    with c [of k] i v show "k \<in> set (populated h)" by (auto simp: populated_def)
  qed
  then show ?thesis by auto
qed

lemma sorted_populated: "sorted (populated h)" "distinct (populated h)"
  by (simp_all add: populated_def sorted_wrt_filter)

section \<open>Extrema\<close>

lemma equivalent_twice:
  assumes g: "geom_ok h" and v: "0 \<le> v" "v \<le> MaxInt64"
  shows "highestEquivalentValue h (highestEquivalentValue h v) = highestEquivalentValue h v"
    and "lowestEquivalentValue h (highestEquivalentValue h v) = lowestEquivalentValue h v"
proof -
  note r = value_in_range [OF g v]
  have w: "0 \<le> highestEquivalentValue h v" "highestEquivalentValue h v \<le> MaxInt64" using r by linarith+
  have "countsIndexFor h v = countsIndexFor h (highestEquivalentValue h v)"
    using countsIndexFor_eq_iff [OF g v w] r by simp
  from same_index [OF g v w this] show
    "highestEquivalentValue h (highestEquivalentValue h v) = highestEquivalentValue h v"
    "lowestEquivalentValue h (highestEquivalentValue h v) = lowestEquivalentValue h v" by simp_all
qed

lemma foldl_keep_last:
  "foldl (\<lambda>a i. if P i then f i else a) z xs = (if filter P xs = [] then z else f (last (filter P xs)))"
  by (induction xs rule: rev_induct) auto

lemma min_loop_first: "min_loop 0 sts =
    (case filter (\<lambda>i. countAtIdx i \<noteq> 0) sts of [] \<Rightarrow> 0 | i # _ \<Rightarrow> it_highestEquivalentValue i)"
  by (induction sts) auto

lemma populated_range:
  assumes "hist_ok h" "k \<in> set (populated h)"
  shows "int k < countsLen h"
  using assms by (auto simp: populated_def hist_ok_def)

lemma Max_h_eq:
  assumes h: "hist_ok h"
  shows "Max_h h = Inr (if populated h = [] then highestEquivalentValue h 0
                        else highestEquivalentValue h (valueFromFlatIndex h (int (last (populated h)))))"
proof -
  from iter_states_ok [OF h] obtain sts where S: "iter_states h iterator = Some sts"
    "\<forall>j \<in> set sts. it_highestEquivalentValue j = highestEquivalentValue h (valueFromIdx j)"
    "map (\<lambda>j. (valueFromIdx j, countAtIdx j)) (filter (\<lambda>j. countAtIdx j \<noteq> 0) sts) =
     map (\<lambda>j. (valueFromFlatIndex h (int j), counts h ! j)) (populated h)" .
  let ?F = "filter (\<lambda>j. countAtIdx j \<noteq> 0) sts"
  show ?thesis
  proof (cases "populated h = []")
    case True
    with S(3) have "?F = []" by simp
    with True S(1) show ?thesis by (simp add: Max_h_def foldl_keep_last)
  next
    case False
    with S(3) have F: "?F \<noteq> []" by auto
    from arg_cong [OF S(3), of last] F False have "valueFromIdx (last ?F) = valueFromFlatIndex h (int (last (populated h)))"
      by (simp add: last_map)
    moreover have "last ?F \<in> set sts" using F last_in_set [OF F] by auto
    moreover have "int (last (populated h)) < countsLen h" using populated_range [OF h] False by simp
    ultimately show ?thesis
      using False F S(1,2) h equivalent_twice(1) [of h "valueFromFlatIndex h (int (last (populated h)))"]
        valueFromFlatIndex_range [of h "int (last (populated h))"]
      by (simp add: Max_h_def foldl_keep_last hist_ok_def)
  qed
qed

lemma Min_h_eq:
  assumes h: "hist_ok h"
  shows "Min_h h = Inr (if populated h = [] then lowestEquivalentValue h 0
                        else lowestEquivalentValue h (valueFromFlatIndex h (int (hd (populated h)))))"
proof -
  from iter_states_ok [OF h] obtain sts where S: "iter_states h iterator = Some sts"
    "\<forall>j \<in> set sts. it_highestEquivalentValue j = highestEquivalentValue h (valueFromIdx j)"
    "map (\<lambda>j. (valueFromIdx j, countAtIdx j)) (filter (\<lambda>j. countAtIdx j \<noteq> 0) sts) =
     map (\<lambda>j. (valueFromFlatIndex h (int j), counts h ! j)) (populated h)" .
  show ?thesis
  proof (cases "filter (\<lambda>j. countAtIdx j \<noteq> 0) sts")
    case Nil
    with S show ?thesis by (simp add: Min_h_def min_loop_first)
  next
    case (Cons j js)
    with S(3) obtain k ks where k: "populated h = k # ks" "valueFromIdx j = valueFromFlatIndex h (int k)"
      by (cases "populated h") auto
    have "j \<in> set (filter (\<lambda>j. countAtIdx j \<noteq> 0) sts)" unfolding Cons by simp
    then have "j \<in> set sts" by simp
    moreover have "int k < countsLen h" using populated_range [OF h, of k] k by simp
    ultimately show ?thesis
      using S(1,2) Cons k h equivalent_twice(2) [of h "valueFromFlatIndex h (int k)"]
        valueFromFlatIndex_range [of h "int k"]
      by (simp add: Min_h_def min_loop_first hist_ok_def)
  qed
qed

lemma index_value_equivalent:
  assumes h: "hist_ok h" and v: "in_array h v"
  shows "highestEquivalentValue h (valueFromFlatIndex h (countsIndexFor h v)) = highestEquivalentValue h v"
    and "lowestEquivalentValue h (valueFromFlatIndex h (countsIndexFor h v)) = lowestEquivalentValue h v"
proof -
  have g: "geom_ok h" and i: "0 \<le> countsIndexFor h v" "countsIndexFor h v < countsLen h" "0 \<le> v" "v \<le> MaxInt64"
    using h v in_array_index [OF h v] by (auto simp: hist_ok_def in_array_def)
  note w = valueFromFlatIndex_range [OF g i(1,2)]
  from same_index [OF g _ _ i(3,4), of "valueFromFlatIndex h (countsIndexFor h v)"] w
    countsIndexFor_valueFromFlatIndex(1) [OF g i(1,2)]
  show "highestEquivalentValue h (valueFromFlatIndex h (countsIndexFor h v)) = highestEquivalentValue h v"
    "lowestEquivalentValue h (valueFromFlatIndex h (countsIndexFor h v)) = lowestEquivalentValue h v" by auto
qed

lemma sorted_last_Max: "sorted xs \<Longrightarrow> xs \<noteq> [] \<Longrightarrow> last xs = Max (set xs)"
  by (induction xs rule: rev_induct) (auto simp: sorted_append intro!: Max_eqI [symmetric])

lemma sorted_hd_Min: "sorted xs \<Longrightarrow> xs \<noteq> [] \<Longrightarrow> hd xs = Min (set xs)"
  by (cases xs) (auto intro!: Min_eqI [symmetric])

lemma Max_Min_represents:
  assumes r: "represents h M" and M: "M \<noteq> {#}"
  shows "Max_h h = Inr (highestEquivalentValue h (Max_mset M))"
    and "Min_h h = Inr (lowestEquivalentValue h (Min_mset M))"
proof -
  from r have h: "hist_ok h" and g: "geom_ok h" and A: "\<And>v. v \<in># M \<Longrightarrow> in_array h v"
    by (auto simp: represents_def hist_ok_def)
  note P = represents_populated [OF r]
  have ne: "populated h \<noteq> []" using P M by auto
  let ?i = "\<lambda>v. nat (countsIndexFor h v)"
  have mono: "?i v \<le> ?i w" if "v \<in># M" "w \<in># M" "v \<le> w" for v w
    using countsIndexFor_mono [OF g, of v w] A [OF that(1)] A [OF that(2)] that by (auto simp: in_array_def)
  have mx: "Max_mset M \<in># M" and mn: "Min_mset M \<in># M" using M by simp_all
  have "last (populated h) = ?i (Max_mset M)"
    unfolding sorted_last_Max [OF sorted_populated(1) ne] P
    using mono mx by (intro Max_eqI) auto
  moreover have "hd (populated h) = ?i (Min_mset M)"
    unfolding sorted_hd_Min [OF sorted_populated(1) ne] P
    using mono mn by (intro Min_eqI) auto
  ultimately show "Max_h h = Inr (highestEquivalentValue h (Max_mset M))"
    "Min_h h = Inr (lowestEquivalentValue h (Min_mset M))"
    using ne A [OF mx] A [OF mn] in_array_index(1) [OF h]
    by (simp_all add: Max_h_eq [OF h] Min_h_eq [OF h] index_value_equivalent [OF h])
qed

section \<open>Construction, reset, corrected values\<close>

lemma fresh_ok:
  assumes g: "geom_ok h"
  shows "hist_ok (h\<lparr>counts := replicate (nat (countsLen h)) 0, totalCount := 0\<rparr>)"
proof -
  from g have "0 \<le> countsLen h" by (auto simp: geom_ok_def)
  with g show ?thesis by (simp add: hist_ok_def sum_list_replicate)
qed

lemma represents_empty_iff:
  "represents h {#} \<longleftrightarrow> hist_ok h \<and> (\<forall>k < length (counts h). counts h ! k = 0)"
  by (simp add: represents_def)

lemma New_cases:
  assumes lg: "log2_ok lg" and lo: "lo \<le> MaxInt64" and hi: "hi \<le> MaxInt64"
    and c: "clampGeometryArgs lo d = (lo', d')"
  shows "(\<exists>g. geometry_of lg lo' hi d' g \<and>
            New lg lo hi d = Inr (g\<lparr>counts := replicate (nat (countsLen g)) 0\<rparr>) \<and>
            represents (g\<lparr>counts := replicate (nat (countsLen g)) 0\<rparr>) {#}) \<or>
         New lg lo hi d = Inl (Panic (LowestTooLarge lo d'))"
  using newGeometry_cases [OF assms]
proof
  assume "\<exists>h. newGeometry lg lo hi d = Inr h \<and> geometry_of lg lo' hi d' h"
  then obtain g where g: "newGeometry lg lo hi d = Inr g" "geometry_of lg lo' hi d' g" by blast
  then have "geom_ok g" "totalCount g = 0" by (auto simp: geometry_of_def)
  moreover from this have "represents (g\<lparr>counts := replicate (nat (countsLen g)) 0\<rparr>) {#}"
    using fresh_ok [of g] by (simp add: represents_empty_iff hist_ok_def)
  ultimately show ?thesis using g by (auto simp: New_def)
qed (simp add: New_def)

lemma Reset_represents:
  assumes "hist_ok h"
  shows "represents (Reset h) {#}"
proof -
  have "geom_ok (Reset h) = geom_ok h" by (simp add: Reset_def)
  with assms show ?thesis
    by (auto simp: represents_empty_iff hist_ok_def Reset_def map_replicate_const sum_list_replicate)
qed

text \<open>The values a corrected recording adds: the value itself and, down to the interval, the
  values that would have been sampled while the process was stalled.\<close>

function missing_values :: "int \<Rightarrow> int \<Rightarrow> int list" where
  "missing_values v e = (if 0 < e \<and> e \<le> v then v # missing_values (v - e) e else [])"
  by pat_completeness auto
termination by (relation "measure (\<lambda>(v, e). nat v)") auto

declare missing_values.simps [simp del]

definition corrected_values :: "int \<Rightarrow> int \<Rightarrow> int list" where
  "corrected_values v e = v # missing_values (v - e) e"

lemma missing_values_le: "w \<in> set (missing_values v e) \<Longrightarrow> w \<le> v \<and> e \<le> w"
proof (induction v e rule: missing_values.induct)
  case (1 v e)
  then show ?case by (subst (asm) missing_values.simps) (auto split: if_splits)
qed

lemma corrected_loop_records:
  assumes "represents h M" "v \<le> MaxInt64" "0 < e"
    "v < e \<or> in_array h v" "totalCount h + int (length (missing_values v e)) \<le> MaxInt64"
  shows "\<exists>h'. corrected_loop h v e = (None, h') \<and> represents h' (M + mset (missing_values v e)) \<and>
              (\<forall>w. in_array h' w = in_array h w)"
  using assms
proof (induction v e arbitrary: h M rule: missing_values.induct)
  case (1 v e)
  show ?case
  proof (cases "e \<le> v")
    case False
    with "1.prems" show ?thesis by (subst corrected_loop.simps) (simp add: missing_values.simps [of v e])
  next
    case True
    with "1.prems" have mv: "missing_values v e = v # missing_values (v - e) e"
      by (subst missing_values.simps) simp
    from "1.prems" have h: "hist_ok h" by (simp add: represents_def)
    from True "1.prems" have a: "in_array h v" "1 \<le> MaxInt64 - totalCount h" by (auto simp: mv)
    then obtain h1 where h1: "RecordValues h v 1 = (None, h1)" "totalCount h1 = totalCount h + 1"
      "\<And>w. in_array h1 w = in_array h w" "\<And>w. countsIndexFor h1 w = countsIndexFor h w" "geom_ok h1 = geom_ok h"
      "countsLen h1 = countsLen h"
      using "1.prems"(2) by (auto simp: RecordValues_cases [OF h] in_array_def)
    from represents_record(1) [OF "1.prems"(1,2) h1(1)] have r1: "represents h1 (M + {#v#})" by simp
    have less: "v - e < e \<or> in_array h1 (v - e)"
    proof -
      have "in_array h (v - e)" if "e \<le> v - e"
      proof -
        have "countsIndexFor h (v - e) \<le> countsIndexFor h v"
          using h a that "1.prems" by (intro countsIndexFor_mono) (auto simp: hist_ok_def in_array_def)
        with a that "1.prems" show ?thesis by (auto simp: in_array_def)
      qed
      then show ?thesis using h1(3) [of "v - e"] by (cases "e \<le> v - e") auto
    qed
    have "i64 (v - e) = v - e" using "1.prems" True by (intro i64_id) linarith+
    moreover from "1.IH" [OF _ r1 _ _ less] True "1.prems" h1(2) mv obtain h' where
      "corrected_loop h1 (v - e) e = (None, h')" "represents h' (M + {#v#} + mset (missing_values (v - e) e))"
      "\<forall>w. in_array h' w = in_array h1 w" by auto
    ultimately show ?thesis
      using True "1.prems" h1 mv by (subst corrected_loop.simps) (simp add: RecordValue_def)
  qed
qed

section \<open>Merge\<close>

text \<open>Histograms that agree in the fields the index arithmetic reads.\<close>

definition same_geom :: "histogram \<Rightarrow> histogram \<Rightarrow> bool" where
  "same_geom h f \<longleftrightarrow>
     unitMagnitude h = unitMagnitude f \<and> subBucketHalfCountMagnitude h = subBucketHalfCountMagnitude f \<and>
     subBucketHalfCount h = subBucketHalfCount f \<and> subBucketMask h = subBucketMask f \<and>
     subBucketCount h = subBucketCount f \<and> bucketCount h = bucketCount f \<and> countsLen h = countsLen f"

lemma same_geom_index:
  assumes "same_geom h f"
  shows "countsIndexFor h v = countsIndexFor f v" "in_array h v = in_array f v" "countsLen h = countsLen f"
    "valueFromFlatIndex h i = valueFromFlatIndex f i" "highestEquivalentValue h v = highestEquivalentValue f v"
    "lowestEquivalentValue h v = lowestEquivalentValue f v"
  using assms by (simp_all add: same_geom_def in_array_def geometry_defs Let_def)

definition config :: "histogram \<Rightarrow> histogram" where
  "config h = h\<lparr>counts := [], totalCount := 0\<rparr>"

lemma config_update [simp]:
  "config (h\<lparr>counts := x\<rparr>) = config h" "config (h\<lparr>totalCount := y\<rparr>) = config h"
  by (simp_all add: config_def)

lemma config_same_geom: "config h = config f \<Longrightarrow> same_geom h f"
  by (cases h; cases f) (simp add: config_def same_geom_def)

text \<open>A list of values with multiplicities as a multiset, and the populated buckets as such a list.\<close>

definition bag :: "(int \<times> int) list \<Rightarrow> int multiset" where
  "bag ps = sum_list (map (\<lambda>(v, c). replicate_mset (nat c) v) ps)"

definition buckets_of :: "histogram \<Rightarrow> (int \<times> int) list" where
  "buckets_of h = map (\<lambda>k. (valueFromFlatIndex h (int k), counts h ! k)) (populated h)"

lemma bag_simps [simp]:
  "bag [] = {#}" "bag ((v, c) # ps) = replicate_mset (nat c) v + bag ps"
  by (simp_all add: bag_def)

lemma bag_mem: "v \<in># bag ps \<Longrightarrow> \<exists>c. (v, c) \<in> set ps"
proof (induction ps)
  case (Cons p ps)
  then show ?case by (cases p) (force simp: in_replicate_mset split: if_splits)
qed simp

lemma size_bag: "\<forall>(v, c) \<in> set ps. 0 \<le> c \<Longrightarrow> int (size (bag ps)) = sum_list (map snd ps)"
  by (induction ps) auto

lemma size_filter_bag: "\<forall>(v, c) \<in> set ps. 0 \<le> c \<Longrightarrow>
    int (size {#v \<in># bag ps. P v#}) = (\<Sum>(v, c)\<leftarrow>ps. if P v then c else 0)"
  by (induction ps) (auto simp: filter_replicate)

lemma buckets_of_range:
  assumes h: "hist_ok h" and p: "(v, c) \<in> set (buckets_of h)"
  shows "0 \<le> v" "v \<le> MaxInt64" "0 < c" "in_array h v"
proof -
  from p obtain k where k: "k \<in> set (populated h)" "v = valueFromFlatIndex h (int k)" "c = counts h ! k"
    by (auto simp: buckets_of_def)
  then have len: "k < length (counts h)" "int k < countsLen h" and nz: "c \<noteq> 0"
    using populated_range [OF h k(1)] by (auto simp: populated_def)
  have g: "geom_ok h" using h by (simp add: hist_ok_def)
  from buckets.low_range [OF g _ len(2)] buckets.index_low [OF g _ len(2)] k len hist_ok_nth [OF h len(1)] nz
  show "0 \<le> v" "v \<le> MaxInt64" "0 < c" "in_array h v" by (auto simp: in_array_def)
qed

lemma sum_list_select: "distinct ks \<Longrightarrow> (\<Sum>j\<leftarrow>ks. if j = k then f j else (0::int)) = (if k \<in> set ks then f k else 0)"
  by (induction ks) auto

lemma sum_buckets_of:
  assumes h: "hist_ok h"
  shows "sum_list (map snd (buckets_of h)) = totalCount h"
proof -
  have "sum_list (map (\<lambda>k. cs ! k) (filter (\<lambda>k. cs ! k \<noteq> 0) [0..<length cs])) = sum_list cs" for cs :: "int list"
    by (subst sum_list_map_filter) (simp_all add: map_nth)
  then show ?thesis using h by (simp add: buckets_of_def populated_def o_def hist_ok_def)
qed

lemma represents_buckets_of:
  assumes h: "hist_ok h"
  shows "represents h (bag (buckets_of h))"
proof -
  have g: "geom_ok h" using h by (simp add: hist_ok_def)
  note rng = buckets_of_range [OF h]
  have pos: "\<forall>(v, c) \<in> set (buckets_of h). 0 \<le> c" using rng(3) by fastforce
  have "counts h ! k = int (size {#v \<in># bag (buckets_of h). countsIndexFor h v = int k#})"
    if k: "k < length (counts h)" for k
  proof -
    have "int (size {#v \<in># bag (buckets_of h). countsIndexFor h v = int k#}) =
        (\<Sum>j\<leftarrow>populated h. if countsIndexFor h (valueFromFlatIndex h (int j)) = int k then counts h ! j else 0)"
      by (subst size_filter_bag [OF pos]) (simp add: buckets_of_def o_def)
    also have "\<dots> = (\<Sum>j\<leftarrow>populated h. if j = k then counts h ! j else 0)"
      using populated_range [OF h] buckets.index_low [OF g]
      by (intro arg_cong [where f = sum_list] map_cong) auto
    also have "\<dots> = counts h ! k"
      using k by (auto simp: sum_list_select [OF sorted_populated(2)]) (auto simp: populated_def)
    finally show ?thesis by simp
  qed
  moreover have "in_array h v" if "v \<in># bag (buckets_of h)" for v
    using bag_mem [OF that] rng(4) by blast
  ultimately show ?thesis using h by (simp add: represents_def)
qed

text \<open>The buckets a merge keeps: those in range whose count still fits in the total.\<close>

fun merge_kept :: "(int \<Rightarrow> bool) \<Rightarrow> int \<Rightarrow> (int \<times> int) list \<Rightarrow> (int \<times> int) list" where
  "merge_kept fits tot [] = []"
| "merge_kept fits tot ((v, c) # ps) =
     (if fits v \<and> c \<le> MaxInt64 - tot then (v, c) # merge_kept fits (tot + c) ps
      else merge_kept fits tot ps)"

lemma merge_kept_all:
  "\<forall>(v, c) \<in> set ps. fits v \<and> 0 \<le> c \<Longrightarrow> tot + sum_list (map snd ps) \<le> MaxInt64 \<Longrightarrow> merge_kept fits tot ps = ps"
proof (induction fits tot ps rule: merge_kept.induct)
  case (2 fits tot v c ps)
  then have "0 \<le> sum_list (map snd ps)" by (intro sum_list_nonneg_int) fastforce
  with 2 show ?case by auto
qed simp

definition merge_pair :: "int \<times> histogram \<Rightarrow> int \<times> int \<Rightarrow> int \<times> histogram" where
  "merge_pair = (\<lambda>(dropped, h) (v, c).
     (case RecordValues h v c of
        (None, h') \<Rightarrow> (dropped, h')
      | (Some _, h') \<Rightarrow> (addDropped dropped c, h')))"

lemma Merge_buckets_of:
  assumes "hist_ok f"
  shows "Merge h f = Inr (foldl merge_pair (0, h) (buckets_of f))"
proof -
  from iter_states_ok [OF assms] obtain sts where
    S: "iter_states f iterator = Some sts"
      "map (\<lambda>j. (valueFromIdx j, countAtIdx j)) (filter (\<lambda>j. countAtIdx j \<noteq> 0) sts) = buckets_of f"
    by (metis buckets_of_def)
  have "merge_bucket = (\<lambda>a i. merge_pair a (valueFromIdx i, countAtIdx i))"
    by (intro ext) (simp add: merge_bucket_def merge_pair_def split: prod.splits)
  then have "foldl merge_bucket a is = foldl merge_pair a (map (\<lambda>j. (valueFromIdx j, countAtIdx j)) is)" for a "is"
    by (simp add: foldl_map)
  with S show ?thesis by (simp add: Merge_def rIterator_states_def)
qed

lemma merge_pairs:
  assumes "represents h M" "\<forall>(v, c) \<in> set ps. 0 \<le> v \<and> v \<le> MaxInt64 \<and> 0 \<le> c" "0 \<le> d"
    "d + sum_list (map snd ps) \<le> MaxInt64"
  shows "\<exists>h'. foldl merge_pair (d, h) ps =
      (d + sum_list (map snd ps) - sum_list (map snd (merge_kept (in_array h) (totalCount h) ps)), h') \<and>
    represents h' (M + bag (merge_kept (in_array h) (totalCount h) ps)) \<and>
    config h' = config h"
  using assms
proof (induction ps arbitrary: d h M)
  case (Cons p ps)
  obtain v c where p: "p = (v, c)" by fastforce
  from Cons.prems p have v: "0 \<le> v" "v \<le> MaxInt64" "0 \<le> c" by auto
  from Cons.prems have h: "hist_ok h" by (simp add: represents_def)
  have rest: "0 \<le> sum_list (map snd ps)" using Cons.prems(2) by (intro sum_list_nonneg_int) fastforce
  have tl: "\<forall>(v, c) \<in> set ps. 0 \<le> v \<and> v \<le> MaxInt64 \<and> 0 \<le> c" using Cons.prems(2) by simp
  show ?case
  proof (cases "in_array h v \<and> c \<le> MaxInt64 - totalCount h")
    case True
    with v obtain h1 where h1: "RecordValues h v c = (None, h1)" "totalCount h1 = totalCount h + c"
      "in_array h1 = in_array h" "config h1 = config h"
      by (auto simp: RecordValues_cases [OF h] fun_eq_iff)
    from represents_record(1) [OF Cons.prems(1) v(2) h1(1)]
    have r1: "represents h1 (M + replicate_mset (nat c) v)" .
    have "d + sum_list (map snd ps) \<le> MaxInt64" using Cons.prems(4) p v by simp
    from Cons.IH [OF r1 tl Cons.prems(3) this] obtain h' where
      "foldl merge_pair (d, h1) ps = (d + sum_list (map snd ps)
         - sum_list (map snd (merge_kept (in_array h) (totalCount h + c) ps)), h')"
      "represents h' (M + replicate_mset (nat c) v + bag (merge_kept (in_array h) (totalCount h + c) ps))"
      "config h' = config h1" unfolding h1(2,3) by blast
    moreover have "foldl merge_pair (d, h) (p # ps) = foldl merge_pair (d, h1) ps"
      using h1(1) by (simp add: merge_pair_def p)
    ultimately show ?thesis using h1(4) True by (auto simp: p add.assoc)
  next
    case False
    with v have e: "\<exists>e. RecordValues h v c = (Some e, h)" by (auto simp: RecordValues_cases [OF h])
    have "i64 (MaxInt64 - d) = MaxInt64 - d" "i64 (d + c) = d + c"
      using Cons.prems(3,4) p v rest by (intro i64_id; simp)+
    then have "addDropped d c = d + c" using Cons.prems(4) p rest by (simp add: addDropped_def)
    moreover have "0 \<le> d + c" "d + c + sum_list (map snd ps) \<le> MaxInt64" using Cons.prems(3,4) p v by simp_all
    ultimately show ?thesis using Cons.IH [OF Cons.prems(1) tl, of "d + c"] e False p
      by (auto simp: merge_pair_def algebra_simps)
  qed
qed simp

lemma Merge_spec:
  assumes r: "represents h M" and f: "hist_ok f"
  obtains d h' where "Merge h f = Inr (d, h')"
    "represents h' (M + bag (merge_kept (in_array h) (totalCount h) (buckets_of f)))" "config h' = config h"
    "d = totalCount f - sum_list (map snd (merge_kept (in_array h) (totalCount h) (buckets_of f)))"
proof -
  have "0 \<le> v \<and> v \<le> MaxInt64 \<and> 0 \<le> c" if "(v, c) \<in> set (buckets_of f)" for v c
    using buckets_of_range(1-3) [OF f that] by simp
  then have "\<forall>(v, c) \<in> set (buckets_of f). 0 \<le> v \<and> v \<le> MaxInt64 \<and> 0 \<le> c" by blast
  from merge_pairs [OF r this, of 0] f sum_buckets_of [OF f] that show thesis
    by (auto simp: Merge_buckets_of hist_ok_def)
qed

lemma Merge_same_geom:
  assumes r: "represents h M" and f: "represents f N" and s: "same_geom h f"
    and fit: "totalCount h + totalCount f \<le> MaxInt64"
  shows "\<exists>h'. Merge h f = Inr (0, h') \<and> represents h' (M + N) \<and> config h' = config h"
proof -
  have ok: "hist_ok f" using f by (rule represents_ok)
  have "\<forall>(v, c) \<in> set (buckets_of f). in_array h v \<and> 0 \<le> c"
    using buckets_of_range(3,4) [OF ok] same_geom_index(2) [OF s] by fastforce
  then have all: "merge_kept (in_array h) (totalCount h) (buckets_of f) = buckets_of f"
    by (rule merge_kept_all) (simp add: sum_buckets_of [OF ok] fit)
  from Merge_spec [OF r ok] obtain h' where
    m: "Merge h f = Inr (0, h')" "represents h' (M + bag (buckets_of f))" "config h' = config h"
    by (metis all sum_buckets_of [OF ok] diff_self)
  have ix: "countsIndexFor h' v = countsIndexFor f v" "in_array h' v = in_array f v" for v
    using same_geom_index [OF config_same_geom [OF m(3)]] same_geom_index [OF s] by simp_all
  have len: "length (counts h') = length (counts f)"
    using m(2) config_same_geom [OF m(3)] s ok by (simp add: represents_def hist_ok_def same_geom_def)
  note b = represents_buckets_of [OF ok]
  have "represents h' (M + N)"
    using m(2) f b len by (simp add: represents_def ix ball_Un)
  with m show ?thesis by blast
qed

section \<open>Snapshots\<close>

text \<open>The histograms the constructors build, whatever was recorded or set on them since: the
  geometry is the one their configuration determines.\<close>

definition configured :: "(int \<Rightarrow> int) \<Rightarrow> histogram \<Rightarrow> bool" where
  "configured lg h \<longleftrightarrow> hist_ok h \<and>
     geometry_of lg (lowestDiscernibleValue h) (highestTrackableValue h) (significantFigures h)
       (h\<lparr>counts := [], totalCount := 0, tag := '''', startTimeMs := 0, endTimeMs := 0, conversionRatio := 0\<rparr>)"

lemma validate_loop_ok:
  assumes "0 \<le> tot" "tot \<le> MaxInt64"
  shows "validate_loop len i tot cs = None \<longleftrightarrow>
    (\<forall>c \<in> set cs. 0 \<le> c) \<and> (\<forall>j < length cs. len \<le> i + int j \<longrightarrow> cs ! j = 0) \<and> tot + sum_list cs \<le> MaxInt64"
  using assms
proof (induction len i tot cs rule: validate_loop.induct)
  case (2 len i tot c cs)
  have t: "i64 (MaxInt64 - tot) = MaxInt64 - tot" using "2.prems" by (intro i64_id) simp_all
  have all: "(\<forall>j < length (c # cs). len \<le> i + int j \<longrightarrow> (c # cs) ! j = 0) \<longleftrightarrow>
      (len \<le> i \<longrightarrow> c = 0) \<and> (\<forall>j < length cs. len \<le> i + 1 + int j \<longrightarrow> cs ! j = 0)"
    by (simp add: All_less_Suc2 add.assoc)
  show ?case
  proof (cases "0 < c \<and> i < len \<and> c \<le> MaxInt64 - tot")
    case True
    then have "i64 (tot + c) = tot + c" using "2.prems" by (intro i64_id) simp_all
    with True t "2.IH"(2) "2.prems" show ?thesis unfolding all by (auto simp: add.assoc)
  next
    case False
    have "\<forall>c \<in> set cs. 0 \<le> c \<Longrightarrow> 0 \<le> sum_list cs" by (rule sum_list_nonneg_int)
    with False t "2.IH"(1) "2.prems" show ?thesis unfolding all by (auto split: if_splits)
  qed
qed simp

lemma foldl_positive_sum:
  assumes "\<forall>c \<in> set cs. 0 \<le> c" "0 \<le> t" "t + sum_list cs \<le> MaxInt64"
  shows "foldl (\<lambda>t c. if c > 0 then i64 (t + c) else t) t cs = t + sum_list cs"
  using assms
proof (induction cs arbitrary: t)
  case (Cons c cs)
  have "0 \<le> sum_list cs" using Cons.prems by (intro sum_list_nonneg_int) simp
  with Cons.prems have "i64 (t + c) = t + c" by (intro i64_id) simp_all
  with Cons show ?case by (auto simp: add.assoc)
qed simp

lemma drop_zero_sum:
  assumes "\<forall>j < length cs. n \<le> j \<longrightarrow> cs ! j = (0::int)"
  shows "sum_list (take n cs) = sum_list cs"
proof -
  have "\<forall>c \<in> set (drop n cs). c = 0" using assms by (auto simp: in_set_conv_nth)
  moreover have "\<forall>c \<in> set ds. c = 0 \<Longrightarrow> sum_list ds = (0::int)" for ds by (induction ds) auto
  ultimately have "sum_list (drop n cs) = 0" by blast
  then show ?thesis by (metis append_take_drop_id sum_list_append add.right_neutral)
qed

definition snapshot_counts :: "nat \<Rightarrow> int list \<Rightarrow> int list" where
  "snapshot_counts n cs = take n cs @ replicate (n - length cs) 0"

lemma Import_valid:
  assumes lg: "log2_ok lg" and lo: "LowestTrackableValue s \<le> MaxInt64" and hi: "HighestTrackableValue s \<le> MaxInt64"
    and v: "Validate lg (Some s) = None"
  obtains g where "geometry_of lg (max 1 (LowestTrackableValue s)) (HighestTrackableValue s) (SignificantFigures s) g"
    "Import lg s = Inr (g\<lparr>counts := snapshot_counts (nat (countsLen g)) (Counts s),
        totalCount := sum_list (Counts s), conversionRatio := IntegerToDoubleConversionRatio s\<rparr>)"
    "hist_ok (g\<lparr>counts := snapshot_counts (nat (countsLen g)) (Counts s),
        totalCount := sum_list (Counts s), conversionRatio := IntegerToDoubleConversionRatio s\<rparr>)"
    "\<forall>j < length (Counts s). nat (countsLen g) \<le> j \<longrightarrow> Counts s ! j = 0"
proof -
  from v have f: "0 \<le> SignificantFigures s" "SignificantFigures s \<le> 5"
    by (auto simp: Validate_def split: if_splits)
  then have i: "i32 (SignificantFigures s) = SignificantFigures s" by (intro i32_id) simp_all
  from v wireGeometry_cases [OF lg lo hi, of "SignificantFigures s"] i obtain g where
    g: "wireGeometry lg (LowestTrackableValue s) (HighestTrackableValue s) (SignificantFigures s) = Inr g"
    "geometry_of lg (max 1 (LowestTrackableValue s)) (HighestTrackableValue s) (SignificantFigures s) g"
    and vl: "validate_loop (countsLen g) 0 0 (Counts s) = None"
    using f by (auto simp: Validate_def split: sum.splits)
  have ok: "geom_ok g" using g by (simp add: geometry_of_def)
  then have len: "0 \<le> countsLen g" by (auto simp: geom_ok_def)
  define n where "n = nat (countsLen g)"
  from vl have c: "\<forall>c \<in> set (Counts s). 0 \<le> c" "\<forall>j < length (Counts s). n \<le> j \<longrightarrow> Counts s ! j = 0"
    "sum_list (Counts s) \<le> MaxInt64" using len by (auto simp: validate_loop_ok n_def nat_le_iff)
  let ?cs = "snapshot_counts n (Counts s)"
  have sum: "sum_list ?cs = sum_list (Counts s)"
    using drop_zero_sum [OF c(2)] by (simp add: snapshot_counts_def sum_list_replicate)
  have nn: "\<forall>c \<in> set ?cs. 0 \<le> c" using c(1) by (auto simp: snapshot_counts_def dest: in_set_takeD)
  have "foldl (\<lambda>t c. if c > 0 then i64 (t + c) else t) 0 ?cs = sum_list (Counts s)"
    using foldl_positive_sum [OF nn, of 0] c(3) sum by simp
  moreover have "map (\<lambda>c. if c < 0 then 0 else c) ?cs = ?cs"
    using nn by (intro map_idI) auto
  moreover have "take (length (replicate n 0)) (Counts s) @ drop (length (Counts s)) (replicate n 0) = ?cs"
    by (simp add: snapshot_counts_def)
  ultimately have "Import lg s = Inr (g\<lparr>counts := ?cs, totalCount := sum_list (Counts s),
      conversionRatio := IntegerToDoubleConversionRatio s\<rparr>)"
    using f g(1) i by (simp add: Import_def import_geometry_def n_def)
  moreover have "hist_ok (g\<lparr>counts := ?cs, totalCount := sum_list (Counts s),
      conversionRatio := IntegerToDoubleConversionRatio s\<rparr>)"
    using ok nn sum c(3) len by (simp add: hist_ok_def snapshot_counts_def n_def)
  ultimately show thesis using that g(2) c(2) by (simp add: n_def)
qed

lemma Export_valid:
  assumes lg: "log2_ok lg" and c: "configured lg h"
  shows "Validate lg (Some (Export h)) = None"
    and "Import lg (Export h) = Inr (h\<lparr>tag := '''', startTimeMs := 0, endTimeMs := 0\<rparr>)"
proof -
  let ?g = "h\<lparr>counts := [], totalCount := 0, tag := '''', startTimeMs := 0, endTimeMs := 0, conversionRatio := 0\<rparr>"
  from c have h: "hist_ok h"
    and g: "geometry_of lg (lowestDiscernibleValue h) (highestTrackableValue h) (significantFigures h) ?g"
    by (simp_all add: configured_def)
  then have r: "1 \<le> lowestDiscernibleValue h" "lowestDiscernibleValue h \<le> MaxInt64"
    "highestTrackableValue h \<le> MaxInt64" "0 \<le> significantFigures h" "significantFigures h \<le> 5"
    by (simp_all add: geometry_of_def)
  then have i: "i32 (significantFigures h) = significantFigures h" by (intro i32_id) simp_all
  note w = wireGeometry_geometry_of [OF g lg]
  from h have vl: "validate_loop (countsLen h) 0 0 (counts h) = None"
    by (auto simp: validate_loop_ok hist_ok_def)
  then show v: "Validate lg (Some (Export h)) = None"
    using r w by (simp add: Validate_def Export_def i)
  from Import_valid [OF lg _ _ v] obtain g' where
    g': "geometry_of lg (lowestDiscernibleValue h) (highestTrackableValue h) (significantFigures h) g'"
    "Import lg (Export h) = Inr (g'\<lparr>counts := snapshot_counts (nat (countsLen g')) (counts h),
        totalCount := sum_list (counts h), conversionRatio := conversionRatio h\<rparr>)"
    using r by (auto simp: Export_def)
  from g' g have eq: "g' = ?g" by (simp add: geometry_of_def)
  have "int (length (counts h)) = countsLen h" using h by (simp add: hist_ok_def)
  then have "nat (countsLen h) = length (counts h)" by linarith
  then show "Import lg (Export h) = Inr (h\<lparr>tag := '''', startTimeMs := 0, endTimeMs := 0\<rparr>)"
    using g'(2) h by (simp add: eq snapshot_counts_def hist_ok_def)
qed

lemma counts_equal_iff: "length cs \<le> length ds \<Longrightarrow> counts_equal cs ds = Some (cs = take (length cs) ds)"
proof (induction cs ds rule: counts_equal.induct)
qed auto

lemma merge_kept_sums:
  assumes "\<forall>(v, c) \<in> set ps. 0 \<le> c"
  shows "\<forall>(v, c) \<in> set (merge_kept fits tot ps). 0 \<le> c"
    and "sum_list (map snd (merge_kept fits tot ps)) \<le> sum_list (map snd ps)"
  using assms by (induction fits tot ps rule: merge_kept.induct) (auto split: if_splits)

lemma nth_snapshot_counts:
  "k < n \<Longrightarrow> snapshot_counts n cs ! k = (if k < length cs then cs ! k else 0)"
  by (simp add: snapshot_counts_def nth_append min_def)

lemma lowest_flat:
  assumes "geom_ok h" "0 \<le> i" "i < countsLen h"
  shows "lowestEquivalentValue h (valueFromFlatIndex h i) = valueFromFlatIndex h i"
  using valueFromFlatIndex_countsIndexFor [of h "valueFromFlatIndex h i"] buckets.index_low [OF assms]
    buckets.low_range [OF assms] assms by simp

section \<open>The dense histogram as a recorder\<close>

definition dense_at :: "histogram \<Rightarrow> int \<Rightarrow> int" where
  "dense_at h k = (if 0 \<le> k \<and> nat k < length (counts h) then counts h ! nat k else 0)"

interpretation dense: recorder hist_ok RecordValues countsIndexFor in_array dense_at totalCount
proof
  fix h v n h' e
  assume h: "hist_ok h" and v: "v \<le> MaxInt64"
  {
    assume r: "RecordValues h v n = (None, h')"
    then have a: "in_array h v" "0 \<le> n" and eq: "h' = h\<lparr>counts := (counts h)[nat (countsIndexFor h v) :=
        counts h ! nat (countsIndexFor h v) + n], totalCount := totalCount h + n\<rparr>"
      by (auto simp: RecordValues_cases [OF h v] split: if_splits)
    note i = in_array_index [OF h a(1)]
    have "dense_at h' = (dense_at h)(countsIndexFor h v := dense_at h (countsIndexFor h v) + n)"
      using i by (auto simp: eq dense_at_def fun_eq_iff nth_list_update)
    moreover have "hist_ok h'" using RecordValues_ok [OF h v, of n] r by simp
    ultimately show "hist_ok h' \<and> in_array h v \<and> 0 \<le> n \<and> totalCount h' = totalCount h + n \<and>
        countsIndexFor h' = countsIndexFor h \<and> in_array h' = in_array h \<and>
        dense_at h' = (dense_at h)(countsIndexFor h v := dense_at h (countsIndexFor h v) + n)"
      using a by (auto simp: eq fun_eq_iff)
  next
    assume "RecordValues h v n = (Some e, h')"
    then show "h' = h" by (auto simp: RecordValues_cases [OF h v] split: if_splits)
  next
    assume "in_array h v" "0 \<le> n" "n \<le> MaxInt64 - totalCount h"
    then show "fst (RecordValues h v n) = None" by (auto simp: RecordValues_cases [OF h v] in_array_def)
  }
qed

section \<open>A sample histogram\<close>

definition sample_hist :: histogram where
  "sample_hist = sample_geometry\<lparr>counts := replicate 64 0\<rparr>"

definition sample_recorded :: histogram where
  "sample_recorded = sample_geometry\<lparr>counts := (replicate 64 0)[5 := 3, 51 := 2], totalCount := 5\<rparr>"

lemma sample_hist_represents: "represents sample_hist {#}"
  using fresh_ok [OF sample_geometry_ok]
  by (simp add: represents_empty_iff sample_hist_def) (simp add: sample_geometry_def)

lemma sample_index:
  "countsIndexFor sample_hist 5 = 5" "countsIndexFor sample_hist 77 = 51" "in_array sample_hist 5" "in_array sample_hist 77"
  "in_array sample_hist 100"
  by code_simp+

lemma sample_recorded_represents: "represents sample_recorded {#77, 77, 5, 5, 5#}"
proof -
  define h1 where "h1 = sample_geometry\<lparr>counts := (replicate 64 0)[5 := 3], totalCount := 3\<rparr>"
  have "RecordValues sample_hist 5 3 = (None, h1)" unfolding h1_def by code_simp
  from represents_record(1) [OF sample_hist_represents _ this] have "represents h1 {#5, 5, 5#}"
    by (simp add: numeral_3_eq_3)
  moreover have "RecordValues h1 77 2 = (None, sample_recorded)" unfolding h1_def by code_simp
  ultimately show ?thesis
    using represents_record(1) [of h1 "{#5, 5, 5#}" 77 2 sample_recorded] by (simp add: numeral_2_eq_2)
qed

lemma sample_recorded_configured: "configured floor_log2 sample_recorded"
proof -
  have "geometry_of floor_log2 1 100 1 sample_geometry"
    using newGeometry_cases [OF log2_ok_floor_log2, of 1 100 1 1 1] sample_geometry_new
    by (simp add: clampGeometryArgs_def)
  moreover have "sample_recorded\<lparr>counts := [], totalCount := 0, tag := '''', startTimeMs := 0,
      endTimeMs := 0, conversionRatio := 0\<rparr> = sample_geometry"
    by (simp add: sample_recorded_def sample_geometry_def)
  ultimately show ?thesis
    using represents_ok [OF sample_recorded_represents] by (simp add: configured_def) (simp add: sample_recorded_def sample_geometry_def)
qed

section \<open>Properties\<close>

text \<open>C1: Recording refines adding to a multiset, on every branch. On a histogram that
  represents \<open>M\<close>, a negative value, a value beyond the counts array, a negative count and a
  count that would overflow the 64-bit total are reported, in this order, and leave the
  histogram unchanged; otherwise the new histogram represents \<open>M\<close> with \<open>n\<close> copies of the value
  added, and its configuration is unchanged.\<close>

theorem RecordValues_refines:
  assumes "represents h M" "v \<le> MaxInt64"
  shows "if v < 0 then RecordValues h v n = (Some (NegativeValue v), h)
         else if \<not> in_array h v then RecordValues h v n = (Some (ValueTooLarge v), h)
         else if n < 0 then RecordValues h v n = (Some (NegativeCount n), h)
         else if n > MaxInt64 - int (size M) then RecordValues h v n = (Some (TotalOverflow n), h)
         else \<exists>h'. RecordValues h v n = (None, h') \<and> represents h' (M + replicate_mset (nat n) v) \<and>
                   config h' = config h"
proof -
  have h: "hist_ok h" using assms(1) by (rule represents_ok)
  note c = RecordValues_cases [OF h assms(2), of n] and t = represents_total [OF assms(1)]
  show ?thesis
  proof (cases "v < 0 \<or> \<not> in_array h v \<or> n < 0 \<or> n > MaxInt64 - int (size M)")
    case False
    then obtain h' where h': "RecordValues h v n = (None, h')" "config h' = config h" using c t by auto
    with False represents_record(1) [OF assms h'(1)] show ?thesis by auto
  qed (use c t in auto)
qed

theorem RecordValues_refines_witness:
  "\<exists>h'. RecordValues sample_recorded 100 4 = (None, h') \<and>
        represents h' ({#77, 77, 5, 5, 5#} + replicate_mset 4 100) \<and> config h' = config sample_recorded"
proof -
  have "in_array sample_recorded 100" by code_simp
  with RecordValues_refines [OF sample_recorded_represents, of 100 4] show ?thesis by simp
qed

text \<open>C7: The total count and the extrema are those of the recorded multiset: the total is its
  size, the maximum and the minimum are the highest and the lowest value equivalent to the
  greatest and the least recorded value. The iteration both are computed by always ends.\<close>

theorem extrema_correct:
  assumes "represents h M" "M \<noteq> {#}"
  shows "totalCount h = int (size M) \<and>
         Max_h h = Inr (highestEquivalentValue h (Max_mset M)) \<and>
         Min_h h = Inr (lowestEquivalentValue h (Min_mset M))"
  using Max_Min_represents [OF assms] represents_total [OF assms(1)] by simp

theorem extrema_correct_witness:
  "totalCount sample_recorded = 5 \<and> Max_h sample_recorded = Inr 79 \<and> Min_h sample_recorded = Inr 5"
proof -
  have "highestEquivalentValue sample_recorded 77 = 79" "lowestEquivalentValue sample_recorded 5 = 5" by code_simp+
  with extrema_correct [OF sample_recorded_represents] show ?thesis by simp
qed

text \<open>C10: A corrected recording of a value \<open>v\<close> with an expected interval \<open>e > 0\<close> records \<open>v\<close> and
  the values \<open>v - e\<close>, \<open>v - 2 e\<close>, ... down to the interval, and nothing else, provided they all
  fit in the total; with \<open>e \<le> 0\<close> it records \<open>v\<close> only.\<close>

theorem RecordCorrectedValue_records:
  assumes "represents h M" "in_array h v" "totalCount h + int (length (corrected_values v e)) \<le> MaxInt64"
  shows "\<exists>h'. RecordCorrectedValue h v e = (None, h') \<and> represents h' (M + mset (corrected_values v e))"
proof -
  have h: "hist_ok h" using assms(1) by (rule represents_ok)
  have v: "0 \<le> v" "v \<le> MaxInt64" using assms(2) by (auto simp: in_array_def)
  have "1 \<le> MaxInt64 - totalCount h" using assms(3) by (simp add: corrected_values_def)
  then obtain h1 where h1: "RecordValues h v 1 = (None, h1)" "totalCount h1 = totalCount h + 1"
    "in_array h1 = in_array h" "config h1 = config h"
    using assms(2) v by (auto simp: RecordValues_cases [OF h v(2)] fun_eq_iff)
  have r1: "represents h1 (M + {#v#})" using represents_record(1) [OF assms(1) v(2) h1(1)] by simp
  show ?thesis
  proof (cases "0 < e \<and> e < v")
    case True
    have "countsIndexFor h (v - e) \<le> countsIndexFor h v"
      using True v h by (intro countsIndexFor_mono) (auto simp: hist_ok_def)
    with True assms(2) have a: "v - e < e \<or> in_array h1 (v - e)" by (auto simp: h1 in_array_def)
    have "i64 (v - e) = v - e" using True v by (intro i64_id) linarith+
    moreover from corrected_loop_records [OF r1 _ _ a] True v assms(3) h1 obtain h' where
      "corrected_loop h1 (v - e) e = (None, h')" "represents h' (M + {#v#} + mset (missing_values (v - e) e))"
      by (auto simp: corrected_values_def)
    ultimately show ?thesis using True h1
      by (auto simp: RecordCorrectedValue_def RecordValue_def corrected_values_def)
  next
    case False
    then have "missing_values (v - e) e = []" using v by (subst missing_values.simps) auto
    with False h1 r1 show ?thesis
      by (auto simp: RecordCorrectedValue_def RecordValue_def corrected_values_def)
  qed
qed

theorem RecordCorrectedValue_records_witness:
  "\<exists>h'. RecordCorrectedValue sample_hist 100 30 = (None, h') \<and> represents h' {#100, 70, 40#}"
proof -
  have "missing_values 70 30 = [70, 40]" by (simp add: missing_values.simps)
  then have c: "corrected_values 100 30 = [100, 70, 40]" by (simp add: corrected_values_def)
  have t: "totalCount sample_hist = 0" by (simp add: sample_hist_def sample_geometry_def)
  show ?thesis
    using RecordCorrectedValue_records [OF sample_hist_represents sample_index(5), of 30]
    by (simp add: c t)
qed

text \<open>C9: Merging is exact about what it adds and what it drops. The populated buckets of the
  source are added in order, each at its lowest value, unless the value is out of range or its
  count does not fit in the total; the result represents the old multiset with the kept buckets
  added, and the count returned as dropped is that of the others, so that no recording is lost
  unaccounted.\<close>

theorem Merge_conserves:
  assumes "represents h M" "represents f N"
  shows "\<exists>d h'. Merge h f = Inr (d, h') \<and>
           represents h' (M + bag (merge_kept (in_array h) (totalCount h) (buckets_of f))) \<and>
           config h' = config h \<and> 0 \<le> d \<and> totalCount h' + d = totalCount h + totalCount f"
proof -
  have f: "hist_ok f" using assms(2) by (rule represents_ok)
  let ?k = "merge_kept (in_array h) (totalCount h) (buckets_of f)"
  from Merge_spec [OF assms(1) f] obtain d h' where
    m: "Merge h f = Inr (d, h')" "represents h' (M + bag ?k)" "config h' = config h"
    "d = totalCount f - sum_list (map snd ?k)" by blast
  have pos: "\<forall>(v, c) \<in> set (buckets_of f). 0 \<le> c" using buckets_of_range(3) [OF f] by fastforce
  note k = merge_kept_sums [OF pos, of "in_array h" "totalCount h"]
  have "totalCount h' = totalCount h + sum_list (map snd ?k)"
    using represents_total [OF m(2)] represents_total [OF assms(1)] size_bag [OF k(1)] by simp
  with m k(2) sum_buckets_of [OF f] show ?thesis by auto
qed

theorem Merge_conserves_witness:
  "\<exists>d h'. Merge sample_hist sample_recorded = Inr (d, h') \<and> represents h' {#76, 76, 5, 5, 5#} \<and>
          0 \<le> d \<and> totalCount h' + d = 5"
proof -
  have "merge_kept (in_array sample_hist) (totalCount sample_hist) (buckets_of sample_recorded) = [(5, 3), (76, 2)]"
    by code_simp
  moreover have "totalCount sample_hist = 0" "totalCount sample_recorded = 5"
    by (simp_all add: sample_hist_def sample_recorded_def sample_geometry_def)
  ultimately show ?thesis
    using Merge_conserves [OF sample_hist_represents sample_recorded_represents]
    by (simp add: numeral_3_eq_3 numeral_2_eq_2) blast
qed

text \<open>C8: Between histograms of the same geometry, merging refines the union of multisets:
  nothing is dropped as long as the two totals fit together in 64 bits.\<close>

theorem Merge_refines_union:
  assumes "represents h M" "represents f N" "same_geom h f" "size M + size N \<le> 9223372036854775807"
  shows "\<exists>h'. Merge h f = Inr (0, h') \<and> represents h' (M + N) \<and> config h' = config h"
  using assms(4) represents_total [OF assms(1)] represents_total [OF assms(2)]
  by (intro Merge_same_geom [OF assms(1-3)]) simp

theorem Merge_refines_union_witness:
  "\<exists>h'. Merge sample_recorded sample_recorded = Inr (0, h') \<and>
        represents h' ({#77, 77, 5, 5, 5#} + {#77, 77, 5, 5, 5#}) \<and> config h' = config sample_recorded"
  by (rule Merge_refines_union [OF sample_recorded_represents sample_recorded_represents]) (simp_all add: same_geom_def)

text \<open>C11: A snapshot that passes \<open>Validate\<close> imports without loss: \<open>Import\<close> returns a
  well-formed histogram with the snapshot's configuration, its counts, padded with zeros to
  the length of the counts array, and their sum as the total.\<close>

theorem Import_validated:
  assumes "log2_ok lg" "LowestTrackableValue s \<le> MaxInt64" "HighestTrackableValue s \<le> MaxInt64"
    "Validate lg (Some s) = None"
  shows "\<exists>h. Import lg s = Inr h \<and> hist_ok h \<and> totalCount h = sum_list (Counts s) \<and>
             lowestDiscernibleValue h = max 1 (LowestTrackableValue s) \<and>
             highestTrackableValue h = HighestTrackableValue s \<and>
             significantFigures h = SignificantFigures s \<and>
             (\<forall>k < length (counts h). counts h ! k = (if k < length (Counts s) then Counts s ! k else 0)) \<and>
             (\<forall>k < length (Counts s). length (counts h) \<le> k \<longrightarrow> Counts s ! k = 0)"
proof -
  from Import_valid [OF assms] obtain g where
    g: "geometry_of lg (max 1 (LowestTrackableValue s)) (HighestTrackableValue s) (SignificantFigures s) g"
    and i: "Import lg s = Inr (g\<lparr>counts := snapshot_counts (nat (countsLen g)) (Counts s),
        totalCount := sum_list (Counts s), conversionRatio := IntegerToDoubleConversionRatio s\<rparr>)"
      "hist_ok (g\<lparr>counts := snapshot_counts (nat (countsLen g)) (Counts s),
        totalCount := sum_list (Counts s), conversionRatio := IntegerToDoubleConversionRatio s\<rparr>)"
    and z: "\<forall>k < length (Counts s). nat (countsLen g) \<le> k \<longrightarrow> Counts s ! k = 0" by blast
  have len: "length (snapshot_counts n cs) = n" for n cs by (simp add: snapshot_counts_def)
  show ?thesis
    using g i(2) z by (simp add: i(1) geometry_of_def len nth_snapshot_counts)
qed

theorem Import_validated_witness:
  "\<exists>h. Import floor_log2 (Export sample_recorded) = Inr h \<and> hist_ok h \<and> totalCount h = 5"
proof -
  have r: "LowestTrackableValue (Export sample_recorded) \<le> MaxInt64"
    "HighestTrackableValue (Export sample_recorded) \<le> MaxInt64" "sum_list (Counts (Export sample_recorded)) = 5"
    by code_simp+
  from Import_validated [OF log2_ok_floor_log2 r(1,2)] Export_valid(1) [OF log2_ok_floor_log2 sample_recorded_configured]
  show ?thesis by (auto simp: r(3))
qed

text \<open>C12: The export of a histogram passes \<open>Validate\<close>, and importing it gives the histogram
  back, up to the log metadata, which a snapshot does not carry; the two are \<open>Equals\<close>.\<close>

theorem Export_Import_roundtrip:
  assumes "log2_ok lg" "configured lg h"
  shows "Validate lg (Some (Export h)) = None \<and>
         Import lg (Export h) = Inr (h\<lparr>tag := '''', startTimeMs := 0, endTimeMs := 0\<rparr>) \<and>
         Equals h (h\<lparr>tag := '''', startTimeMs := 0, endTimeMs := 0\<rparr>) = Some True"
  using Export_valid [OF assms] by (simp add: Equals_def counts_equal_iff)

theorem Export_Import_roundtrip_witness:
  "Import floor_log2 (Export sample_recorded) = Inr sample_recorded"
  using Export_Import_roundtrip [OF log2_ok_floor_log2 sample_recorded_configured]
  by (simp add: sample_recorded_def sample_geometry_def)

text \<open>The constructor returns an empty histogram into which every value up to the highest
  trackable one can be recorded, unless it panics over a lowest discernible value of at
  least \<open>2 ^ 45\<close>; and a reset brings every histogram back to the empty multiset in the same
  geometry.\<close>

theorem New_Reset_empty:
  assumes "log2_ok lg" "lo \<le> MaxInt64" "hi \<le> MaxInt64" "clampGeometryArgs lo d = (lo', d')" "hist_ok f"
  shows "(New lg lo hi d = Inl (Panic (LowestTooLarge lo d')) \<and> 35184372088832 \<le> lo' \<or>
          (\<exists>h. New lg lo hi d = Inr h \<and> represents h {#} \<and> configured lg h \<and>
               (\<forall>v. 0 \<le> v \<and> v \<le> hi \<longrightarrow> in_array h v))) \<and>
         represents (Reset f) {#} \<and> same_geom (Reset f) f"
proof -
  have "same_geom (Reset f) f" by (simp add: Reset_def same_geom_def)
  moreover from New_cases [OF assms(1-4)] have
    "New lg lo hi d = Inl (Panic (LowestTooLarge lo d')) \<and> 35184372088832 \<le> lo' \<or>
     (\<exists>h. New lg lo hi d = Inr h \<and> represents h {#} \<and> configured lg h \<and>
          (\<forall>v. 0 \<le> v \<and> v \<le> hi \<longrightarrow> in_array h v))"
  proof
    assume "\<exists>g. geometry_of lg lo' hi d' g \<and>
        New lg lo hi d = Inr (g\<lparr>counts := replicate (nat (countsLen g)) 0\<rparr>) \<and>
        represents (g\<lparr>counts := replicate (nat (countsLen g)) 0\<rparr>) {#}"
    then obtain g where g: "geometry_of lg lo' hi d' g"
      and n: "New lg lo hi d = Inr (g\<lparr>counts := replicate (nat (countsLen g)) 0\<rparr>)"
      and r: "represents (g\<lparr>counts := replicate (nat (countsLen g)) 0\<rparr>) {#}" by blast
    from g have z: "tag g = ''''" "startTimeMs g = 0" "endTimeMs g = 0" "conversionRatio g = 0" "counts g = []" "totalCount g = 0"
      by (auto simp: geometry_of_def newExactGeometry_def Let_def split: prod.splits option.splits)
    then have e: "(g\<lparr>counts := replicate (nat (countsLen g)) 0\<rparr>)\<lparr>counts := [], totalCount := 0, tag := '''',
        startTimeMs := 0, endTimeMs := 0, conversionRatio := 0\<rparr> = g"
      by (cases g) simp
    have "lowestDiscernibleValue g = lo'" "highestTrackableValue g = hi" "significantFigures g = d'"
      using g by (simp_all add: geometry_of_def)
    then have "configured lg (g\<lparr>counts := replicate (nat (countsLen g)) 0\<rparr>)"
      unfolding configured_def e using g represents_ok [OF r] by simp
    moreover have "in_array g v" if "0 \<le> v" "v \<le> hi" for v
      using that g countsIndexFor_less_iff [of g v] assms(3) by (auto simp: in_array_def geometry_of_def)
    ultimately show ?thesis using n r by simp
  next
    assume p: "New lg lo hi d = Inl (Panic (LowestTooLarge lo d'))"
    then have "newGeometry lg lo hi d = Inl (Panic (LowestTooLarge lo d'))"
      by (auto simp: New_def split: sum.splits)
    with p newGeometry_panics_only_large [OF assms(1,2,4)] show ?thesis by simp
  qed
  ultimately show ?thesis using Reset_represents [OF assms(5)] by simp
qed

theorem New_Reset_empty_witness:
  "(\<exists>h. New floor_log2 1 100 1 = Inr h \<and> represents h {#} \<and> in_array h 100) \<and> represents (Reset sample_recorded) {#}"
proof -
  have c: "clampGeometryArgs 1 1 = (1, 1)" by code_simp
  show ?thesis
    using New_Reset_empty [OF log2_ok_floor_log2 _ _ c represents_ok [OF sample_recorded_represents], of 100] by auto
qed

text \<open>\<open>Distribution\<close> reports the populated buckets in ascending order with their value
  ranges and counts (its other bars are empty), and its counts add up to the total.\<close>

theorem Distribution_populated:
  assumes "represents h M"
  shows "\<exists>bs. Distribution h = Inr bs \<and>
     map (\<lambda>b. (From b, To b, Count b)) (filter (\<lambda>b. Count b \<noteq> 0) bs) =
     map (\<lambda>k. (valueFromFlatIndex h (int k), highestEquivalentValue h (valueFromFlatIndex h (int k)), counts h ! k))
       (populated h) \<and>
     sum_list (map Count bs) = int (size M)"
proof -
  have h: "hist_ok h" and g: "geom_ok h" using assms by (auto simp: represents_def hist_ok_def)
  from iter_states_ok [OF h] obtain sts where
    S: "iter_states h iterator = Some sts"
      "\<forall>j \<in> set sts. it_highestEquivalentValue j = highestEquivalentValue h (valueFromIdx j)"
      "map (\<lambda>j. (valueFromIdx j, countAtIdx j)) (filter (\<lambda>j. countAtIdx j \<noteq> 0) sts) = buckets_of h"
    by (metis buckets_of_def)
  define bars where "bars = map (\<lambda>i. \<lparr>From = lowestEquivalentValue h (valueFromIdx i),
      To = it_highestEquivalentValue i, Count = countAtIdx i\<rparr>) sts"
  define row where "row = (\<lambda>(v, c). (lowestEquivalentValue h v, highestEquivalentValue h v, c :: int))"
  have "map (\<lambda>b. (From b, To b, Count b)) (filter (\<lambda>b. Count b \<noteq> 0) bars) =
      map row (map (\<lambda>j. (valueFromIdx j, countAtIdx j)) (filter (\<lambda>j. countAtIdx j \<noteq> 0) sts))"
    using S(2) by (simp add: bars_def filter_map o_def row_def)
  also have "\<dots> = map (\<lambda>k. row (valueFromFlatIndex h (int k), counts h ! k)) (populated h)"
    by (simp add: S(3) buckets_of_def)
  also have "\<dots> = map (\<lambda>k. (valueFromFlatIndex h (int k), highestEquivalentValue h (valueFromFlatIndex h (int k)), counts h ! k)) (populated h)"
    using lowest_flat [OF g] populated_range [OF h] by (simp add: row_def)
  finally have rows: "map (\<lambda>b. (From b, To b, Count b)) (filter (\<lambda>b. Count b \<noteq> 0) bars) = \<dots>" .
  have "sum_list (map Count bars) = sum_list (map Count (filter (\<lambda>b. Count b \<noteq> 0) bars))"
    by (rule sum_list_map_filter [symmetric]) simp
  also have "\<dots> = sum_list (map (\<lambda>(a, b, c). c) (map (\<lambda>b. (From b, To b, Count b)) (filter (\<lambda>b. Count b \<noteq> 0) bars)))"
    by (simp add: o_def)
  also have "\<dots> = sum_list (map snd (buckets_of h))" unfolding rows by (simp add: buckets_of_def o_def)
  finally have "sum_list (map Count bars) = int (size M)"
    using sum_buckets_of [OF h] represents_total [OF assms] by simp
  with rows S(1) show ?thesis by (simp add: Distribution_def bars_def)
qed

theorem Distribution_populated_witness:
  "\<exists>bs. Distribution sample_recorded = Inr bs \<and>
     map (\<lambda>b. (From b, To b, Count b)) (filter (\<lambda>b. Count b \<noteq> 0) bs) = [(5, 5, 3), (76, 79, 2)] \<and>
     sum_list (map Count bs) = 5"
proof -
  have "map (\<lambda>k. (valueFromFlatIndex sample_recorded (int k),
      highestEquivalentValue sample_recorded (valueFromFlatIndex sample_recorded (int k)), counts sample_recorded ! k))
      (populated sample_recorded) = [(5, 5, 3), (76, 79, 2)]" by code_simp
  with Distribution_populated [OF sample_recorded_represents] show ?thesis by simp
qed

text \<open>After any sequence of recordings in range whose counts fit in the total, every bucket
  of a dense histogram holds its old count plus the counts recorded for its values, and the
  total grows by their sum; the order of the recordings does not matter.\<close>

theorem recordings_counted:
  assumes "hist_ok h" "\<forall>(v, n) \<in> set ps. v \<le> MaxInt64 \<and> in_array h v \<and> 0 \<le> n"
    "totalCount h + sum_list (map snd ps) \<le> MaxInt64" "mset qs = mset ps"
  shows "hist_ok (record_all RecordValues h ps) \<and>
         totalCount (record_all RecordValues h ps) = totalCount h + sum_list (map snd ps) \<and>
         (\<forall>k. dense_at (record_all RecordValues h ps) k =
              dense_at h k + (\<Sum>(v, n)\<leftarrow>ps. if countsIndexFor h v = k then n else 0)) \<and>
         dense_at (record_all RecordValues h qs) = dense_at (record_all RecordValues h ps)"
  using dense.record_all_counts [OF assms(1-3)] dense.record_all_perm [OF assms] by simp

theorem recordings_counted_witness:
  "dense_at (record_all RecordValues sample_recorded [(77, 3), (6, 1)]) 51 = 5 \<and>
   dense_at (record_all RecordValues sample_recorded [(6, 1), (77, 3)]) 51 = 5"
proof -
  have i: "\<forall>(v, n) \<in> set [(77, 3 :: int), (6, 1)]. v \<le> MaxInt64 \<and> in_array sample_recorded v \<and> 0 \<le> n"
    "totalCount sample_recorded + sum_list (map snd [(77 :: int, 3), (6, 1)]) \<le> MaxInt64"
    "dense_at sample_recorded 51 + (\<Sum>(v, n)\<leftarrow>[(77, 3), (6, 1)]. if countsIndexFor sample_recorded v = 51 then n else 0) = 5"
    by code_simp+
  have "mset [(6, 1), (77, 3)] = mset [(77 :: int, 3 :: int), (6, 1)]" by simp
  from recordings_counted [OF represents_ok [OF sample_recorded_represents] i(1,2) this] i(3) show ?thesis by simp
qed

end
