(* ===== verification/Zigzag.thy ===== *)
theory Zigzag
  imports Hist_Types
begin

text \<open>
  The ZigZag LEB128 codec of \<open>zigzag.go\<close>: \<open>zig_zag_encode_i64\<close> writes an \<open>int64\<close> in one to
  nine bytes, \<open>zig_zag_decode_i64\<close> reads one back from the front of a buffer and reports how
  many bytes it used, or that the buffer ends inside the number. Both keep the source's
  unrolled nesting. Bytes are \<open>8 word\<close>, the value in between is a \<open>64 word\<close>.
\<close>

type_synonym byte = "8 word"

definition zz_map :: "64 word \<Rightarrow> 64 word" where
  "zz_map signedValue = push_bit 1 signedValue XOR signed_drop_bit 63 signedValue"

definition zz_unmap :: "64 word \<Rightarrow> 64 word" where
  "zz_unmap value = drop_bit 1 value XOR - (value AND 1)"

definition zig_zag_encode_i64 :: "64 word \<Rightarrow> byte list" where
  "zig_zag_encode_i64 signedValue =
     (let value = zz_map signedValue;
          cont = (\<lambda>n. ucast (drop_bit n value OR 0x80));
          final = (\<lambda>n. ucast (drop_bit n value))
      in if drop_bit 7 value = 0 then [final 0]
         else ucast ((value AND 0x7F) OR 0x80) #
           (if drop_bit 14 value = 0 then [final 7]
            else cont 7 #
              (if drop_bit 21 value = 0 then [final 14]
               else cont 14 #
                 (if drop_bit 28 value = 0 then [final 21]
                  else cont 21 #
                    (if drop_bit 35 value = 0 then [final 28]
                     else cont 28 #
                       (if drop_bit 42 value = 0 then [final 35]
                        else cont 35 #
                          (if drop_bit 49 value = 0 then [final 42]
                           else cont 42 #
                             (if drop_bit 56 value = 0 then [final 49]
                              else [cont 49, final 56]))))))))"

text \<open>The decoder's nesting, one level per byte: \<open>zz_more\<close> is the shared test for a
  continuation bit with the check that another byte is there; then that byte is read, which would
  panic past the end of the buffer.\<close>

definition zz_group :: "byte list \<Rightarrow> nat \<Rightarrow> 64 word" where
  "zz_group buf k = push_bit (7 * k) (ucast (buf ! k) AND 0x7F)"

definition zz_more :: "byte list \<Rightarrow> nat \<Rightarrow> 64 word \<Rightarrow> (64 word \<Rightarrow> error + 64 word \<times> nat)
    \<Rightarrow> error + 64 word \<times> nat" where
  "zz_more buf k value cont =
     (if (buf ! (k - 1)) AND 0x80 \<noteq> 0
      then if length buf < Suc k then Inl (Truncated (int k + 1) (int (length buf)))
           else (case index_at buf (int k) of Inl e \<Rightarrow> Inl e | Inr _ \<Rightarrow> cont value)
      else Inr (zz_unmap value, k))"

definition zig_zag_decode_i64 :: "byte list \<Rightarrow> error + 64 word \<times> nat" where
  "zig_zag_decode_i64 buf =
     (if length buf < 1 then Inr (0, 0)
      else case index_at buf 0 of Inl e \<Rightarrow> Inl e | Inr _ \<Rightarrow>
           zz_more buf 1 (ucast (buf ! 0) AND 0x7F) (\<lambda>v.
           zz_more buf 2 (v OR zz_group buf 1) (\<lambda>v.
           zz_more buf 3 (v OR zz_group buf 2) (\<lambda>v.
           zz_more buf 4 (v OR zz_group buf 3) (\<lambda>v.
           zz_more buf 5 (v OR zz_group buf 4) (\<lambda>v.
           zz_more buf 6 (v OR zz_group buf 5) (\<lambda>v.
           zz_more buf 7 (v OR zz_group buf 6) (\<lambda>v.
           zz_more buf 8 (v OR zz_group buf 7) (\<lambda>v.
             Inr (zz_unmap (v OR push_bit 56 (ucast (buf ! 8))), 9))))))))))"

text \<open>The checks make every read succeed.\<close>

lemma zz_more_eq: "zz_more buf k value cont =
    (if (buf ! (k - 1)) AND 0x80 \<noteq> 0
     then if length buf < Suc k then Inl (Truncated (int k + 1) (int (length buf))) else cont value
     else Inr (zz_unmap value, k))"
  by (simp add: zz_more_def)

lemma zig_zag_decode_i64_eq: "zig_zag_decode_i64 buf =
     (if length buf < 1 then Inr (0, 0)
      else zz_more buf 1 (ucast (buf ! 0) AND 0x7F) (\<lambda>v.
           zz_more buf 2 (v OR zz_group buf 1) (\<lambda>v.
           zz_more buf 3 (v OR zz_group buf 2) (\<lambda>v.
           zz_more buf 4 (v OR zz_group buf 3) (\<lambda>v.
           zz_more buf 5 (v OR zz_group buf 4) (\<lambda>v.
           zz_more buf 6 (v OR zz_group buf 5) (\<lambda>v.
           zz_more buf 7 (v OR zz_group buf 6) (\<lambda>v.
           zz_more buf 8 (v OR zz_group buf 7) (\<lambda>v.
             Inr (zz_unmap (v OR push_bit 56 (ucast (buf ! 8))), 9))))))))))"
  using index_at_nat [of 0 buf] by (simp add: zig_zag_decode_i64_def not_less Suc_le_eq)

section \<open>The codec at the level of bits\<close>

lemma bit_x7F [simp]: "bit (0x7F :: int) n \<longleftrightarrow> n < 7"
proof -
  have "(0x7F :: int) = mask 7" by (simp add: mask_eq_exp_minus_1)
  then show ?thesis by (simp only: bit_mask_iff) simp
qed

lemma bit_x80 [simp]: "bit (0x80 :: int) n \<longleftrightarrow> n = 7"
proof -
  have "(0x80 :: int) = 2 ^ 7" by simp
  then show ?thesis by (simp only: bit_exp_iff) auto
qed

lemma bit_zz_map: "bit (zz_map s) n \<longleftrightarrow> n < 64 \<and> ((0 < n \<and> bit s (n - 1)) \<noteq> bit s 63)"
  unfolding zz_map_def bit_xor_iff bit_push_bit_iff bit_signed_drop_bit_iff
  by (cases n) (auto dest: bit_imp_le_length)

lemma zz_unmap_map: "zz_unmap (zz_map s) = s"
proof (rule bit_word_eqI)
  fix n assume n: "n < LENGTH(64)"
  have low: "odd (zz_map s) \<longleftrightarrow> bit s 63"
    using bit_zz_map [of s 0] by (simp add: bit_0)
  have neg: "bit (- (zz_map s AND 1)) n \<longleftrightarrow> bit s 63"
    using low n by (cases "bit s 63") (simp_all add: and_one_eq mod_2_eq_odd)
  have "bit (drop_bit 1 (zz_map s)) n \<longleftrightarrow> n < 63 \<and> (bit s n \<noteq> bit s 63)"
    using n unfolding bit_drop_bit_eq comp_apply bit_zz_map by auto
  with neg n show "bit (zz_unmap (zz_map s)) n \<longleftrightarrow> bit s n"
    by (cases "n = 63") (auto simp: zz_unmap_def bit_xor_iff)
qed

lemma byte_cont: "(ucast (x OR 0x80 :: 64 word) :: byte) AND 0x80 \<noteq> 0"
proof
  assume "(ucast (x OR 0x80 :: 64 word) :: byte) AND 0x80 = 0"
  then have "\<not> bit ((ucast (x OR 0x80 :: 64 word) :: byte) AND 0x80) 7" by simp
  then show False by (simp add: bit_simps)
qed

lemma byte_cont_group: "ucast (ucast (x OR 0x80 :: 64 word) :: byte) AND 0x7F = (x AND 0x7F :: 64 word)"
  by (rule bit_word_eqI) (auto simp: bit_simps)

lemma byte_group: "ucast (ucast (x :: 64 word) :: byte) AND 0x7F = (x AND 0x7F :: 64 word)"
  by (rule bit_word_eqI) (auto simp: bit_simps)

lemma drop_bit_0_iff: "drop_bit n (v :: 64 word) = 0 \<longleftrightarrow> (\<forall>k. n \<le> k \<longrightarrow> \<not> bit v k)"
proof
  assume "drop_bit n v = 0"
  then have "\<not> bit (drop_bit n v) (k - n)" for k by simp
  then have "\<not> bit v (n + (k - n))" for k by (simp add: bit_drop_bit_eq)
  then show "\<forall>k. n \<le> k \<longrightarrow> \<not> bit v k" by (metis le_add_diff_inverse)
next
  assume "\<forall>k. n \<le> k \<longrightarrow> \<not> bit v k"
  then show "drop_bit n v = 0" by (intro bit_word_eqI) (simp add: bit_drop_bit_eq)
qed

lemma byte_final: "drop_bit 7 x = 0 \<Longrightarrow> (ucast (x :: 64 word) :: byte) AND 0x80 = 0"
  unfolding drop_bit_0_iff by (rule bit_word_eqI) (auto simp: bit_simps)

lemma take_bit_group: "take_bit n v OR push_bit n (drop_bit n v AND 0x7F) = take_bit (n + 7) (v :: 64 word)"
  by (rule bit_word_eqI) (auto simp: bit_simps)

lemma take_bit_whole: "drop_bit n v = 0 \<Longrightarrow> take_bit n v = (v :: 64 word)"
  unfolding drop_bit_0_iff by (rule bit_word_eqI) (auto simp: bit_simps not_le)

lemma take_bit_top: "take_bit 56 v OR push_bit 56 (ucast (ucast (drop_bit 56 v) :: byte)) = (v :: 64 word)"
  by (rule bit_word_eqI) (auto simp: bit_simps)

lemma byte_final_at: "drop_bit (n + 7) v = 0 \<Longrightarrow> (ucast (drop_bit n (v :: 64 word)) :: byte) AND 0x80 = 0"
  by (rule byte_final) (simp add: add.commute)

text \<open>The nine lengths, at the numerals the source spells out.\<close>

lemmas byte_finals = byte_final_at [of 0, simplified] byte_final_at [of 7, simplified]
  byte_final_at [of 14, simplified] byte_final_at [of 21, simplified] byte_final_at [of 28, simplified]
  byte_final_at [of 35, simplified] byte_final_at [of 42, simplified] byte_final_at [of 49, simplified]

lemma group_sum:
  assumes "buf ! k = ucast (drop_bit (7 * k) v OR 0x80) \<or> buf ! k = ucast (drop_bit (7 * k) v)"
  shows "take_bit (7 * k) v OR zz_group buf k = take_bit (7 * k + 7) v"
proof -
  have "ucast (buf ! k) AND 0x7F = drop_bit (7 * k) v AND 0x7F"
    using assms by (metis byte_cont_group byte_group)
  then show ?thesis using take_bit_group [of "7 * k" v] by (simp only: zz_group_def)
qed

lemmas group_sums = group_sum [of _ 1, simplified] group_sum [of _ 2, simplified]
  group_sum [of _ 3, simplified] group_sum [of _ 4, simplified] group_sum [of _ 5, simplified]
  group_sum [of _ 6, simplified] group_sum [of _ 7, simplified]

lemma first_byte: "ucast (ucast ((v AND 0x7F) OR 0x80 :: 64 word) :: byte) AND 0x7F = take_bit 7 (v :: 64 word)"
  by (rule bit_word_eqI) (auto simp: bit_simps)

lemma byte_low: "ucast (ucast (v :: 64 word) :: byte) AND 0x7F = take_bit 7 v"
  by (rule bit_word_eqI) (auto simp: bit_simps)

lemmas codec_defs = zig_zag_encode_i64_def zig_zag_decode_i64_eq zz_more_eq Let_def

lemma decode_encode: "zig_zag_decode_i64 (zig_zag_encode_i64 s @ rest) = Inr (s, length (zig_zag_encode_i64 s))"
proof -
  define v where "v = zz_map s"
  have s: "zz_unmap v = s" by (simp add: v_def zz_unmap_map)
  show ?thesis
  proof (cases "drop_bit 7 v = 0")
    case True
    then show ?thesis
      using s byte_final [of v] take_bit_whole [of 7 v]
      by (simp add: codec_defs byte_low flip: v_def)
  next
    case n7: False
    note rules = codec_defs byte_cont byte_finals group_sums first_byte
    consider "drop_bit 14 v = 0" | "drop_bit 14 v \<noteq> 0" "drop_bit 21 v = 0"
      | "drop_bit 14 v \<noteq> 0" "drop_bit 21 v \<noteq> 0" by blast
    then show ?thesis
    proof cases
      case 1
      with n7 show ?thesis using s take_bit_whole [of 14 v] by (simp add: rules flip: v_def)
    next
      case 2
      with n7 show ?thesis using s take_bit_whole [of 21 v] by (simp add: rules flip: v_def)
    next
      case 3
      with n7 show ?thesis
        using s take_bit_whole [of 28 v] take_bit_whole [of 35 v] take_bit_whole [of 42 v]
          take_bit_whole [of 49 v] take_bit_whole [of 56 v] take_bit_top [of v]
        by (simp add: rules flip: v_def)
    qed
  qed
qed

lemma encode_length: "1 \<le> length (zig_zag_encode_i64 s) \<and> length (zig_zag_encode_i64 s) \<le> 9"
  by (simp add: zig_zag_encode_i64_def Let_def)

lemma zz_more_cases:
  assumes "zz_more buf k v cont = Inr (x, n)"
  shows "n = k \<or> (Suc k \<le> length buf \<and> cont v = Inr (x, n))"
  using assms by (auto simp: zz_more_eq split: if_splits)

lemma zz_more_error:
  assumes "zz_more buf k v cont = Inl e" "k \<le> 8" "length buf \<ge> k"
  shows "(e = Truncated (int (length buf) + 1) (int (length buf)) \<and> length buf \<le> 8) \<or>
         (Suc k \<le> length buf \<and> cont v = Inl e)"
  using assms by (auto simp: zz_more_eq split: if_splits)

text \<open>A non-empty buffer is consumed by at least one byte and never past its end.\<close>

lemma decode_used:
  assumes "zig_zag_decode_i64 buf = Inr (x, n)" "buf \<noteq> []"
  shows "1 \<le> n" and "n \<le> length buf"
proof -
  have "1 \<le> length buf" using assms(2) by (cases buf) auto
  with assms have "1 \<le> n \<and> n \<le> length buf"
    by (auto simp: zig_zag_decode_i64_eq dest!: zz_more_cases)
  then show "1 \<le> n" "n \<le> length buf" by simp_all
qed

lemma decode_error:
  assumes "zig_zag_decode_i64 buf = Inl e"
  shows "e = Truncated (int (length buf) + 1) (int (length buf)) \<and> 1 \<le> length buf \<and> length buf \<le> 8"
proof -
  have ne: "buf \<noteq> []" using assms by (auto simp: zig_zag_decode_i64_eq)
  then have "1 \<le> length buf" by (cases buf) auto
  with ne assms show ?thesis
    by (auto simp: zig_zag_decode_i64_eq dest!: zz_more_error)
qed

section \<open>The interface to the payload\<close>

text \<open>
  What the histogram encoders need of the number codec: a number decodes from the front of
  any buffer that starts with its encoding, using exactly that encoding.
\<close>

locale prefix_codec =
  fixes enc :: "'a \<Rightarrow> 'b list"
    and dec :: "'b list \<Rightarrow> 'e + 'a \<times> nat"
  assumes dec_enc: "dec (enc x @ rest) = Inr (x, length (enc x))"
    and enc_nonempty: "enc x \<noteq> []"
begin

lemma enc_inj: "enc x = enc y \<Longrightarrow> x = y"
  using dec_enc [of x "[]"] dec_enc [of y "[]"] by simp

text \<open>No encoding is a proper prefix of another one, so a sequence of encodings can be cut in
  one way only.\<close>

lemma enc_prefix_free:
  assumes "enc x @ r = enc y @ r'"
  shows "x = y" and "r = r'"
proof -
  from assms dec_enc [of x r] dec_enc [of y r'] show "x = y" by simp
  with assms show "r = r'" by simp
qed

lemma concat_enc_inj: "concat (map enc xs) = concat (map enc ys) \<Longrightarrow> xs = ys"
proof (induction xs arbitrary: ys)
  case Nil
  then show ?case using enc_nonempty by (cases ys) auto
next
  case (Cons x xs)
  then obtain y zs where ys: "ys = y # zs" using enc_nonempty by (cases ys) auto
  with Cons.prems have "enc x @ concat (map enc xs) = enc y @ concat (map enc zs)" by simp
  from enc_prefix_free [OF this] Cons.IH ys show ?case by simp
qed

end

interpretation zz: prefix_codec zig_zag_encode_i64 zig_zag_decode_i64
proof
  show "zig_zag_decode_i64 (zig_zag_encode_i64 x @ rest) = Inr (x, length (zig_zag_encode_i64 x))" for x rest
    by (rule decode_encode)
  show "zig_zag_encode_i64 x \<noteq> []" for x using encode_length [of x] by auto
qed

section \<open>Properties\<close>

text \<open>C5: The number codec is a prefix code: whatever follows, the decoder reads back every
  \<open>int64\<close> the encoder wrote and uses exactly the one to nine bytes of its encoding, and two
  sequences of numbers with the same concatenated encoding are equal.\<close>

theorem zigzag_roundtrip:
  "zig_zag_decode_i64 (zig_zag_encode_i64 s @ rest) = Inr (s, length (zig_zag_encode_i64 s)) \<and>
   1 \<le> length (zig_zag_encode_i64 s) \<and> length (zig_zag_encode_i64 s) \<le> 9 \<and>
   (concat (map zig_zag_encode_i64 xs) = concat (map zig_zag_encode_i64 ys) \<longleftrightarrow> xs = ys)"
  using decode_encode [of s rest] encode_length [of s] zz.concat_enc_inj [of xs ys] by auto

text \<open>C6: On an arbitrary buffer the decoder never reads past the end. It either uses between
  one and nine bytes of a non-empty buffer, or reports that a buffer of at most eight bytes
  ends inside a number; an empty buffer yields zero and uses nothing.\<close>

theorem zigzag_decode_total:
  "(buf = [] \<and> zig_zag_decode_i64 buf = Inr (0, 0)) \<or>
   (\<exists>x n. zig_zag_decode_i64 buf = Inr (x, n) \<and> 1 \<le> n \<and> n \<le> length buf \<and> n \<le> 9) \<or>
   (zig_zag_decode_i64 buf = Inl (Truncated (int (length buf) + 1) (int (length buf))) \<and>
    1 \<le> length buf \<and> length buf \<le> 8)"
proof (cases "zig_zag_decode_i64 buf")
  case (Inl e)
  with decode_error [OF Inl] show ?thesis by simp
next
  case (Inr r)
  then obtain x n where r: "zig_zag_decode_i64 buf = Inr (x, n)" by (cases r) auto
  then have "n \<le> 9" by (auto simp: zig_zag_decode_i64_eq split: if_splits dest!: zz_more_cases)
  with r decode_used [OF r] show ?thesis by (cases buf) (auto simp: zig_zag_decode_i64_eq)
qed

end
