(* ===== verification/Bytes.thy ===== *)
theory Bytes
  imports Zigzag
begin

text \<open>
  The byte-level parts of the standard library that the codecs use: fixed-width integers in
  little-endian and big-endian order (\<open>encoding/binary\<close>) and the standard base64 encoding with
  padding (\<open>encoding/base64\<close>, \<open>StdEncoding\<close>, whose decoder skips line ends and does not look at
  the unused bits of the last group).
\<close>

section \<open>Integers as bytes\<close>

primrec le_val :: "byte list \<Rightarrow> int" where
  "le_val [] = 0"
| "le_val (b # bs) = uint b + 256 * le_val bs"

primrec le_bytes :: "nat \<Rightarrow> int \<Rightarrow> byte list" where
  "le_bytes 0 v = []"
| "le_bytes (Suc n) v = word_of_int v # le_bytes n (v div 256)"

definition be_bytes :: "nat \<Rightarrow> int \<Rightarrow> byte list" where
  "be_bytes n v = rev (le_bytes n v)"

definition be_val :: "byte list \<Rightarrow> int" where
  "be_val bs = le_val (rev bs)"

section \<open>Base64\<close>

definition b64_char :: "nat \<Rightarrow> byte" where
  "b64_char n =
     (if n < 26 then of_nat (65 + n) else if n < 52 then of_nat (97 + (n - 26))
      else if n < 62 then of_nat (48 + (n - 52)) else if n = 62 then 43 else 47)"

definition b64_digit :: "byte \<Rightarrow> nat option" where
  "b64_digit b =
     (let c = unat b
      in if 65 \<le> c \<and> c \<le> 90 then Some (c - 65)
         else if 97 \<le> c \<and> c \<le> 122 then Some (c - 97 + 26)
         else if 48 \<le> c \<and> c \<le> 57 then Some (c - 48 + 52)
         else if c = 43 then Some 62 else if c = 47 then Some 63 else None)"

definition b64_pad :: byte where
  "b64_pad = 61"

fun EncodeToString :: "byte list \<Rightarrow> byte list" where
  "EncodeToString [] = []"
| "EncodeToString [a] =
     [b64_char (unat a div 4), b64_char (unat a mod 4 * 16), b64_pad, b64_pad]"
| "EncodeToString [a, b] =
     [b64_char (unat a div 4), b64_char (unat a mod 4 * 16 + unat b div 16),
      b64_char (unat b mod 16 * 4), b64_pad]"
| "EncodeToString (a # b # c # bs) =
     b64_char (unat a div 4) # b64_char (unat a mod 4 * 16 + unat b div 16) #
     b64_char (unat b mod 16 * 4 + unat c div 64) # b64_char (unat c mod 64) # EncodeToString bs"

definition b64_byte1 :: "nat \<Rightarrow> nat \<Rightarrow> byte" where
  "b64_byte1 w x = of_nat (w * 4 + x div 16)"

definition b64_byte2 :: "nat \<Rightarrow> nat \<Rightarrow> byte" where
  "b64_byte2 x y = of_nat (x mod 16 * 16 + y div 4)"

definition b64_byte3 :: "nat \<Rightarrow> nat \<Rightarrow> byte" where
  "b64_byte3 y z = of_nat (y mod 4 * 64 + z)"

fun b64_groups :: "byte list \<Rightarrow> byte list option" where
  "b64_groups [] = Some []"
| "b64_groups (p # q # r # s # rest) =
     (case (b64_digit p, b64_digit q) of
        (Some w, Some x) \<Rightarrow>
          if r = b64_pad
          then if s = b64_pad \<and> rest = [] then Some [b64_byte1 w x] else None
          else (case b64_digit r of
                  None \<Rightarrow> None
                | Some y \<Rightarrow>
                    if s = b64_pad
                    then if rest = [] then Some [b64_byte1 w x, b64_byte2 x y] else None
                    else (case (b64_digit s, b64_groups rest) of
                            (Some z, Some bs) \<Rightarrow>
                              Some (b64_byte1 w x # b64_byte2 x y #
                                    b64_byte3 y z # bs)
                          | _ \<Rightarrow> None))
      | _ \<Rightarrow> None)"
| "b64_groups _ = None"

definition DecodeString :: "byte list \<Rightarrow> error + byte list" where
  "DecodeString s =
     (case b64_groups (filter (\<lambda>b. b \<noteq> 10 \<and> b \<noteq> 13) s) of None \<Rightarrow> Inl Base64Corrupt | Some bs \<Rightarrow> Inr bs)"

section \<open>Round trips\<close>

lemma length_le_bytes [simp]: "length (le_bytes n v) = n"
  by (induction n arbitrary: v) simp_all

lemma le_val_le_bytes: "le_val (le_bytes n v) = v mod 256 ^ n"
proof (induction n arbitrary: v)
  case (Suc n)
  have "uint (word_of_int v :: byte) = v mod 256" by (simp add: uint_word_of_int)
  then show ?case using Suc by (simp add: zmod_zmult2_eq)
qed simp

lemma le_bytes_0: "le_bytes n 0 = replicate n 0"
  by (induction n) simp_all

lemma length_be_bytes [simp]: "length (be_bytes n v) = n"
  by (simp add: be_bytes_def)

lemma be_val_be_bytes: "be_val (be_bytes n v) = v mod 256 ^ n"
  by (simp add: be_val_def be_bytes_def le_val_le_bytes)

lemma b64_digit_char: "n < 64 \<Longrightarrow> b64_digit (b64_char n) = Some n"
proof -
  have "list_all (\<lambda>n. b64_digit (b64_char n) = Some n) [0..<64]" by code_simp
  then show "n < 64 \<Longrightarrow> ?thesis" by (simp add: list_all_iff)
qed

lemma b64_char_ok: "n < 64 \<Longrightarrow> b64_char n \<noteq> b64_pad \<and> b64_char n \<noteq> 10 \<and> b64_char n \<noteq> 13"
proof -
  have "list_all (\<lambda>n. b64_char n \<noteq> b64_pad \<and> b64_char n \<noteq> 10 \<and> b64_char n \<noteq> 13) [0..<64]" by code_simp
  then show "n < 64 \<Longrightarrow> ?thesis" by (simp add: list_all_iff)
qed

lemma byte_bound: "unat (b :: byte) < 256"
  using unsigned_less [of b] by simp

lemma b64_parts:
  assumes "m < 256" "n < 256"
  shows "m div 4 < (64::nat)" "m mod 4 * 16 + n div 16 < (64::nat)" "m mod 16 * 4 + n div 64 < (64::nat)"
proof -
  have "m mod 4 \<le> 3" "n div 16 \<le> 15" "m mod 16 \<le> 15" "n div 64 \<le> 3" "m div 4 \<le> 63"
    using assms by (simp_all add: less_mult_imp_div_less less_Suc_eq_le [symmetric])
  then show "m div 4 < 64" "m mod 4 * 16 + n div 16 < 64" "m mod 16 * 4 + n div 64 < 64" by linarith+
qed

lemma b64_ranges:
  "unat (a :: byte) div 4 < 64" "unat a mod 4 * 16 < 64" "unat a mod 4 * 16 + unat (b :: byte) div 16 < 64"
  "unat b mod 16 * 4 < 64" "unat b mod 16 * 4 + unat (c :: byte) div 64 < 64" "unat c mod 64 < 64"
  using b64_parts [OF byte_bound [of a] byte_bound [of b]] b64_parts [OF byte_bound [of a] byte_bound [of 0]]
    b64_parts [OF byte_bound [of b] byte_bound [of c]] b64_parts [OF byte_bound [of b] byte_bound [of 0]] by simp_all

lemma b64_bytes:
  "b64_byte1 (unat a div 4) (unat a mod 4 * 16) = a"
  "b64_byte1 (unat a div 4) (unat a mod 4 * 16 + unat b div 16) = a"
  "b64_byte2 (unat a mod 4 * 16 + unat b div 16) (unat b mod 16 * 4) = b"
  "b64_byte2 (unat a mod 4 * 16 + unat b div 16) (unat b mod 16 * 4 + unat c div 64) = b"
  "b64_byte3 (unat b mod 16 * 4 + unat c div 64) (unat c mod 64) = c"
proof -
  have d: "unat b div 16 < 16" "unat c div 64 < 4" using byte_bound [of b] byte_bound [of c]
    by (simp_all add: less_mult_imp_div_less)
  have e: "(m * 16 + unat b div 16) div 16 = m" "(m * 16 + unat b div 16) mod 16 = unat b div 16"
    "(m * 4 + unat c div 64) div 4 = m" "(m * 4 + unat c div 64) mod 4 = unat c div 64" for m
    using d by simp_all
  have u: "of_nat (unat w) = w" for w :: byte by simp
  have z: "m * 16 div 16 = m" "m * 4 div 4 = m" for m :: nat by simp_all
  show "b64_byte1 (unat a div 4) (unat a mod 4 * 16) = a"
    "b64_byte1 (unat a div 4) (unat a mod 4 * 16 + unat b div 16) = a"
    "b64_byte2 (unat a mod 4 * 16 + unat b div 16) (unat b mod 16 * 4) = b"
    "b64_byte2 (unat a mod 4 * 16 + unat b div 16) (unat b mod 16 * 4 + unat c div 64) = b"
    "b64_byte3 (unat b mod 16 * 4 + unat c div 64) (unat c mod 64) = c"
    unfolding b64_byte1_def b64_byte2_def b64_byte3_def e z div_mult_mod_eq by (rule u)+
qed

lemma b64_groups_encode: "b64_groups (EncodeToString bs) = Some bs"
proof (induction bs rule: EncodeToString.induct)
  case (4 a b c bs)
  then show ?case by (simp add: b64_digit_char b64_char_ok b64_ranges b64_bytes)
qed (simp_all add: b64_digit_char b64_char_ok b64_ranges b64_bytes)

lemma EncodeToString_plain: "filter (\<lambda>b. b \<noteq> 10 \<and> b \<noteq> 13) (EncodeToString bs) = EncodeToString bs"
proof -
  have "\<forall>b \<in> set (EncodeToString bs). b \<noteq> 10 \<and> b \<noteq> 13"
    by (induction bs rule: EncodeToString.induct) (simp_all add: b64_char_ok b64_ranges b64_pad_def)
  then show ?thesis by (simp add: filter_id_conv)
qed

lemma DecodeString_EncodeToString: "DecodeString (EncodeToString bs) = Inr bs"
  by (simp add: DecodeString_def EncodeToString_plain b64_groups_encode)

end
