(* ===== verification/Packed.thy ===== *)
theory Packed
  imports Hist_Spec Bytes
begin

text \<open>
  The sparse \<open>PackedHistogram\<close> of \<open>packed.go\<close>: its storage, recording and basic queries. The populated flat indices are kept sorted; their
  counts are little-endian byte groups of one width (1, 2, 4 or 8) that grows on demand.

  Slices are lists: capacity, and the stale bytes a re-slice within capacity exposes, are not
  part of the state (the code overwrites them before it reads them). Loop counters that a slice
  length bounds are plain integers.
\<close>

record packed =
  p_geom :: histogram
  p_idx :: "int list"
  p_cnt :: "byte list"
  p_width :: int
  p_size :: int
  p_totalCount :: int
  lastIndex :: int
  lastPos :: int

definition NewPacked :: "(int \<Rightarrow> int) \<Rightarrow> int \<Rightarrow> int \<Rightarrow> int \<Rightarrow> error + packed" where
  "NewPacked lg lowest highest digits =
     (case newGeometry lg lowest highest digits of
        Inl e \<Rightarrow> Inl e
      | Inr g \<Rightarrow> Inr \<lparr>p_geom = g, p_idx = [], p_cnt = [], p_width = 1, p_size = 0, p_totalCount = 0,
                       lastIndex = 0, lastPos = 0\<rparr>)"

section \<open>Count slots\<close>

definition packedWidthMax :: "int \<Rightarrow> int" where
  "packedWidthMax w =
     (if w = 1 then 0xFF else if w = 2 then 0xFFFF else if w = 4 then 0xFFFFFFFF else MaxInt64)"

text \<open>The number of bytes the \<open>switch\<close> on the width reads and writes.\<close>

definition slot_bytes :: "int \<Rightarrow> nat" where
  "slot_bytes w = (if w = 1 then 1 else if w = 2 then 2 else if w = 4 then 4 else 8)"

text \<open>\<open>binary.LittleEndian.PutUint\<close> at a byte offset, with the conversion to the unsigned type.\<close>

definition putPackedCount :: "byte list \<Rightarrow> int \<Rightarrow> int \<Rightarrow> int \<Rightarrow> byte list" where
  "putPackedCount buf off w v =
     take (nat off) buf @ le_bytes (slot_bytes w) v @ drop (nat off + slot_bytes w) buf"

definition slotGet :: "packed \<Rightarrow> int \<Rightarrow> int" where
  "slotGet p i = i64 (le_val (take (slot_bytes (p_width p)) (drop (nat (i * p_width p)) (p_cnt p))))"

definition slotSet :: "packed \<Rightarrow> int \<Rightarrow> int \<Rightarrow> packed" where
  "slotSet p i val = p\<lparr>p_cnt := putPackedCount (p_cnt p) (i * p_width p) (p_width p) val\<rparr>"

text \<open>The widening loop. A width is never zero outside the zero value of the struct, for which
  the loop would not end; the first conjunct makes the recursion well-founded.\<close>

function widen_width :: "int \<Rightarrow> int \<Rightarrow> int" where
  "widen_width need nw =
     (if 0 < nw \<and> need > packedWidthMax nw \<and> nw < 8 then widen_width need (nw * 2) else nw)"
  by pat_completeness auto
termination by (relation "measure (\<lambda>(need, nw). nat (8 - nw))") auto

declare widen_width.simps [simp del]

definition widenToFit :: "packed \<Rightarrow> int \<Rightarrow> packed" where
  "widenToFit p need =
     (let nw = widen_width need (p_width p)
      in if nw = p_width p then p
         else let nb = foldl (\<lambda>buf i. putPackedCount buf (int i * nw) nw (slotGet p (int i)))
                         (replicate (nat (p_size p * nw)) 0) [0..<nat (p_size p)]
              in p\<lparr>p_cnt := nb, p_width := nw\<rparr>)"

section \<open>Search and insertion\<close>

function lb_loop :: "int list \<Rightarrow> int \<Rightarrow> int \<Rightarrow> int \<Rightarrow> int" where
  "lb_loop a key base n =
     (if n > 0
      then let half = n div 2; mid = base + half
           in if a ! nat mid < key then lb_loop a key (mid + 1) (n - (half + 1))
              else lb_loop a key base half
      else base)"
  by pat_completeness auto
termination by (relation "measure (\<lambda>(a, key, base, n). nat n)") auto

declare lb_loop.simps [simp del]

definition lowerBound :: "packed \<Rightarrow> int \<Rightarrow> int" where
  "lowerBound p key = lb_loop (take (nat (p_size p)) (p_idx p)) key 0 (p_size p)"

definition addAtExisting :: "packed \<Rightarrow> int \<Rightarrow> int \<Rightarrow> packed" where
  "addAtExisting p pos delta =
     (let off = pos * p_width p; nv = i64 (slotGet p pos + delta)
      in if p_width p = 1
         then if nv \<le> 0xFF then p\<lparr>p_cnt := (p_cnt p)[nat off := word_of_int nv]\<rparr>
              else slotSet (widenToFit p nv) pos nv
         else if p_width p = 2
         then if nv \<le> 0xFFFF then p\<lparr>p_cnt := putPackedCount (p_cnt p) off 2 nv\<rparr>
              else slotSet (widenToFit p nv) pos nv
         else if p_width p = 4
         then if nv \<le> 0xFFFFFFFF then p\<lparr>p_cnt := putPackedCount (p_cnt p) off 4 nv\<rparr>
              else slotSet (widenToFit p nv) pos nv
         else p\<lparr>p_cnt := putPackedCount (p_cnt p) off 8 nv\<rparr>)"

definition sparseAdd :: "packed \<Rightarrow> int \<Rightarrow> int \<Rightarrow> int \<times> packed" where
  "sparseAdd p ci delta =
     (let pos = lowerBound p ci
      in if pos < p_size p \<and> p_idx p ! nat pos = ci then (pos, addAtExisting p pos delta)
         else let p1 = widenToFit p delta;
                  w = p_width p1;
                  gapLo = nat (pos * w);
                  p2 = p1\<lparr>p_idx := take (nat pos) (p_idx p1) @ [ci] @ drop (nat pos) (p_idx p1),
                          p_cnt := take gapLo (p_cnt p1) @ replicate (nat w) 0 @ drop gapLo (p_cnt p1),
                          p_size := i32 (p_size p1 + 1)\<rparr>
              in (pos, slotSet p2 pos delta))"

section \<open>Recording and basic queries\<close>

definition RecordValues_p :: "packed \<Rightarrow> int \<Rightarrow> int \<Rightarrow> error option \<times> packed" where
  "RecordValues_p p v n =
     (if v < 0 then (Some (NegativeValue v), p)
      else let g = p_geom p; ci = i32 (countsIndexFor g v)
           in if u32 ci \<ge> u32 (countsLen g) then (Some (ValueTooLarge v), p)
              else if n < 0 then (Some (NegativeCount n), p)
              else if n > i64 (MaxInt64 - p_totalCount p) then (Some (TotalOverflow n), p)
              else let p' = (if n \<noteq> 0
                             then if lastIndex p = ci \<and> lastPos p < p_size p \<and> p_idx p ! nat (lastPos p) = ci
                                  then addAtExisting p (lastPos p) n
                                  else let (pos, q) = sparseAdd p ci n
                                       in q\<lparr>lastIndex := ci, lastPos := pos\<rparr>
                             else p)
                   in (None, p'\<lparr>p_totalCount := i64 (p_totalCount p' + n)\<rparr>))"

definition RecordValue_p :: "packed \<Rightarrow> int \<Rightarrow> error option \<times> packed" where
  "RecordValue_p p v = RecordValues_p p v 1"

definition highestEquivalent :: "packed \<Rightarrow> int \<Rightarrow> int" where
  "highestEquivalent p v =
     (let g = p_geom p; leq = lowestEquivalentValue g v; sz = sizeOfEquivalentValueRange g v
      in if leq > i64 (MaxInt64 - sz) then MaxInt64 else i64 (i64 (leq + sz) - 1))"

definition Max_p :: "packed \<Rightarrow> int" where
  "Max_p p =
     (if p_size p = 0 then highestEquivalent p 0
      else highestEquivalent p (valueFromFlatIndex (p_geom p) (p_idx p ! nat (p_size p - 1))))"

definition Min_p :: "packed \<Rightarrow> int" where
  "Min_p p =
     (if p_size p = 0 then lowestEquivalentValue (p_geom p) 0
      else lowestEquivalentValue (p_geom p) (valueFromFlatIndex (p_geom p) (p_idx p ! 0)))"

definition CountAtValue :: "packed \<Rightarrow> int \<Rightarrow> int" where
  "CountAtValue p v =
     (let g = p_geom p; i = countsIndexFor g v
      in if v < 0 then 0
         else if i < 0 \<or> i \<ge> countsLen g then 0
         else let ci = i32 i; pos = lowerBound p ci
              in if pos < p_size p \<and> p_idx p ! nat pos = ci then slotGet p pos else 0)"

definition Populated :: "packed \<Rightarrow> int" where
  "Populated p = p_size p"

definition CountWidth :: "packed \<Rightarrow> int" where
  "CountWidth p = p_width p"

section \<open>Accessors\<close>

definition TotalCount_p :: "packed \<Rightarrow> int" where
  [simp]: "TotalCount_p p = p_totalCount p"

definition SignificantFigures_p :: "packed \<Rightarrow> int" where
  [simp]: "SignificantFigures_p p = significantFigures (p_geom p)"

definition LowestTrackableValue_p :: "packed \<Rightarrow> int" where
  [simp]: "LowestTrackableValue_p p = lowestDiscernibleValue (p_geom p)"

definition HighestTrackableValue_p :: "packed \<Rightarrow> int" where
  [simp]: "HighestTrackableValue_p p = highestTrackableValue (p_geom p)"

end
