(* ===== verification/Packed_Spec.thy ===== *)
theory Packed_Spec
  imports Packed
begin

text \<open>
  Correctness of the sparse histogram. The byte layout is related to a list of counts (\<open>holds\<close>),
  the binary search to a position in a sorted list (\<open>below\<close>), and the two arrays together to a
  finite map from flat indices to counts (\<open>count_at\<close>). \<open>packed_ok\<close> is the representation
  invariant and \<open>dense_of\<close> the abstraction to the dense histogram, under which the sparse
  operations are the dense ones.
\<close>

section \<open>The byte layout\<close>

text \<open>Counts packed at a uniform number of bytes.\<close>

definition pack :: "nat \<Rightarrow> int list \<Rightarrow> byte list" where
  "pack n vs = concat (map (le_bytes n) vs)"

lemma pack_simps [simp]:
  "pack n [] = []" "pack n (v # vs) = le_bytes n v @ pack n vs" "pack n (vs @ ws) = pack n vs @ pack n ws"
  by (simp_all add: pack_def)

lemma length_pack [simp]: "length (pack n vs) = length vs * n"
  by (induction vs) simp_all

lemma take_pack: "take (i * n) (pack n vs) = pack n (take i vs)"
proof (induction vs arbitrary: i)
  case (Cons v vs)
  then show ?case by (cases i) simp_all
qed simp

lemma drop_pack: "drop (i * n) (pack n vs) = pack n (drop i vs)"
proof (induction vs arbitrary: i)
  case (Cons v vs)
  then show ?case by (cases i) simp_all
qed simp

lemma pack_chunk:
  assumes "i < length vs"
  shows "take n (drop (i * n) (pack n vs)) = le_bytes n (vs ! i)"
  using assms by (simp add: drop_pack Cons_nth_drop_Suc [symmetric])

lemma pack_update:
  assumes "i < length vs"
  shows "take (i * n) (pack n vs) @ le_bytes n v @ drop (i * n + n) (pack n vs) = pack n (vs[i := v])"
proof -
  have "drop (i * n + n) (pack n vs) = pack n (drop (Suc i) vs)"
    using drop_pack [of "Suc i" n vs] by (simp add: add.commute)
  then show ?thesis using assms by (simp add: take_pack upd_conv_take_nth_drop)
qed

lemma pack_insert:
  "take (i * n) (pack n vs) @ replicate n 0 @ drop (i * n) (pack n vs) = pack n (take i vs @ 0 # drop i vs)"
  by (simp add: take_pack drop_pack le_bytes_0)

section \<open>Widths\<close>

definition is_width :: "int \<Rightarrow> bool" where
  "is_width w \<longleftrightarrow> w = 1 \<or> w = 2 \<or> w = 4 \<or> w = 8"

lemma is_width_facts:
  assumes "is_width w"
  shows "int (slot_bytes w) = w" "0 < w" "nat w = slot_bytes w" "w \<le> 8"
  using assms by (auto simp: is_width_def slot_bytes_def)

lemma packedWidthMax_bounds:
  assumes "is_width w"
  shows "packedWidthMax w < 256 ^ slot_bytes w" "packedWidthMax w \<le> MaxInt64" "0 < packedWidthMax w"
    "packedWidthMax 8 = MaxInt64"
  using assms by (auto simp: is_width_def slot_bytes_def packedWidthMax_def)

lemma packedWidthMax_mono: "is_width w \<Longrightarrow> is_width w' \<Longrightarrow> w \<le> w' \<Longrightarrow> packedWidthMax w \<le> packedWidthMax w'"
  by (auto simp: is_width_def packedWidthMax_def)

lemma widen_width_table:
  "widen_width need 8 = 8"
  "widen_width need 4 = (if need > 0xFFFFFFFF then 8 else 4)"
  "widen_width need 2 = (if need > 0xFFFFFFFF then 8 else if need > 0xFFFF then 4 else 2)"
  "widen_width need 1 = (if need > 0xFFFFFFFF then 8 else if need > 0xFFFF then 4 else if need > 0xFF then 2 else 1)"
proof -
  show 8: "widen_width need 8 = 8" by (subst widen_width.simps) simp
  show 4: "widen_width need 4 = (if need > 0xFFFFFFFF then 8 else 4)"
    by (subst widen_width.simps) (simp add: 8 packedWidthMax_def)
  show 2: "widen_width need 2 = (if need > 0xFFFFFFFF then 8 else if need > 0xFFFF then 4 else 2)"
    by (subst widen_width.simps) (simp add: 4 packedWidthMax_def)
  show "widen_width need 1 = (if need > 0xFFFFFFFF then 8 else if need > 0xFFFF then 4 else if need > 0xFF then 2 else 1)"
    by (subst widen_width.simps) (simp add: 2 packedWidthMax_def)
qed

lemma widen_width_ok:
  assumes "is_width w" "need \<le> MaxInt64"
  shows "is_width (widen_width need w)" "w \<le> widen_width need w" "need \<le> packedWidthMax (widen_width need w)"
  using assms unfolding is_width_def by (elim disjE; simp add: widen_width_table packedWidthMax_def)+

lemma widen_width_least:
  assumes "is_width w"
  shows "widen_width need w = w \<or> packedWidthMax (widen_width need w div 2) < need"
  using assms unfolding is_width_def by (elim disjE; simp add: widen_width_table packedWidthMax_def)

section \<open>Slots\<close>

text \<open>The counts of a packed histogram are \<open>vs\<close>.\<close>

definition holds :: "packed \<Rightarrow> int list \<Rightarrow> bool" where
  "holds p vs \<longleftrightarrow>
     is_width (p_width p) \<and> p_cnt p = pack (slot_bytes (p_width p)) vs \<and>
     p_size p = int (length vs) \<and> length (p_idx p) = length vs \<and>
     (\<forall>v \<in> set vs. 0 \<le> v \<and> v \<le> packedWidthMax (p_width p))"

lemma slot_offset:
  assumes "is_width w"
  shows "nat (int i * w) = i * slot_bytes w"
  using is_width_facts(1) [OF assms] by (metis nat_int of_nat_mult)

lemma slotGet_nth:
  assumes h: "holds p vs" and i: "i < length vs"
  shows "slotGet p (int i) = vs ! i"
proof -
  from h have w: "is_width (p_width p)" and c: "p_cnt p = pack (slot_bytes (p_width p)) vs" by (simp_all add: holds_def)
  have v: "0 \<le> vs ! i" "vs ! i \<le> packedWidthMax (p_width p)" using h i by (auto simp: holds_def)
  then have "vs ! i mod 256 ^ slot_bytes (p_width p) = vs ! i" "i64 (vs ! i) = vs ! i"
    using packedWidthMax_bounds [OF w] by (auto intro!: i64_id)
  then show ?thesis by (simp add: slotGet_def c slot_offset [OF w] pack_chunk [OF i] le_val_le_bytes)
qed

definition slots :: "packed \<Rightarrow> int list" where
  "slots p = map (\<lambda>i. slotGet p (int i)) [0..<nat (p_size p)]"

lemma slots_holds:
  assumes "holds p vs"
  shows "slots p = vs"
proof -
  have "slots p = map (\<lambda>i. vs ! i) [0..<length vs]"
    using assms slotGet_nth [OF assms] by (auto simp: slots_def holds_def)
  then show ?thesis by (simp add: map_nth)
qed

lemma put_pack:
  assumes "is_width w" "i < length vs"
  shows "putPackedCount (pack (slot_bytes w) vs) (int i * w) w v = pack (slot_bytes w) (vs[i := v])"
  using pack_update [OF assms(2), of "slot_bytes w" v] by (simp add: putPackedCount_def slot_offset [OF assms(1)])

lemma slotSet_eq:
  assumes "is_width (p_width p)" "p_cnt p = pack (slot_bytes (p_width p)) vs" "i < length vs"
  shows "slotSet p (int i) v = p\<lparr>p_cnt := pack (slot_bytes (p_width p)) (vs[i := v])\<rparr>"
  using put_pack [OF assms(1,3)] by (simp add: slotSet_def assms(2))

lemma repack:
  assumes "is_width w" "k \<le> length vs"
  shows "foldl (\<lambda>buf i. putPackedCount buf (int i * w) w (vs ! i)) (replicate (length vs * slot_bytes w) 0) [0..<k] =
         pack (slot_bytes w) (take k vs @ replicate (length vs - k) 0)"
  using assms(2)
proof (induction k)
  case 0
  have "pack n (replicate k 0) = replicate (k * n) 0" for k n
    by (induction k) (simp_all add: le_bytes_0 replicate_add)
  then show ?case by simp
next
  case (Suc k)
  have "(take k vs @ replicate (length vs - k) 0)[k := vs ! k] = take (Suc k) vs @ replicate (length vs - Suc k) 0"
    using Suc.prems by (simp add: take_Suc_conv_app_nth list_update_append Suc_diff_Suc [symmetric] min_def)
  with Suc show ?case
    using put_pack [OF assms(1), of k "take k vs @ replicate (length vs - k) 0"] by simp
qed

lemma widenToFit_eq:
  assumes h: "holds p vs" and n: "need \<le> MaxInt64"
  obtains w where "widenToFit p need = p\<lparr>p_cnt := pack (slot_bytes w) vs, p_width := w\<rparr>"
    "is_width w" "need \<le> packedWidthMax w" "p_width p \<le> w" "holds (p\<lparr>p_cnt := pack (slot_bytes w) vs, p_width := w\<rparr>) vs"
proof -
  from h have w: "is_width (p_width p)" by (simp add: holds_def)
  define nw where "nw = widen_width need (p_width p)"
  note ok = widen_width_ok [OF w n, folded nw_def]
  have "foldl (\<lambda>buf i. putPackedCount buf (int i * nw) nw (slotGet p (int i))) b [0..<length vs] =
        foldl (\<lambda>buf i. putPackedCount buf (int i * nw) nw (vs ! i)) b [0..<length vs]" for b
    using slotGet_nth [OF h] by (intro foldl_cong) auto
  with repack [OF ok(1), of "length vs" vs] have
    eq: "widenToFit p need = p\<lparr>p_cnt := pack (slot_bytes nw) vs, p_width := nw\<rparr>"
    using h by (simp add: widenToFit_def holds_def Let_def flip: nw_def) (simp add: slot_offset [OF ok(1)])
  have "holds (p\<lparr>p_cnt := pack (slot_bytes nw) vs, p_width := nw\<rparr>) vs"
    using h ok packedWidthMax_mono [OF w ok(1,2)] by (auto simp: holds_def)
  with eq ok show thesis by (intro that)
qed

lemma addAtExisting_eq:
  assumes h: "holds p vs" and i: "i < length vs" and d: "0 \<le> d" "vs ! i + d \<le> MaxInt64"
  obtains w where "addAtExisting p (int i) d = p\<lparr>p_cnt := pack (slot_bytes w) (vs[i := vs ! i + d]), p_width := w\<rparr>"
    "holds (addAtExisting p (int i) d) (vs[i := vs ! i + d])"
proof -
  let ?n = "vs ! i + d"
  from h have w: "is_width (p_width p)" and c: "p_cnt p = pack (slot_bytes (p_width p)) vs" by (simp_all add: holds_def)
  have v: "0 \<le> vs ! i" using h i by (auto simp: holds_def)
  then have nv: "i64 (slotGet p (int i) + d) = ?n" using d by (simp add: slotGet_nth [OF h i] i64_id)
  have ok: "holds (p\<lparr>p_cnt := pack (slot_bytes u) (vs[i := ?n]), p_width := u\<rparr>) (vs[i := ?n])"
    if "holds (p\<lparr>p_cnt := pack (slot_bytes u) vs, p_width := u\<rparr>) vs" "?n \<le> packedWidthMax u" for u
    using that v d set_update_subset_insert [of vs i ?n] by (fastforce simp: holds_def)
  have same: "p\<lparr>p_cnt := pack (slot_bytes (p_width p)) vs, p_width := p_width p\<rparr> = p" using c by simp
  show thesis
  proof (cases "?n \<le> packedWidthMax (p_width p)")
    case True
    have put: "putPackedCount (p_cnt p) (int i * p_width p) (p_width p) ?n = pack (slot_bytes (p_width p)) (vs[i := ?n])"
      unfolding c by (rule put_pack [OF w i])
    have one: "(p_cnt p)[i := word_of_int ?n] = pack 1 (vs[i := ?n])" if "p_width p = 1"
    proof -
      have "(pack 1 us)[j := word_of_int x] = pack 1 (us[j := x])" for us j x
        by (induction us arbitrary: j) (auto split: nat.splits)
      then show ?thesis using c that by (simp add: slot_bytes_def del: of_int_add)
    qed
    have "addAtExisting p (int i) d = p\<lparr>p_cnt := pack (slot_bytes (p_width p)) (vs[i := ?n]), p_width := p_width p\<rparr>"
      using w True put one by (auto simp: addAtExisting_def Let_def nv is_width_def packedWidthMax_def slot_bytes_def)
    with ok [of "p_width p"] h True same show thesis by (intro that [of "p_width p"]) simp_all
  next
    case False
    from widenToFit_eq [OF h d(2)] obtain u where
      u: "widenToFit p ?n = p\<lparr>p_cnt := pack (slot_bytes u) vs, p_width := u\<rparr>" "is_width u" "?n \<le> packedWidthMax u"
      "holds (p\<lparr>p_cnt := pack (slot_bytes u) vs, p_width := u\<rparr>) vs" by blast
    have "addAtExisting p (int i) d = slotSet (widenToFit p ?n) (int i) ?n"
      using w False d by (auto simp: addAtExisting_def Let_def nv is_width_def packedWidthMax_def)
    also have "\<dots> = p\<lparr>p_cnt := pack (slot_bytes u) (vs[i := ?n]), p_width := u\<rparr>"
      unfolding u(1) using slotSet_eq [of "p\<lparr>p_cnt := pack (slot_bytes u) vs, p_width := u\<rparr>" vs i ?n] u(2) i by simp
    finally show thesis using ok [OF u(4,3)] by (intro that [of u]) simp_all
  qed
qed

section \<open>Search\<close>

definition below :: "int list \<Rightarrow> int \<Rightarrow> nat" where
  "below a key = length (takeWhile (\<lambda>x. x < key) a)"

lemma below_le: "below a key \<le> length a"
  by (simp add: below_def length_takeWhile_le)

lemma sorted_nth_less_iff:
  assumes "sorted_wrt (<) (a :: int list)" "k < length a"
  shows "a ! k < key \<longleftrightarrow> k < below a key"
proof
  assume "k < below a key"
  then have "takeWhile (\<lambda>x. x < key) a ! k \<in> set (takeWhile (\<lambda>x. x < key) a)" by (simp add: below_def)
  moreover have "takeWhile (\<lambda>x. x < key) a ! k = a ! k" using \<open>k < below a key\<close> by (simp add: below_def takeWhile_nth)
  ultimately show "a ! k < key" by (metis set_takeWhileD)
next
  assume less: "a ! k < key"
  show "k < below a key"
  proof (rule ccontr)
    assume n: "\<not> k < below a key"
    then have "below a key < length a" using assms(2) by simp
    then have "\<not> a ! below a key < key" unfolding below_def by (rule nth_length_takeWhile)
    moreover have "a ! below a key \<le> a ! k"
      using n assms sorted_wrt_nth_less [OF assms(1), of "below a key" k] by (cases "below a key = k") auto
    ultimately show False using less by simp
  qed
qed

lemma lb_loop_below:
  "sorted_wrt (<) a \<Longrightarrow> 0 \<le> base \<Longrightarrow> 0 \<le> n \<Longrightarrow> base + n \<le> int (length a) \<Longrightarrow> base \<le> int (below a key) \<Longrightarrow>
    int (below a key) \<le> base + n \<Longrightarrow> lb_loop a key base n = int (below a key)"
proof (induction a key base n rule: lb_loop.induct)
  case (1 a key base n)
  show ?case
  proof (cases "0 < n")
    case True
    define mid where "mid = base + n div 2"
    have m: "0 \<le> mid" "nat mid < length a" "mid < base + n" "base \<le> mid" using True "1.prems" by (auto simp: mid_def)
    have iff: "a ! nat mid < key \<longleftrightarrow> mid < int (below a key)"
      using sorted_nth_less_iff [OF "1.prems"(1) m(2)] m by (simp add: nat_less_iff)
    show ?thesis
    proof (cases "a ! nat mid < key")
      case True
      then have "lb_loop a key base n = lb_loop a key (mid + 1) (n - (n div 2 + 1))"
        using \<open>0 < n\<close> by (subst lb_loop.simps) (simp add: Let_def mid_def)
      then show ?thesis using 1(1) [OF \<open>0 < n\<close> refl mid_def] True m iff "1.prems" by (simp add: mid_def)
    next
      case False
      then have "lb_loop a key base n = lb_loop a key base (n div 2)"
        using \<open>0 < n\<close> by (subst lb_loop.simps) (simp add: Let_def mid_def)
      then show ?thesis using 1(2) [OF \<open>0 < n\<close> refl mid_def] False m iff "1.prems" by (simp add: mid_def)
    qed
  next
    case False
    with "1.prems" show ?thesis by (subst lb_loop.simps) simp
  qed
qed


lemma lowerBound_below:
  assumes "holds p vs" "sorted_wrt (<) (p_idx p)"
  shows "lowerBound p key = int (below (p_idx p) key)"
  using lb_loop_below [OF assms(2), of 0 "p_size p" key] below_le [of "p_idx p" key] assms(1)
  by (simp add: lowerBound_def holds_def)

lemma below_hit:
  assumes s: "sorted_wrt (<) a" and k: "key \<in> set a"
  shows "below a key < length a" "a ! below a key = key"
proof -
  from k obtain j where j: "j < length a" "a ! j = key" by (auto simp: in_set_conv_nth)
  have nj: "\<not> j < below a key" using sorted_nth_less_iff [OF s j(1), of key] j by simp
  then show lt: "below a key < length a" using j by simp
  have "\<not> below a key < j"
  proof
    assume "below a key < j"
    then have "a ! below a key < key" using sorted_wrt_nth_less [OF s] j by auto
    then show False using sorted_nth_less_iff [OF s lt] by simp
  qed
  with nj j show "a ! below a key = key" by simp
qed

lemma below_parts:
  assumes s: "sorted_wrt (<) a"
  shows "x \<in> set (take (below a key) a) \<Longrightarrow> x < key" and "x \<in> set (drop (below a key) a) \<Longrightarrow> key \<le> x"
proof -
  assume "x \<in> set (take (below a key) a)"
  then obtain k where "k < below a key" "k < length a" "x = a ! k" by (auto simp: in_set_conv_nth)
  then show "x < key" using sorted_nth_less_iff [OF s] by simp
next
  assume "x \<in> set (drop (below a key) a)"
  then obtain k where "k < length a - below a key" "x = a ! (below a key + k)" by (auto simp: in_set_conv_nth)
  then have "below a key + k < length a" "x = a ! (below a key + k)" by simp_all
  then show "key \<le> x" using sorted_nth_less_iff [OF s, of "below a key + k" key] by simp
qed

lemma sorted_insert_below:
  assumes s: "sorted_wrt (<) (a :: int list)" and k: "key \<notin> set a"
  shows "sorted_wrt (<) (take (below a key) a @ key # drop (below a key) a)"
proof -
  have t: "sorted_wrt (<) (take (below a key) a)" and d: "sorted_wrt (<) (drop (below a key) a)"
    using s by (simp_all add: sorted_wrt_take sorted_wrt_drop)
  have "key < x" if "x \<in> set (drop (below a key) a)" for x
    using below_parts(2) [OF s that] that k by (metis in_set_dropD order_le_less)
  moreover have "x < key" if "x \<in> set (take (below a key) a)" for x
    using below_parts(1) [OF s that] .
  ultimately show ?thesis using t d by (fastforce simp: sorted_wrt_append)
qed

section \<open>The sparse map\<close>

text \<open>Structural well-formedness: sorted indices inside the geometry, positive counts packed at
  the current width.\<close>

definition packed_wf :: "packed \<Rightarrow> bool" where
  "packed_wf p \<longleftrightarrow>
     geom_ok (p_geom p) \<and> sorted_wrt (<) (p_idx p) \<and>
     (\<forall>i \<in> set (p_idx p). 0 \<le> i \<and> i < countsLen (p_geom p)) \<and>
     holds p (slots p) \<and> (\<forall>c \<in> set (slots p). 0 < c) \<and> 0 \<le> lastPos p"

definition count_at :: "packed \<Rightarrow> int \<Rightarrow> int" where
  "count_at p k = (case map_of (zip (p_idx p) (slots p)) k of None \<Rightarrow> 0 | Some c \<Rightarrow> c)"

lemma packed_wfD:
  assumes "packed_wf p"
  shows "holds p (slots p)" "sorted_wrt (<) (p_idx p)" "distinct (p_idx p)" "length (p_idx p) = length (slots p)"
    "p_size p = int (length (p_idx p))"
  using assms strict_sorted_iff by (auto simp: packed_wf_def holds_def)

lemma holds_update [simp]:
  "holds (p\<lparr>lastIndex := x\<rparr>) vs = holds p vs" "holds (p\<lparr>lastPos := y\<rparr>) vs = holds p vs"
  "holds (p\<lparr>p_totalCount := z\<rparr>) vs = holds p vs"
  by (simp_all add: holds_def)

lemma slots_update [simp]:
  "slots (p\<lparr>lastIndex := x\<rparr>) = slots p" "slots (p\<lparr>lastPos := y\<rparr>) = slots p" "slots (p\<lparr>p_totalCount := z\<rparr>) = slots p"
  by (simp_all add: slots_def slotGet_def)

lemma count_at_update [simp]:
  "count_at (p\<lparr>lastIndex := x\<rparr>) = count_at p" "count_at (p\<lparr>lastPos := y\<rparr>) = count_at p"
  "count_at (p\<lparr>p_totalCount := z\<rparr>) = count_at p"
  by (simp_all add: count_at_def fun_eq_iff)

lemma packed_wf_update [simp]:
  "packed_wf (p\<lparr>lastIndex := x\<rparr>) = packed_wf p" "packed_wf (p\<lparr>p_totalCount := z\<rparr>) = packed_wf p"
  "0 \<le> y \<Longrightarrow> packed_wf p \<Longrightarrow> packed_wf (p\<lparr>lastPos := y\<rparr>)"
  by (simp_all add: packed_wf_def)

lemma map_of_zip_hit:
  assumes "distinct xs" "length xs = length ys" "i < length xs"
  shows "map_of (zip xs ys) (xs ! i) = Some (ys ! i)"
  using assms by (simp add: map_of_eq_Some_iff in_set_zip) blast

lemma count_at_nth:
  assumes "packed_wf p" "i < length (p_idx p)"
  shows "count_at p (p_idx p ! i) = slots p ! i"
  using map_of_zip_hit [OF packed_wfD(3,4) [OF assms(1)] assms(2)] by (simp add: count_at_def)

lemma count_at_miss: "packed_wf p \<Longrightarrow> k \<notin> set (p_idx p) \<Longrightarrow> count_at p k = 0"
  using packed_wfD(4) [of p] by (simp add: count_at_def split: option.split) (metis map_of_zip_is_None option.distinct(1))

lemma count_at_bounds:
  assumes "packed_wf p"
  shows "0 \<le> count_at p k" "k \<in> set (p_idx p) \<longleftrightarrow> count_at p k \<noteq> 0"
proof -
  have "0 \<le> count_at p k \<and> (k \<in> set (p_idx p) \<longleftrightarrow> count_at p k \<noteq> 0)"
  proof (cases "k \<in> set (p_idx p)")
    case True
    then obtain i where i: "i < length (p_idx p)" "k = p_idx p ! i" by (auto simp: in_set_conv_nth)
    have "0 < slots p ! i" using assms i packed_wfD(4) [OF assms] by (auto simp: packed_wf_def)
    then show ?thesis using i count_at_nth [OF assms i(1)] True by simp
  qed (simp add: count_at_miss [OF assms])
  then show "0 \<le> count_at p k" "k \<in> set (p_idx p) \<longleftrightarrow> count_at p k \<noteq> 0" by auto
qed

lemma map_of_zip_update:
  assumes "distinct xs" "length xs = length ys" "i < length xs"
  shows "map_of (zip xs (ys[i := y])) = (map_of (zip xs ys))(xs ! i \<mapsto> y)"
  using assms
proof (induction xs ys arbitrary: i rule: list_induct2')
  case (4 x xs z zs)
  show ?case
  proof (cases i)
    case (Suc j)
    then have "xs ! j \<noteq> x" using "4.prems" by auto
    with 4 Suc show ?thesis by (auto simp: fun_eq_iff)
  qed (simp add: fun_eq_iff)
qed simp_all

lemma addAtExisting_wf:
  assumes wf: "packed_wf p" and i: "i < length (p_idx p)" and d: "0 \<le> d" "slots p ! i + d \<le> MaxInt64"
  obtains q where "addAtExisting p (int i) d = q" "packed_wf q"
    "slots q = (slots p)[i := slots p ! i + d]"
    "count_at q = (count_at p)(p_idx p ! i := count_at p (p_idx p ! i) + d)"
    "p_geom q = p_geom p" "p_idx q = p_idx p" "p_totalCount q = p_totalCount p" "p_size q = p_size p"
proof -
  note D = packed_wfD [OF wf]
  have il: "i < length (slots p)" using i D(4) by simp
  from addAtExisting_eq [OF D(1) il d] obtain w where
    q: "addAtExisting p (int i) d = p\<lparr>p_cnt := pack (slot_bytes w) ((slots p)[i := slots p ! i + d]), p_width := w\<rparr>"
    and hq: "holds (addAtExisting p (int i) d) ((slots p)[i := slots p ! i + d])" by blast
  define r where "r = addAtExisting p (int i) d"
  have sl: "slots r = (slots p)[i := slots p ! i + d]" unfolding r_def by (rule slots_holds [OF hq])
  have fr: "p_geom r = p_geom p" "p_idx r = p_idx p" "p_totalCount r = p_totalCount p" "p_size r = p_size p" "lastPos r = lastPos p"
    by (simp_all add: r_def q)
  have "0 < slots p ! i" using wf il by (auto simp: packed_wf_def)
  then have "\<forall>c \<in> set (slots r). 0 < c"
    using wf d set_update_subset_insert [of "slots p" i "slots p ! i + d"] by (fastforce simp: packed_wf_def sl)
  then have "packed_wf r" using wf hq by (simp add: packed_wf_def fr sl flip: r_def)
  moreover have "count_at r = (count_at p)(p_idx p ! i := count_at p (p_idx p ! i) + d)"
    by (rule ext) (simp add: count_at_def fr sl map_of_zip_update [OF D(3,4) i] map_of_zip_hit [OF D(3,4) i])
  ultimately show thesis using sl fr by (intro that [of r]) (simp_all add: r_def)
qed

lemma map_of_zip_insert:
  assumes "length xs = length ys" "k \<notin> set xs" "i \<le> length xs"
  shows "map_of (zip (take i xs @ k # drop i xs) (take i ys @ y # drop i ys)) = (map_of (zip xs ys))(k \<mapsto> y)"
proof -
  have "k \<notin> dom (map_of (zip (take i xs) (take i ys)))"
    using assms by (auto dest: in_set_takeD)
  moreover have "zip xs ys = zip (take i xs) (take i ys) @ zip (drop i xs) (drop i ys)"
    using assms by (simp flip: zip_append)
  ultimately show ?thesis using assms by (simp only: zip_append length_take zip_Cons_Cons map_of_append map_of.simps
        fst_conv snd_conv map_add_upd_left not_False_eq_True)
qed

lemma sparseAdd_insert:
  assumes wf: "packed_wf p" and ci: "0 \<le> ci" "ci < countsLen (p_geom p)" "ci \<notin> set (p_idx p)"
    and d: "0 < d" "d \<le> MaxInt64" and len: "length (p_idx p) < 2147483647"
  obtains q where "sparseAdd p ci d = (int (below (p_idx p) ci), q)" "packed_wf q"
    "p_idx q = take (below (p_idx p) ci) (p_idx p) @ ci # drop (below (p_idx p) ci) (p_idx p)"
    "slots q = take (below (p_idx p) ci) (slots p) @ d # drop (below (p_idx p) ci) (slots p)"
    "p_geom q = p_geom p" "p_totalCount q = p_totalCount p"
proof -
  note D = packed_wfD [OF wf]
  define b where "b = below (p_idx p) ci"
  have lb: "lowerBound p ci = int b" unfolding b_def by (rule lowerBound_below [OF D(1,2)])
  have bl: "b \<le> length (p_idx p)" unfolding b_def by (rule below_le)
  have miss: "\<not> (int b < p_size p \<and> p_idx p ! nat (int b) = ci)"
    using ci(3) D(5) by (auto simp: in_set_conv_nth)
  from widenToFit_eq [OF D(1) d(2)] obtain w where
    w: "widenToFit p d = p\<lparr>p_cnt := pack (slot_bytes w) (slots p), p_width := w\<rparr>" "is_width w" "d \<le> packedWidthMax w"
    "holds (p\<lparr>p_cnt := pack (slot_bytes w) (slots p), p_width := w\<rparr>) (slots p)" by blast
  let ?vs = "take b (slots p) @ d # drop b (slots p)"
  let ?zs = "take b (slots p) @ 0 # drop b (slots p)"
  define q where "q = p\<lparr>p_idx := take b (p_idx p) @ ci # drop b (p_idx p), p_cnt := pack (slot_bytes w) ?vs,
      p_width := w, p_size := p_size p + 1\<rparr>"
  have upd: "?zs[b := d] = ?vs" using bl D(4) by (simp add: list_update_append)
  have zs: "pack (slot_bytes w) ?zs = take (b * slot_bytes w) (pack (slot_bytes w) (slots p)) @ replicate (nat w) 0 @
      drop (b * slot_bytes w) (pack (slot_bytes w) (slots p))"
    unfolding is_width_facts(3) [OF w(2)] by (rule pack_insert [symmetric])
  have sz: "i32 (p_size p + 1) = p_size p + 1" using len D(5) by (intro i32_id) simp_all
  have "sparseAdd p ci d = (int b, slotSet (p\<lparr>p_idx := take b (p_idx p) @ ci # drop b (p_idx p),
      p_cnt := pack (slot_bytes w) ?zs, p_width := w, p_size := p_size p + 1\<rparr>) (int b) d)"
    unfolding sparseAdd_def lb Let_def w(1) zs using miss sz
    by (simp add: slot_offset [OF w(2)]) (cases p, auto)
  also have "\<dots> = (int b, q)"
    using slotSet_eq [of "p\<lparr>p_idx := take b (p_idx p) @ ci # drop b (p_idx p), p_cnt := pack (slot_bytes w) ?zs,
        p_width := w, p_size := p_size p + 1\<rparr>" ?zs b d] w(2) bl D(4) by (simp only: upd) (simp add: q_def upd)
  finally have eq: "sparseAdd p ci d = (int b, q)" .
  have "holds q ?vs"
    using w(2-4) d bl D(4,5) by (auto simp: holds_def q_def dest: in_set_takeD in_set_dropD)
  moreover from this have sl: "slots q = ?vs" by (rule slots_holds)
  moreover have "sorted_wrt (<) (p_idx q)"
    using sorted_insert_below [OF D(2) ci(3)] by (simp add: q_def b_def)
  moreover have "\<forall>i \<in> set (p_idx q). 0 \<le> i \<and> i < countsLen (p_geom q)"
    using wf ci by (auto simp: q_def packed_wf_def dest: in_set_takeD in_set_dropD)
  ultimately have "packed_wf q"
    using wf d by (auto simp: packed_wf_def q_def dest: in_set_takeD in_set_dropD)
  with eq sl show thesis by (intro that [of q]) (simp_all add: q_def b_def)
qed

lemma countsLen_bound:
  assumes "geom_ok h"
  shows "0 < countsLen h" "countsLen h \<le> 8388608"
proof -
  from assms obtain m n where f: "countsLen h = (int n + 1) * 2 ^ m" "n \<le> 63" "m \<le> 17"
    by (metis geom_okE add_leD2)
  then have "(2::int) ^ m \<le> 131072" by (simp add: pow2_17)
  then have "(int n + 1) * 2 ^ m \<le> 64 * 131072" using f by (intro mult_mono) simp_all
  then show "0 < countsLen h" "countsLen h \<le> 8388608" using f by simp_all
qed

lemma packed_length:
  assumes "packed_wf p"
  shows "int (length (p_idx p)) \<le> countsLen (p_geom p)" "length (p_idx p) < 2147483647"
proof -
  have g: "geom_ok (p_geom p)" and r: "set (p_idx p) \<subseteq> {0..<countsLen (p_geom p)}"
    using assms by (auto simp: packed_wf_def)
  have "length (p_idx p) = card (set (p_idx p))" using packed_wfD(3) [OF assms] by (simp add: distinct_card)
  also have "\<dots> \<le> card {0..<countsLen (p_geom p)}" using r by (intro card_mono) simp_all
  finally show "int (length (p_idx p)) \<le> countsLen (p_geom p)" using countsLen_bound [OF g] by simp
  with countsLen_bound [OF g] show "length (p_idx p) < 2147483647" by linarith
qed

lemma sum_insert_at: "sum_list (take b vs @ d # drop b vs) = sum_list vs + (d :: int)"
  using sum_list_append [of "take b vs" "drop b vs"] by simp

text \<open>Adding to a bucket, populated or not, is the update of the sparse map.\<close>

lemma sparseAdd_spec:
  assumes wf: "packed_wf p" and ci: "0 \<le> ci" "ci < countsLen (p_geom p)"
    and d: "0 < d" "count_at p ci + d \<le> MaxInt64"
  obtains pos q where "sparseAdd p ci d = (pos, q)" "packed_wf q" "0 \<le> pos"
    "count_at q = (count_at p)(ci := count_at p ci + d)" "sum_list (slots q) = sum_list (slots p) + d"
    "p_geom q = p_geom p" "p_totalCount q = p_totalCount p" "set (p_idx q) = insert ci (set (p_idx p))"
proof -
  note D = packed_wfD [OF wf]
  let ?b = "below (p_idx p) ci"
  show thesis
  proof (cases "ci \<in> set (p_idx p)")
    case True
    note b = below_hit [OF D(2) True]
    have c: "count_at p ci = slots p ! ?b" using count_at_nth [OF wf b(1)] b(2) by simp
    from addAtExisting_wf [OF wf b(1), of d] d c obtain q where
      q: "addAtExisting p (int ?b) d = q" "packed_wf q" "slots q = (slots p)[?b := slots p ! ?b + d]"
      "count_at q = (count_at p)(ci := count_at p ci + d)" "p_geom q = p_geom p" "p_idx q = p_idx p"
      "p_totalCount q = p_totalCount p" by (metis b(2) less_imp_le)
    have "sparseAdd p ci d = (int ?b, q)"
      using b D(5) q(1) by (simp add: sparseAdd_def lowerBound_below [OF D(1,2)])
    moreover have "sum_list (slots q) = sum_list (slots p) + d"
      using b(1) D(4) by (simp add: q(3) sum_list_update_int)
    ultimately show thesis using q True by (intro that [of "int ?b" q]) auto
  next
    case False
    have "d \<le> MaxInt64" using d count_at_bounds(1) [OF wf, of ci] by simp
    from sparseAdd_insert [OF wf ci False d(1) this packed_length(2) [OF wf]] obtain q where
      q: "sparseAdd p ci d = (int ?b, q)" "packed_wf q"
      "p_idx q = take ?b (p_idx p) @ ci # drop ?b (p_idx p)" "slots q = take ?b (slots p) @ d # drop ?b (slots p)"
      "p_geom q = p_geom p" "p_totalCount q = p_totalCount p" by blast
    have "count_at q = (count_at p)(ci := count_at p ci + d)"
      using map_of_zip_insert [OF D(4) False below_le] count_at_miss [OF wf False]
      by (simp add: count_at_def q(3,4) fun_eq_iff)
    moreover have "set (p_idx q) = insert ci (set (p_idx p))"
    proof -
      have "set (p_idx p) = set (take ?b (p_idx p)) \<union> set (drop ?b (p_idx p))" by (metis append_take_drop_id set_append)
      then show ?thesis unfolding q(3) by simp
    qed
    ultimately show thesis using q sum_insert_at [of ?b "slots p" d] by (intro that [of "int ?b" q]) simp_all
  qed
qed

section \<open>Recording\<close>

definition packed_ok :: "packed \<Rightarrow> bool" where
  "packed_ok p \<longleftrightarrow> packed_wf p \<and> p_totalCount p = min MaxInt64 (sum_list (slots p))"

definition dense_of :: "packed \<Rightarrow> histogram" where
  "dense_of p = (p_geom p)\<lparr>counts := map (\<lambda>k. count_at p (int k)) [0..<nat (countsLen (p_geom p))],
                           totalCount := p_totalCount p\<rparr>"

lemma index_u32:
  assumes g: "geom_ok g" and v: "0 \<le> v" "v \<le> MaxInt64"
  shows "i32 (countsIndexFor g v) = countsIndexFor g v"
    and "u32 (countsIndexFor g v) \<ge> u32 (countsLen g) \<longleftrightarrow> \<not> in_array g v"
proof -
  have i: "0 \<le> countsIndexFor g v" by (rule countsIndexFor_nonneg [OF g v])
  have "countsIndexFor g v \<le> 2147483647" by (simp add: countsIndexFor_def Let_def countsIndex_def i32_def)
  with i have "u32 (countsIndexFor g v) = countsIndexFor g v" "i32 (countsIndexFor g v) = countsIndexFor g v"
    by (auto intro!: u32_id i32_id)
  moreover have "u32 (countsLen g) = countsLen g" using countsLen_bound [OF g] by (intro u32_id) linarith+
  ultimately show "i32 (countsIndexFor g v) = countsIndexFor g v"
    "u32 (countsIndexFor g v) \<ge> u32 (countsLen g) \<longleftrightarrow> \<not> in_array g v" using v by (auto simp: in_array_def)
qed

lemma sum_bounds_packed:
  assumes "packed_wf p"
  shows "0 \<le> sum_list (slots p)" "count_at p k \<le> sum_list (slots p)"
proof -
  have nn: "\<forall>c \<in> set (slots p). 0 \<le> c" using assms by (auto simp: packed_wf_def)
  then show s: "0 \<le> sum_list (slots p)" by (rule sum_list_nonneg_int)
  show "count_at p k \<le> sum_list (slots p)"
  proof (cases "k \<in> set (p_idx p)")
    case True
    then obtain i where "i < length (p_idx p)" "k = p_idx p ! i" by (auto simp: in_set_conv_nth)
    with nth_le_sum_list [OF nn, of i] count_at_nth [OF assms] packed_wfD(4) [OF assms] show ?thesis by simp
  qed (use s count_at_miss [OF assms] in simp)
qed

text \<open>Every outcome of the sparse \<open>RecordValues\<close>: the cached and the searched path agree.\<close>

lemma RecordValues_p_cases:
  assumes ok: "packed_ok p" and v: "v \<le> MaxInt64"
  shows "v < 0 \<Longrightarrow> RecordValues_p p v n = (Some (NegativeValue v), p)"
    and "0 \<le> v \<Longrightarrow> \<not> in_array (p_geom p) v \<Longrightarrow> RecordValues_p p v n = (Some (ValueTooLarge v), p)"
    and "in_array (p_geom p) v \<Longrightarrow> n < 0 \<Longrightarrow> RecordValues_p p v n = (Some (NegativeCount n), p)"
    and "in_array (p_geom p) v \<Longrightarrow> 0 \<le> n \<Longrightarrow> n > MaxInt64 - p_totalCount p \<Longrightarrow>
           RecordValues_p p v n = (Some (TotalOverflow n), p)"
    and "in_array (p_geom p) v \<Longrightarrow> 0 \<le> n \<Longrightarrow> n \<le> MaxInt64 - p_totalCount p \<Longrightarrow>
           \<exists>q. RecordValues_p p v n = (None, q) \<and> packed_ok q \<and> p_geom q = p_geom p \<and>
               p_totalCount q = p_totalCount p + n \<and>
               count_at q = (count_at p)(countsIndexFor (p_geom p) v := count_at p (countsIndexFor (p_geom p) v) + n)"
proof -
  let ?g = "p_geom p"
  have wf: "packed_wf p" and g: "geom_ok ?g" and t: "p_totalCount p = min MaxInt64 (sum_list (slots p))"
    using ok by (auto simp: packed_ok_def packed_wf_def)
  have t0: "0 \<le> p_totalCount p" "p_totalCount p \<le> MaxInt64" using t sum_bounds_packed(1) [OF wf] by auto
  have mt: "i64 (MaxInt64 - p_totalCount p) = MaxInt64 - p_totalCount p" using t0 by (intro i64_id) simp_all
  note ix = index_u32 [OF g _ v]
  note defs = RecordValues_p_def Let_def mt
  show "v < 0 \<Longrightarrow> RecordValues_p p v n = (Some (NegativeValue v), p)" by (simp add: defs)
  show "0 \<le> v \<Longrightarrow> \<not> in_array ?g v \<Longrightarrow> RecordValues_p p v n = (Some (ValueTooLarge v), p)" by (simp add: defs ix)
  show "in_array ?g v \<Longrightarrow> n < 0 \<Longrightarrow> RecordValues_p p v n = (Some (NegativeCount n), p)"
    using ix by (auto simp: defs in_array_def)
  show "in_array ?g v \<Longrightarrow> 0 \<le> n \<Longrightarrow> n > MaxInt64 - p_totalCount p \<Longrightarrow> RecordValues_p p v n = (Some (TotalOverflow n), p)"
    using ix by (auto simp: defs in_array_def)
  assume a: "in_array ?g v" and n: "0 \<le> n" "n \<le> MaxInt64 - p_totalCount p"
  let ?c = "countsIndexFor ?g v"
  from a ix have v0: "0 \<le> v" and c: "i32 ?c = ?c" "\<not> u32 ?c \<ge> u32 (countsLen ?g)" "0 \<le> ?c" "?c < countsLen ?g"
    using countsIndexFor_nonneg [OF g _ v] by (auto simp: in_array_def)
  have tn: "i64 (p_totalCount p + n) = p_totalCount p + n" using t0 n by (intro i64_id) simp_all
  let ?cache = "lastIndex p = ?c \<and> lastPos p < p_size p \<and> p_idx p ! nat (lastPos p) = ?c"
  define q where "q = (if n \<noteq> 0 then if ?cache then addAtExisting p (lastPos p) n
      else (case sparseAdd p ?c n of (pos, r) \<Rightarrow> r\<lparr>lastIndex := ?c, lastPos := pos\<rparr>) else p)"
  have eq: "RecordValues_p p v n = (None, q\<lparr>p_totalCount := i64 (p_totalCount q + n)\<rparr>)"
    using v0 c(2) n unfolding RecordValues_p_def Let_def mt c(1) q_def by auto
  have "packed_wf q \<and> p_geom q = ?g \<and> p_totalCount q = p_totalCount p \<and>
      sum_list (slots q) = sum_list (slots p) + n \<and> count_at q = (count_at p)(?c := count_at p ?c + n)"
  proof (cases "n = 0")
    case True
    then show ?thesis using wf by (simp add: q_def)
  next
    case False
    with n t t0 have fit: "count_at p ?c + n \<le> MaxInt64" "0 < n"
      using sum_bounds_packed(2) [OF wf, of ?c] by auto
    show ?thesis
    proof (cases ?cache)
      case True
      define k where "k = nat (lastPos p)"
      have k: "lastPos p = int k" "k < length (p_idx p)" "p_idx p ! k = ?c"
        using wf True packed_wfD(5) [OF wf] by (auto simp: packed_wf_def k_def)
      from addAtExisting_wf [OF wf k(2), of n] fit count_at_nth [OF wf k(2)] k(3) obtain r where
        "addAtExisting p (int k) n = r" "packed_wf r" "slots r = (slots p)[k := slots p ! k + n]"
        "count_at r = (count_at p)(?c := count_at p ?c + n)" "p_geom r = ?g" "p_totalCount r = p_totalCount p"
        by (metis less_imp_le)
      then show ?thesis using True False k packed_wfD(4) [OF wf] by (simp add: q_def sum_list_update_int)
    next
      case no: False
      from sparseAdd_spec [OF wf c(3,4) fit(2,1)] obtain pos r where
        "sparseAdd p ?c n = (pos, r)" "packed_wf r" "0 \<le> pos"
        "count_at r = (count_at p)(?c := count_at p ?c + n)" "sum_list (slots r) = sum_list (slots p) + n"
        "p_geom r = ?g" "p_totalCount r = p_totalCount p" by blast
      then show ?thesis using no False by (auto simp: q_def)
    qed
  qed
  moreover from this n t tn have "p_totalCount p + n = min MaxInt64 (sum_list (slots q))" by auto
  ultimately show "\<exists>q. RecordValues_p p v n = (None, q) \<and> packed_ok q \<and> p_geom q = p_geom p \<and>
      p_totalCount q = p_totalCount p + n \<and> count_at q = (count_at p)(?c := count_at p ?c + n)"
    using tn unfolding eq
    by (intro exI [of _ "q\<lparr>p_totalCount := i64 (p_totalCount q + n)\<rparr>"]) (simp add: packed_ok_def)
qed

section \<open>Refinement of the dense histogram\<close>

lemma dense_of_simps [simp]:
  "countsIndexFor (dense_of p) v = countsIndexFor (p_geom p) v" "in_array (dense_of p) v = in_array (p_geom p) v"
  "valueFromFlatIndex (dense_of p) i = valueFromFlatIndex (p_geom p) i"
  "lowestEquivalentValue (dense_of p) v = lowestEquivalentValue (p_geom p) v"
  "highestEquivalentValue (dense_of p) v = highestEquivalentValue (p_geom p) v"
  "geom_ok (dense_of p) = geom_ok (p_geom p)" "countsLen (dense_of p) = countsLen (p_geom p)"
  "totalCount (dense_of p) = p_totalCount p"
  by (simp_all add: dense_of_def)

lemma nth_dense_of: "k < nat (countsLen (p_geom p)) \<Longrightarrow> counts (dense_of p) ! k = count_at p (int k)"
  "length (counts (dense_of p)) = nat (countsLen (p_geom p))"
  by (simp_all add: dense_of_def)

lemma count_at_outside: "packed_wf p \<Longrightarrow> k < 0 \<or> countsLen (p_geom p) \<le> k \<Longrightarrow> count_at p k = 0"
  by (rule count_at_miss) (auto simp: packed_wf_def)

lemma sum_count_at:
  assumes wf: "packed_wf p"
  shows "(\<Sum>k\<leftarrow>[0..<nat (countsLen (p_geom p))]. count_at p (int k)) = sum_list (slots p)"
proof -
  note D = packed_wfD [OF wf]
  let ?n = "nat (countsLen (p_geom p))"
  have sub: "set (p_idx p) \<subseteq> int ` {0..<?n}"
  proof
    fix x assume "x \<in> set (p_idx p)"
    then have "0 \<le> x" "x < countsLen (p_geom p)" using wf by (auto simp: packed_wf_def)
    then show "x \<in> int ` {0..<?n}" by (intro image_eqI [of _ _ "nat x"]) auto
  qed
  have "(\<Sum>k\<leftarrow>[0..<?n]. count_at p (int k)) = (\<Sum>k\<in>{0..<?n}. count_at p (int k))"
    by (simp add: sum_list_distinct_conv_sum_set)
  also have "\<dots> = (\<Sum>i\<in>int ` {0..<?n}. count_at p i)" by (simp add: sum.reindex)
  also have "\<dots> = (\<Sum>i\<in>set (p_idx p). count_at p i)"
    using sub count_at_miss [OF wf] by (intro sum.mono_neutral_right) auto
  also have "\<dots> = sum_list (map (count_at p) (p_idx p))" using D(3) by (simp add: sum_list_distinct_conv_sum_set)
  also have "map (count_at p) (p_idx p) = slots p"
    using D(4) count_at_nth [OF wf] by (intro nth_equalityI) auto
  finally show ?thesis .
qed

lemma hist_ok_dense_of:
  assumes "packed_ok p" "sum_list (slots p) \<le> MaxInt64"
  shows "hist_ok (dense_of p)"
proof -
  have wf: "packed_wf p" and g: "geom_ok (p_geom p)" and t: "p_totalCount p = sum_list (slots p)"
    using assms by (auto simp: packed_ok_def packed_wf_def)
  have "sum_list (counts (dense_of p)) = sum_list (slots p)" using sum_count_at [OF wf] by (simp add: dense_of_def)
  moreover have "\<forall>c \<in> set (counts (dense_of p)). 0 \<le> c" using count_at_bounds(1) [OF wf] by (auto simp: dense_of_def)
  ultimately show ?thesis
    using g t assms(2) countsLen_bound(1) [OF g] by (simp add: hist_ok_def nth_dense_of)
qed

lemma counts_dense_update:
  assumes "0 \<le> i" "i < countsLen g"
  shows "map (\<lambda>k. (f(i := x)) (int k)) [0..<nat (countsLen g)] = (map (\<lambda>k. f (int k)) [0..<nat (countsLen g)])[nat i := x]"
  using assms by (intro nth_equalityI) (auto simp: nth_list_update)

lemma RecordValues_dense_of:
  assumes ok: "packed_ok p" and fit: "sum_list (slots p) \<le> MaxInt64" and v: "v \<le> MaxInt64"
  shows "RecordValues (dense_of p) v n = (fst (RecordValues_p p v n), dense_of (snd (RecordValues_p p v n)))"
    and "packed_ok (snd (RecordValues_p p v n))" and "sum_list (slots (snd (RecordValues_p p v n))) \<le> MaxInt64"
proof -
  note h = hist_ok_dense_of [OF ok fit]
  note D = RecordValues_cases [OF h v, of n] and P = RecordValues_p_cases [OF ok v, of n]
  let ?c = "countsIndexFor (p_geom p) v"
  have all: "RecordValues (dense_of p) v n = (fst (RecordValues_p p v n), dense_of (snd (RecordValues_p p v n))) \<and>
      packed_ok (snd (RecordValues_p p v n)) \<and> sum_list (slots (snd (RecordValues_p p v n))) \<le> MaxInt64"
  proof (cases "in_array (p_geom p) v \<and> 0 \<le> n \<and> n \<le> MaxInt64 - p_totalCount p")
    case True
    then have i: "0 \<le> ?c" "?c < countsLen (p_geom p)" "0 \<le> v"
      using in_array_index [OF h, of v] by (auto simp: nth_dense_of in_array_def)
    from P(5) True obtain q where q: "RecordValues_p p v n = (None, q)" "packed_ok q" "p_geom q = p_geom p"
      "p_totalCount q = p_totalCount p + n" "count_at q = (count_at p)(?c := count_at p ?c + n)" by blast
    have c: "counts (dense_of p) ! nat ?c = count_at p ?c" using i by (simp add: nth_dense_of)
    have rq: "RecordValues (dense_of p) v n = (None, dense_of q)"
      using True i D c counts_dense_update [OF i(1,2), of "count_at p" "count_at p ?c + n"]
      by (simp add: dense_of_def q)
    moreover have "sum_list (slots q) \<le> MaxInt64"
    proof -
      have "sum_list (slots q) = sum_list (counts (dense_of q))"
        using q(2) sum_count_at [of q] by (simp add: dense_of_def packed_ok_def)
      also have "\<dots> \<le> MaxInt64" using RecordValues_ok [OF h v, of n] by (simp add: hist_ok_def rq)
      finally show ?thesis .
    qed
    ultimately show ?thesis using q by simp
  next
    case False
    consider "v < 0" | "0 \<le> v" "\<not> in_array (p_geom p) v" | "0 \<le> v" "in_array (p_geom p) v" "n < 0"
      | "0 \<le> v" "in_array (p_geom p) v" "0 \<le> n" "n > MaxInt64 - p_totalCount p"
      using False by linarith
    then show ?thesis using P(1-4) D ok fit by cases (simp_all)
  qed
  then show "RecordValues (dense_of p) v n = (fst (RecordValues_p p v n), dense_of (snd (RecordValues_p p v n)))"
    "packed_ok (snd (RecordValues_p p v n))" "sum_list (slots (snd (RecordValues_p p v n))) \<le> MaxInt64" by simp_all
qed

lemma populated_dense_of:
  assumes wf: "packed_wf p"
  shows "map int (populated (dense_of p)) = p_idx p"
proof -
  have "sorted_wrt (<) (populated (dense_of p))"
    using sorted_populated [of "dense_of p"] by (simp add: strict_sorted_iff)
  then have "sorted_wrt (<) (map int (populated (dense_of p)))" by (simp add: sorted_wrt_map)
  moreover have "set (map int (populated (dense_of p))) = set (p_idx p)"
  proof -
    have p: "k \<in> set (populated (dense_of p)) \<longleftrightarrow> int k < countsLen (p_geom p) \<and> int k \<in> set (p_idx p)" for k
      using count_at_bounds(2) [OF wf, of "int k"] by (auto simp: populated_def nth_dense_of zless_nat_eq_int_zless)
    have "i \<in> int ` set (populated (dense_of p))" if "i \<in> set (p_idx p)" for i
      using that wf by (intro image_eqI [of _ _ "nat i"]) (auto simp: p packed_wf_def)
    then show ?thesis by (auto simp: p)
  qed
  ultimately show ?thesis using packed_wfD(2) [OF wf] by (metis strict_sorted_equal)
qed

lemma highestEquivalent_eq:
  assumes g: "geom_ok (p_geom p)" and v: "0 \<le> v" "v \<le> MaxInt64"
  shows "highestEquivalent p v = highestEquivalentValue (p_geom p) v"
proof -
  note r = value_in_range [OF g v]
  let ?l = "lowestEquivalentValue (p_geom p) v" and ?s = "sizeOfEquivalentValueRange (p_geom p) v"
  have m: "i64 (MaxInt64 - ?s) = MaxInt64 - ?s" using r by (intro i64_id) linarith+
  show ?thesis
  proof (cases "?l > MaxInt64 - ?s")
    case True
    then show ?thesis using r m by (simp add: highestEquivalent_def Let_def)
  next
    case False
    then have "i64 (?l + ?s) = ?l + ?s" "i64 (?l + ?s - 1) = ?l + ?s - 1" using r by (auto intro!: i64_id)
    with False show ?thesis using r m by (simp add: highestEquivalent_def Let_def)
  qed
qed

lemma packed_extrema:
  assumes ok: "packed_ok p" and fit: "sum_list (slots p) \<le> MaxInt64"
  shows "Max_h (dense_of p) = Inr (Max_p p)" and "Min_h (dense_of p) = Inr (Min_p p)"
proof -
  have wf: "packed_wf p" and g: "geom_ok (p_geom p)" using ok by (auto simp: packed_ok_def packed_wf_def)
  note h = hist_ok_dense_of [OF ok fit] and idx = populated_dense_of [OF wf] and D = packed_wfD [OF wf]
  have emp: "populated (dense_of p) = [] \<longleftrightarrow> p_size p = 0" using idx D(5) by auto
  have r: "0 \<le> valueFromFlatIndex (p_geom p) i \<and> valueFromFlatIndex (p_geom p) i \<le> MaxInt64"
    if "i \<in> set (p_idx p)" for i
    using that wf by (intro buckets.low_range [OF g]) (auto simp: packed_wf_def)
  show "Max_h (dense_of p) = Inr (Max_p p)"
  proof (cases "p_size p = 0")
    case True
    then show ?thesis using emp by (simp add: Max_h_eq [OF h] Max_p_def highestEquivalent_eq [OF g])
  next
    case False
    then have ne: "p_idx p \<noteq> []" "populated (dense_of p) \<noteq> []" using emp D(5) by auto
    have "int (last (populated (dense_of p))) = last (p_idx p)" using ne idx by (metis last_map)
    moreover have "nat (p_size p - 1) = length (p_idx p) - 1" using D(5) by simp
    then have "p_idx p ! nat (p_size p - 1) = last (p_idx p)" using ne by (simp add: last_conv_nth)
    ultimately show ?thesis using False ne r [OF last_in_set [OF ne(1)]]
      by (simp add: Max_h_eq [OF h] Max_p_def highestEquivalent_eq [OF g])
  qed
  show "Min_h (dense_of p) = Inr (Min_p p)"
  proof (cases "p_size p = 0")
    case True
    then show ?thesis using emp by (simp add: Min_h_eq [OF h] Min_p_def)
  next
    case False
    then have ne: "p_idx p \<noteq> []" "populated (dense_of p) \<noteq> []" using emp D(5) by auto
    have "int (hd (populated (dense_of p))) = hd (p_idx p)" using ne idx by (metis hd_map)
    then show ?thesis using False ne by (simp add: Min_h_eq [OF h] Min_p_def hd_conv_nth)
  qed
qed

lemma CountAtValue_eq:
  assumes wf: "packed_wf p" and v: "v \<le> MaxInt64"
  shows "CountAtValue p v = (if in_array (p_geom p) v then count_at p (countsIndexFor (p_geom p) v) else 0)"
proof (cases "0 \<le> v")
  case True
  let ?c = "countsIndexFor (p_geom p) v"
  have g: "geom_ok (p_geom p)" using wf by (simp add: packed_wf_def)
  note D = packed_wfD [OF wf] and ix = index_u32(1) [OF g True v] and nn = countsIndexFor_nonneg [OF g True v]
  show ?thesis
  proof (cases "in_array (p_geom p) v \<and> ?c \<in> set (p_idx p)")
    case hit: True
    note b = below_hit [OF D(2)]
    show ?thesis
      using hit True nn ix b [of ?c] D(5) count_at_nth [OF wf b(1), of ?c] slotGet_nth [OF D(1)] D(4)
      by (simp add: CountAtValue_def Let_def lowerBound_below [OF D(1,2)] in_array_def)
  next
    case False
    then have "?c \<notin> set (p_idx p) \<or> \<not> in_array (p_geom p) v" by blast
    then show ?thesis
      using True nn ix v D(5) count_at_miss [OF wf, of ?c] below_le [of "p_idx p" ?c]
      by (auto simp: CountAtValue_def Let_def lowerBound_below [OF D(1,2)] in_array_def in_set_conv_nth)
  qed
qed (simp add: CountAtValue_def Let_def in_array_def)

section \<open>The sparse histogram as a recorder\<close>

interpretation sparse: recorder packed_ok RecordValues_p "\<lambda>p. countsIndexFor (p_geom p)"
  "\<lambda>p. in_array (p_geom p)" count_at p_totalCount
proof
  fix p v n q e
  assume p: "packed_ok p" and v: "v \<le> MaxInt64"
  note c = RecordValues_p_cases [OF p v, of n]
  let ?fits = "in_array (p_geom p) v \<and> 0 \<le> n \<and> n \<le> MaxInt64 - p_totalCount p"
  have err: "\<exists>e. RecordValues_p p v n = (Some e, p)" if "\<not> ?fits"
    using that c(1-4) by (cases "v < 0"; cases "in_array (p_geom p) v"; cases "n < 0") (auto simp: in_array_def)
  {
    assume r: "RecordValues_p p v n = (None, q)"
    then have ?fits using err by fastforce
    with c(5) r show "packed_ok q \<and> in_array (p_geom p) v \<and> 0 \<le> n \<and> p_totalCount q = p_totalCount p + n \<and>
        countsIndexFor (p_geom q) = countsIndexFor (p_geom p) \<and> in_array (p_geom q) = in_array (p_geom p) \<and>
        count_at q = (count_at p)(countsIndexFor (p_geom p) v := count_at p (countsIndexFor (p_geom p) v) + n)"
      by auto
  next
    assume r: "RecordValues_p p v n = (Some e, q)"
    then have "\<not> ?fits" using c(5) by fastforce
    with err r show "q = p" by fastforce
  next
    assume "in_array (p_geom p) v" "0 \<le> n" "n \<le> MaxInt64 - p_totalCount p"
    with c(5) show "fst (RecordValues_p p v n) = None" by auto
  }
qed

lemma NewPacked_ok:
  assumes "geom_ok g" "totalCount g = 0"
  shows "packed_ok \<lparr>p_geom = g, p_idx = [], p_cnt = [], p_width = 1, p_size = 0, p_totalCount = 0, lastIndex = 0, lastPos = 0\<rparr>"
    and "dense_of \<lparr>p_geom = g, p_idx = [], p_cnt = [], p_width = 1, p_size = 0, p_totalCount = 0, lastIndex = 0, lastPos = 0\<rparr> =
         g\<lparr>counts := replicate (nat (countsLen g)) 0\<rparr>"
proof -
  let ?p = "\<lparr>p_geom = g, p_idx = [], p_cnt = [], p_width = 1, p_size = 0, p_totalCount = 0, lastIndex = 0, lastPos = 0\<rparr>"
  have s: "slots ?p = []" by (simp add: slots_def)
  then show "packed_ok ?p" using assms(1) by (simp add: packed_ok_def packed_wf_def holds_def is_width_def)
  have "map (\<lambda>k. count_at ?p (int k)) [0..<n] = replicate n 0" for n
    by (simp add: count_at_def s map_replicate_const)
  then show "dense_of ?p = g\<lparr>counts := replicate (nat (countsLen g)) 0\<rparr>"
    using assms(2) by (cases g) (simp add: dense_of_def)
qed

section \<open>A sample\<close>

definition sample_packed :: packed where
  "sample_packed = \<lparr>p_geom = sample_geometry, p_idx = [5, 51], p_cnt = [44, 1, 2, 0], p_width = 2, p_size = 2,
     p_totalCount = 302, lastIndex = 5, lastPos = 0\<rparr>"

definition sample_empty :: packed where
  "sample_empty = \<lparr>p_geom = sample_geometry, p_idx = [], p_cnt = [], p_width = 1, p_size = 0,
     p_totalCount = 0, lastIndex = 0, lastPos = 0\<rparr>"

lemma sample_packed_ok: "packed_ok sample_packed" "sum_list (slots sample_packed) = 302"
  "slots sample_packed = [300, 2]"
proof -
  show s: "slots sample_packed = [300, 2]" by code_simp
  then show "sum_list (slots sample_packed) = 302" by simp
  moreover have "p_cnt sample_packed = pack (slot_bytes (p_width sample_packed)) [300, 2]" by code_simp
  ultimately show "packed_ok sample_packed"
    unfolding packed_ok_def packed_wf_def holds_def s
    by (simp add: sample_packed_def sample_geometry_ok is_width_def packedWidthMax_def) (simp add: sample_geometry_def)
qed

lemma widenToFit_ok:
  assumes "packed_wf p" "need \<le> MaxInt64"
  shows "slots (widenToFit p need) = slots p \<and> p_totalCount (widenToFit p need) = p_totalCount p \<and> packed_wf (widenToFit p need) \<and>
         need \<le> packedWidthMax (p_width (widenToFit p need)) \<and> p_width p \<le> p_width (widenToFit p need) \<and>
         (p_width (widenToFit p need) = p_width p \<or> packedWidthMax (p_width (widenToFit p need) div 2) < need)"
proof -
  note D = packed_wfD [OF assms(1)]
  from widenToFit_eq [OF D(1) assms(2)] obtain w where
    w: "widenToFit p need = p\<lparr>p_cnt := pack (slot_bytes w) (slots p), p_width := w\<rparr>" "is_width w"
    "need \<le> packedWidthMax w" "p_width p \<le> w" "holds (p\<lparr>p_cnt := pack (slot_bytes w) (slots p), p_width := w\<rparr>) (slots p)"
    by blast
  have sl: "slots (widenToFit p need) = slots p" unfolding w(1) by (rule slots_holds [OF w(5)])
  moreover have "packed_wf (widenToFit p need)" using assms(1) w sl by (simp add: packed_wf_def)
  moreover have "p_width (widenToFit p need) = widen_width need (p_width p)"
    by (simp add: widenToFit_def Let_def)
  moreover have "widen_width need (p_width p) = p_width p \<or> packedWidthMax (widen_width need (p_width p) div 2) < need"
    using assms(1) by (intro widen_width_least) (simp add: packed_wf_def holds_def)
  ultimately show ?thesis using w by simp
qed

section \<open>Properties\<close>

text \<open>C13: The sparse histogram refines the dense one. Recording into a sparse histogram, through
  the cached or the searched path and whatever widening it needs, gives the outcome that
  recording into the dense histogram it stands for gives: the same error or none, and the same
  counts and total. The representation invariant is kept.\<close>

theorem packed_record_refines:
  assumes "packed_ok p" "sum_list (slots p) \<le> MaxInt64" "v \<le> MaxInt64"
  shows "RecordValues (dense_of p) v n = (fst (RecordValues_p p v n), dense_of (snd (RecordValues_p p v n))) \<and>
         packed_ok (snd (RecordValues_p p v n)) \<and> sum_list (slots (snd (RecordValues_p p v n))) \<le> MaxInt64"
  using RecordValues_dense_of [OF assms] by simp

theorem packed_record_refines_witness:
  "RecordValues (dense_of sample_packed) 77 70000 =
     (None, dense_of (snd (RecordValues_p sample_packed 77 70000))) \<and>
   p_width (snd (RecordValues_p sample_packed 77 70000)) = 4"
proof -
  have "fst (RecordValues_p sample_packed 77 70000) = None" "p_width (snd (RecordValues_p sample_packed 77 70000)) = 4"
    by code_simp+
  with packed_record_refines [OF sample_packed_ok(1), of 77 70000] show ?thesis by (simp add: sample_packed_ok(2))
qed

text \<open>A new sparse histogram stands for the new dense one, with the same panic on a geometry
  that cannot be represented.\<close>

theorem NewPacked_refines:
  assumes "log2_ok lg" "lo \<le> MaxInt64" "hi \<le> MaxInt64"
  shows "case NewPacked lg lo hi d of
           Inl e \<Rightarrow> New lg lo hi d = Inl e
         | Inr p \<Rightarrow> New lg lo hi d = Inr (dense_of p) \<and> packed_ok p \<and> sum_list (slots p) = 0"
proof -
  obtain lo' d' where c: "clampGeometryArgs lo d = (lo', d')" by fastforce
  from newGeometry_cases [OF assms c] show ?thesis
  proof
    assume "\<exists>h. newGeometry lg lo hi d = Inr h \<and> geometry_of lg lo' hi d' h"
    then obtain g where g: "newGeometry lg lo hi d = Inr g" "geom_ok g" "totalCount g = 0"
      by (auto simp: geometry_of_def)
    then show ?thesis using NewPacked_ok [OF g(2,3)] by (simp add: NewPacked_def New_def slots_def)
  qed (simp add: NewPacked_def New_def)
qed

theorem NewPacked_refines_witness:
  "New floor_log2 1 100 1 = Inr (dense_of sample_empty) \<and> packed_ok sample_empty"
proof -
  have "NewPacked floor_log2 1 100 1 = Inr sample_empty"
    by (simp add: NewPacked_def sample_geometry_new sample_empty_def)
  with NewPacked_refines [OF log2_ok_floor_log2, of 1 100 1] show ?thesis by simp
qed

text \<open>C14: The sparse queries return what the dense ones return on the histogram it stands for:
  the maximum, the minimum, and the count of the bucket of any value, zero out of range.\<close>

theorem packed_queries_refine:
  assumes "packed_ok p" "sum_list (slots p) \<le> MaxInt64" "v \<le> MaxInt64"
  shows "Max_h (dense_of p) = Inr (Max_p p) \<and> Min_h (dense_of p) = Inr (Min_p p) \<and>
         CountAtValue p v = (if in_array (dense_of p) v
           then counts (dense_of p) ! nat (countsIndexFor (dense_of p) v) else 0)"
proof -
  have wf: "packed_wf p" using assms(1) by (simp add: packed_ok_def)
  have "counts (dense_of p) ! nat (countsIndexFor (p_geom p) v) = count_at p (countsIndexFor (p_geom p) v)"
    if "in_array (p_geom p) v"
    using in_array_index [OF hist_ok_dense_of [OF assms(1,2)], of v] that by (simp add: nth_dense_of)
  with packed_extrema [OF assms(1,2)] CountAtValue_eq [OF wf assms(3)] show ?thesis by simp
qed

theorem packed_queries_refine_witness:
  "Max_h (dense_of sample_packed) = Inr 79 \<and> Min_h (dense_of sample_packed) = Inr 5 \<and>
   counts (dense_of sample_packed) ! 51 = 2"
proof -
  have "Max_p sample_packed = 79" "Min_p sample_packed = 5" "CountAtValue sample_packed 77 = 2"
    "in_array (dense_of sample_packed) 77" "countsIndexFor (dense_of sample_packed) 77 = 51" by code_simp+
  with packed_queries_refine [OF sample_packed_ok(1), of 77] show ?thesis by (simp add: sample_packed_ok(2))
qed

text \<open>Widening keeps every count. It re-packs the counts at the narrowest of the widths
  from the current one on that holds the required count.\<close>

theorem widenToFit_keeps_counts:
  assumes "packed_wf p" "need \<le> MaxInt64"
  shows "slots (widenToFit p need) = slots p \<and> packed_wf (widenToFit p need) \<and>
         need \<le> packedWidthMax (p_width (widenToFit p need)) \<and> p_width p \<le> p_width (widenToFit p need) \<and>
         (p_width (widenToFit p need) = p_width p \<or> packedWidthMax (p_width (widenToFit p need) div 2) < need)"
  using widenToFit_ok [OF assms] by simp

theorem widenToFit_keeps_counts_witness:
  "slots (widenToFit sample_packed 70000) = [300, 2] \<and> 70000 \<le> packedWidthMax (p_width (widenToFit sample_packed 70000))"
  using widenToFit_keeps_counts [of sample_packed 70000] sample_packed_ok by (simp add: packed_ok_def)

text \<open>The binary search returns the number of smaller indices, which is the position of the
  key when it is present and its insertion point otherwise.\<close>

theorem lowerBound_correct:
  assumes "packed_wf p"
  shows "0 \<le> lowerBound p key \<and> lowerBound p key \<le> p_size p \<and>
         (\<forall>k < length (p_idx p). p_idx p ! k < key \<longleftrightarrow> int k < lowerBound p key)"
  using lowerBound_below [OF packed_wfD(1,2) [OF assms]] below_le [of "p_idx p" key] packed_wfD(5) [OF assms]
    sorted_nth_less_iff [OF packed_wfD(2) [OF assms]] by simp

theorem lowerBound_correct_witness:
  "0 \<le> lowerBound sample_packed 51 \<and> lowerBound sample_packed 51 \<le> p_size sample_packed \<and>
   (p_idx sample_packed ! 0 < 51 \<longleftrightarrow> 0 < lowerBound sample_packed 51) \<and>
   (p_idx sample_packed ! 1 < 51 \<longleftrightarrow> 1 < lowerBound sample_packed 51)"
proof -
  have l: "0 < length (p_idx sample_packed)" "1 < length (p_idx sample_packed)" by code_simp+
  have "packed_wf sample_packed" using sample_packed_ok(1) by (simp add: packed_ok_def)
  note t = lowerBound_correct [OF this, of 51]
  have "p_idx sample_packed ! k < 51 \<longleftrightarrow> int k < lowerBound sample_packed 51" if "k < length (p_idx sample_packed)" for k
    using t that by blast
  from this [OF l(1)] this [OF l(2)] t show ?thesis by simp
qed

text \<open>After any sequence of recordings in range whose counts fit in the total, every bucket
  of a sparse histogram holds its old count plus the counts recorded for its values, and the
  total grows by their sum; the order of the recordings does not matter.\<close>

theorem packed_recordings_counted:
  assumes "packed_ok p" "\<forall>(v, n) \<in> set ps. v \<le> MaxInt64 \<and> in_array (p_geom p) v \<and> 0 \<le> n"
    "p_totalCount p + sum_list (map snd ps) \<le> MaxInt64" "mset qs = mset ps"
  shows "packed_ok (record_all RecordValues_p p ps) \<and>
         p_totalCount (record_all RecordValues_p p ps) = p_totalCount p + sum_list (map snd ps) \<and>
         (\<forall>k. count_at (record_all RecordValues_p p ps) k =
              count_at p k + (\<Sum>(v, n)\<leftarrow>ps. if countsIndexFor (p_geom p) v = k then n else 0)) \<and>
         count_at (record_all RecordValues_p p qs) = count_at (record_all RecordValues_p p ps)"
  using sparse.record_all_counts [OF assms(1-3)] sparse.record_all_perm [OF assms] by simp

theorem packed_recordings_counted_witness:
  "count_at (record_all RecordValues_p sample_packed [(77, 3), (6, 1)]) 51 = 5 \<and>
   count_at (record_all RecordValues_p sample_packed [(6, 1), (77, 3)]) 51 = 5"
proof -
  have i: "\<forall>(v, n) \<in> set [(77, 3 :: int), (6, 1)]. v \<le> MaxInt64 \<and> in_array (p_geom sample_packed) v \<and> 0 \<le> n"
    "p_totalCount sample_packed + sum_list (map snd [(77 :: int, 3), (6, 1)]) \<le> MaxInt64"
    "count_at sample_packed 51 + (\<Sum>(v, n)\<leftarrow>[(77, 3), (6, 1)]. if countsIndexFor (p_geom sample_packed) v = 51 then n else 0) = 5"
    by code_simp+
  have "mset [(6, 1), (77, 3)] = mset [(77::int, 3::int), (6, 1)]" by simp
  from packed_recordings_counted [OF sample_packed_ok(1) i(1,2) this] i(3) show ?thesis by simp
qed

end
