(* ===== verification/Packed_Window_Spec.thy ===== *)
theory Packed_Window_Spec
  imports Packed_Window
begin

text \<open>
  Correctness of the window methods of the sparse histogram. Every merge is related to the merge
  of the dense histograms involved, \<open>foldl merge_pair\<close> over the populated buckets of the source.
  The fast path of \<open>Merge_p\<close> is proved against the merge of two sorted association lists.
\<close>

section \<open>Merging with a dense histogram\<close>

lemma sameIndexing_index:
  assumes "geom_ok g" "geom_ok f" "sameIndexing g f"
  shows "countsIndexFor g v = countsIndexFor f v" "valueFromFlatIndex g i = valueFromFlatIndex f i"
proof -
  have "unitMagnitude g = unitMagnitude f" "subBucketHalfCountMagnitude g = subBucketHalfCountMagnitude f"
    "subBucketHalfCount g = subBucketHalfCount f" "subBucketMask g = subBucketMask f" "subBucketCount g = subBucketCount f"
    using assms by (auto simp: geom_ok_def sameIndexing_def)
  then show "countsIndexFor g v = countsIndexFor f v" "valueFromFlatIndex g i = valueFromFlatIndex f i"
    by (simp_all add: geometry_defs Let_def)
qed

text \<open>Both ways the code computes the index of a source bucket in the target.\<close>

lemma bucket_index:
  assumes g: "geom_ok g" and f: "geom_ok f" and i: "0 \<le> i" "i < countsLen f"
  shows "sameIndexing g f \<Longrightarrow> i = countsIndexFor g (valueFromFlatIndex f i)"
    and "i32 (countsIndexFor g (valueFromFlatIndex f i)) = countsIndexFor g (valueFromFlatIndex f i)"
    and "i32 i = i"
proof -
  note v = buckets.low_range [OF f i]
  show "i = countsIndexFor g (valueFromFlatIndex f i)" if "sameIndexing g f"
    using sameIndexing_index(1) [OF g f that] buckets.index_low [OF f i] by simp
  show "i32 (countsIndexFor g (valueFromFlatIndex f i)) = countsIndexFor g (valueFromFlatIndex f i)"
    using index_u32(1) [OF g] v by simp
  show "i32 i = i" using i countsLen_bound(2) [OF f] by (intro i32_id) linarith+
qed

lemma setCountAtIndex_record:
  assumes h: "hist_ok h" and v: "0 \<le> v" "v \<le> MaxInt64" and c: "0 \<le> c"
  shows "merge_pair (d, h) (v, c) =
    (if in_array h v \<and> c \<le> MaxInt64 - totalCount h then (d, setCountAtIndex h (countsIndexFor h v) c)
     else (addDropped d c, h))"
proof (cases "in_array h v \<and> c \<le> MaxInt64 - totalCount h")
  case True
  note i = in_array_index [OF h conjunct1 [OF True]]
  have "setCountAtIndex h (countsIndexFor h v) c =
      h\<lparr>counts := (counts h)[nat (countsIndexFor h v) := counts h ! nat (countsIndexFor h v) + c],
        totalCount := totalCount h + c\<rparr>"
    using setCountAtIndex_eq(1) [OF h i(3) c] True i(1) by simp
  then have "RecordValues h v c = (None, setCountAtIndex h (countsIndexFor h v) c)"
    unfolding RecordValues_cases [OF h v(2)] using True c v by (simp only: not_less [symmetric] if_False not_True_eq_False)
  then show ?thesis using True by (simp add: merge_pair_def)
next
  case False
  then have "\<exists>e. RecordValues h v c = (Some e, h)"
    using c v unfolding RecordValues_cases [OF h v(2)] by (simp add: not_less) blast
  then show ?thesis using False by (auto simp: merge_pair_def)
qed

lemma merge_pair_ok: "hist_ok h \<Longrightarrow> v \<le> MaxInt64 \<Longrightarrow> hist_ok (snd (merge_pair (d, h) (v, c)))"
  using RecordValues_ok [of h v c] by (auto simp: merge_pair_def split: prod.split option.split)

lemma merge_pair_config: "hist_ok h \<Longrightarrow> v \<le> MaxInt64 \<Longrightarrow> config (snd (merge_pair (d, h) (v, c))) = config h"
  using RecordValues_cases [of h v c] by (simp add: merge_pair_def)

definition entries :: "packed \<Rightarrow> (int \<times> int) list" where
  "entries p = zip (p_idx p) (slots p)"

lemma entries_nth:
  assumes "packed_wf p"
  shows "entries p = map (\<lambda>i. (p_idx p ! i, slotGet p (int i))) [0..<nat (p_size p)]"
  using packed_wfD(4,5) [OF assms] slotGet_nth [OF packed_wfD(1) [OF assms]]
  by (intro nth_equalityI) (auto simp: entries_def)

lemma entries_range:
  assumes "packed_wf p" "(i, c) \<in> set (entries p)"
  shows "0 \<le> i" "i < countsLen (p_geom p)" "0 < c" "c \<le> MaxInt64"
proof -
  from assms(2) have m: "i \<in> set (p_idx p)" "c \<in> set (slots p)" by (auto simp: entries_def dest: set_zip_leftD set_zip_rightD)
  have "is_width (p_width p)" using assms(1) by (simp add: packed_wf_def holds_def)
  from packedWidthMax_bounds(2) [OF this] m assms(1)
  show "0 \<le> i" "i < countsLen (p_geom p)" "0 < c" "c \<le> MaxInt64" by (auto simp: packed_wf_def holds_def)
qed

text \<open>The populated buckets of the dense equivalent are the entries, at their values.\<close>

lemma buckets_of_dense_of:
  assumes wf: "packed_wf p"
  shows "buckets_of (dense_of p) = map (\<lambda>(i, c). (valueFromFlatIndex (p_geom p) i, c)) (entries p)"
proof -
  have "buckets_of (dense_of p) = map (\<lambda>k. (valueFromFlatIndex (p_geom p) (int k), count_at p (int k))) (populated (dense_of p))"
    by (auto simp: buckets_of_def populated_def nth_dense_of)
  also have "\<dots> = map (\<lambda>i. (valueFromFlatIndex (p_geom p) i, count_at p i)) (p_idx p)"
    by (simp flip: populated_dense_of [OF wf])
  also have "\<dots> = map (\<lambda>(i, c). (valueFromFlatIndex (p_geom p) i, c)) (entries p)"
    using packed_wfD(4) [OF wf] count_at_nth [OF wf] by (intro nth_equalityI) (auto simp: entries_def)
  finally show ?thesis .
qed

lemma into_step:
  assumes wf: "packed_wf p" and h: "hist_ok h" and i: "i < nat (p_size p)"
  shows "(if sameIndexing (p_geom p) h then into_same p else into_other p) (d, h) i =
         merge_pair (d, h) (valueFromFlatIndex (p_geom p) (p_idx p ! i), slotGet p (int i))"
proof -
  let ?k = "p_idx p ! i" and ?c = "slotGet p (int i)" and ?v = "valueFromFlatIndex (p_geom p) (p_idx p ! i)"
  have e: "(?k, ?c) \<in> set (entries p)" using i by (auto simp: entries_nth [OF wf])
  note r = entries_range [OF wf e]
  have f: "geom_ok (p_geom p)" and g: "geom_ok h" using wf h by (auto simp: packed_wf_def hist_ok_def)
  note v = buckets.low_range [OF f r(1,2)]
  have t: "i64 (MaxInt64 - totalCount h) = MaxInt64 - totalCount h"
    using h hist_ok_total [OF h] by (intro i64_id) (simp_all add: hist_ok_def)
  have k: "countsIndexFor h ?v = ?k" if "sameIndexing (p_geom p) h"
    using bucket_index(1) [OF g f r(1,2)] that by (simp add: sameIndexing_def)
  have len: "int (length (counts h)) = countsLen h" using h by (simp add: hist_ok_def)
  have ia: "in_array h ?v \<longleftrightarrow> countsIndexFor h ?v < int (length (counts h))" using v len by (auto simp: in_array_def)
  have u: "u64 (countsIndexFor h ?v) < int (length (counts h)) \<longleftrightarrow> in_array h ?v"
    using index_check [OF g len, of ?v] v by auto
  show ?thesis
    using setCountAtIndex_record [OF h _ _ less_imp_le [OF r(3)], of ?v d] v k ia u
    by (auto simp: into_same_def into_other_def Let_def t)
qed

lemma MergeInto_fold:
  assumes wf: "packed_wf p" and h: "hist_ok dst"
  shows "MergeInto p dst = foldl merge_pair (0, dst) (buckets_of (dense_of p))"
proof -
  let ?v = "\<lambda>i. (valueFromFlatIndex (p_geom p) (p_idx p ! i), slotGet p (int i))"
  have val: "fst (?v i) \<le> MaxInt64" if "i < nat (p_size p)" for i
  proof -
    have "(p_idx p ! i, slotGet p (int i)) \<in> set (entries p)" using that by (auto simp: entries_nth [OF wf])
    from entries_range [OF wf this] show ?thesis using buckets.low_range [of "p_geom p"] wf by (simp add: packed_wf_def)
  qed
  have "hist_ok h' \<Longrightarrow> sameIndexing (p_geom p) h' = sameIndexing (p_geom p) dst \<Longrightarrow> set is \<subseteq> {..<nat (p_size p)} \<Longrightarrow>
      foldl (if sameIndexing (p_geom p) dst then into_same p else into_other p) (d, h') is = foldl merge_pair (d, h') (map ?v is)" for d h' "is"
  proof (induction "is" arbitrary: d h')
    case (Cons i "is")
    then have i: "i < nat (p_size p)" by simp
    note st = into_step [OF wf Cons.prems(1) i, of d]
    obtain d1 h1 where m: "merge_pair (d, h') (?v i) = (d1, h1)" by fastforce
    have "hist_ok h1" "config h1 = config h'"
      using merge_pair_ok [OF Cons.prems(1), of "fst (?v i)" d "snd (?v i)"]
        merge_pair_config [OF Cons.prems(1), of "fst (?v i)" d "snd (?v i)"] val [OF i] m by simp_all
    moreover from this(2) have "sameIndexing (p_geom p) h1 = sameIndexing (p_geom p) h'"
      using config_same_geom [of h1 h'] by (simp add: same_geom_def sameIndexing_def)
    ultimately show ?case using Cons st m by simp
  qed simp
  from this [of dst "[0..<nat (p_size p)]" 0] h show ?thesis
    by (simp add: MergeInto_def buckets_of_dense_of [OF wf] entries_nth [OF wf] o_def atLeast0LessThan)
qed

section \<open>Merging into the sparse histogram\<close>

lemma add_bucket_refines:
  assumes ok: "packed_ok p" and fit: "sum_list (slots p) \<le> MaxInt64" and v: "0 \<le> v" "v \<le> MaxInt64" and c: "0 < c"
  obtains d' q where "add_bucket (d, p) (countsIndexFor (p_geom p) v) c = (d', q)"
    "merge_pair (d, dense_of p) (v, c) = (d', dense_of q)" "packed_ok q" "sum_list (slots q) \<le> MaxInt64" "p_geom q = p_geom p"
proof -
  have wf: "packed_wf p" and g: "geom_ok (p_geom p)" and t: "p_totalCount p = sum_list (slots p)"
    using ok fit by (auto simp: packed_ok_def packed_wf_def)
  note h = hist_ok_dense_of [OF ok fit] and s0 = sum_bounds_packed [OF wf]
  let ?ci = "countsIndexFor (p_geom p) v"
  have mt: "i64 (MaxInt64 - p_totalCount p) = MaxInt64 - p_totalCount p" using t fit s0(1) by (intro i64_id) simp_all
  note u = index_u32(2) [OF g v]
  show thesis
  proof (cases "in_array (p_geom p) v \<and> c \<le> MaxInt64 - p_totalCount p")
    case True
    have ci: "0 \<le> ?ci" "?ci < countsLen (p_geom p)" using True countsIndexFor_nonneg [OF g v] by (auto simp: in_array_def)
    have cc: "count_at p ?ci + c \<le> MaxInt64" using True t s0(2) [of ?ci] by linarith
    from sparseAdd_spec [OF wf ci c cc] obtain pos q where
      q: "sparseAdd p ?ci c = (pos, q)" "packed_wf q" "count_at q = (count_at p)(?ci := count_at p ?ci + c)"
      "sum_list (slots q) = sum_list (slots p) + c" "p_geom q = p_geom p" "p_totalCount q = p_totalCount p" by blast
    have tn: "i64 (p_totalCount q + c) = p_totalCount p + c" using True t s0(1) c q(6) by (simp add: i64_id)
    let ?q = "q\<lparr>p_totalCount := p_totalCount p + c\<rparr>"
    have a: "add_bucket (d, p) ?ci c = (d, ?q)" using True u q(1) tn by (simp add: add_bucket_def mt)
    have dq: "dense_of ?q = (dense_of p)\<lparr>counts := (counts (dense_of p))[nat ?ci := counts (dense_of p) ! nat ?ci + c],
        totalCount := totalCount (dense_of p) + c\<rparr>"
      using counts_dense_update [OF ci, of "count_at p" "count_at p ?ci + c"] ci
      by (simp add: dense_of_def q(3,5))
    have "merge_pair (d, dense_of p) (v, c) = (d, dense_of ?q)"
      using True v c unfolding merge_pair_def dq by (simp add: RecordValues_cases [OF h v(2)])
    moreover have "packed_ok ?q" "sum_list (slots ?q) \<le> MaxInt64"
      using q True t by (simp_all add: packed_ok_def)
    ultimately show thesis using a q(5) by (intro that [of d ?q]) simp_all
  next
    case False
    then have "merge_pair (d, dense_of p) (v, c) = (addDropped d c, dense_of p)"
      using setCountAtIndex_record [OF h v less_imp_le [OF c], of d] by auto
    moreover have "add_bucket (d, p) ?ci c = (addDropped d c, p)" using False u by (auto simp: add_bucket_def mt)
    ultimately show thesis using ok fit by (intro that [of "addDropped d c" p]) simp_all
  qed
qed

text \<open>A loop over source buckets, given by their values, that adds each as above.\<close>

lemma add_buckets_refine:
  assumes "packed_ok p" "sum_list (slots p) \<le> MaxInt64"
    and vs: "\<And>x. x \<in> set xs \<Longrightarrow> 0 \<le> fst (b x) \<and> fst (b x) \<le> MaxInt64 \<and> 0 < snd (b x)"
    and step: "\<And>x d q. x \<in> set xs \<Longrightarrow> p_geom q = p_geom p \<Longrightarrow>
      f (d, q) x = add_bucket (d, q) (countsIndexFor (p_geom q) (fst (b x))) (snd (b x))"
  obtains d' q where "foldl f (d, p) xs = (d', q)" "foldl merge_pair (d, dense_of p) (map b xs) = (d', dense_of q)"
    "packed_ok q" "sum_list (slots q) \<le> MaxInt64" "p_geom q = p_geom p"
proof -
  have "\<exists>d' q. foldl f (d, p) xs = (d', q) \<and> foldl merge_pair (d, dense_of p) (map b xs) = (d', dense_of q) \<and>
      packed_ok q \<and> sum_list (slots q) \<le> MaxInt64 \<and> p_geom q = p_geom p"
    using assms
  proof (induction xs arbitrary: d p)
    case (Cons x xs)
    then have x: "0 \<le> fst (b x)" "fst (b x) \<le> MaxInt64" "0 < snd (b x)" by auto
    from add_bucket_refines [OF Cons.prems(1,2) x, of d] obtain d1 q1 where
      q1: "f (d, p) x = (d1, q1)" "merge_pair (d, dense_of p) (b x) = (d1, dense_of q1)" "packed_ok q1"
      "sum_list (slots q1) \<le> MaxInt64" "p_geom q1 = p_geom p"
      using Cons.prems(4) [of x p d] by (metis list.set_intros(1) prod.collapse)
    from Cons.IH [OF q1(3,4), of d1] Cons.prems(3,4) q1 show ?case by simp
  qed auto
  then show thesis using that by blast
qed

lemma from_dense_skip:
  "foldl (from_dense same src) a xs = foldl (from_dense same src) a (filter (\<lambda>(k, c). 0 < c) xs)"
  by (induction xs arbitrary: a) (auto simp: from_dense_def)

lemma enumerate_populated:
  assumes "hist_ok h"
  shows "filter (\<lambda>(k, c). 0 < c) (enumerate 0 (counts h)) = map (\<lambda>k. (k, counts h ! k)) (populated h)"
proof -
  have e: "enumerate 0 cs = map (\<lambda>k. (k, cs ! k)) [0..<length cs]" for cs :: "int list"
    by (intro nth_equalityI) (simp_all add: nth_enumerate_eq)
  have "filter (\<lambda>k. 0 < counts h ! k) [0..<length (counts h)] = populated h"
    unfolding populated_def using hist_ok_nth(1) [OF assms] by (intro filter_cong) (auto simp: order.strict_iff_order)
  then show ?thesis by (simp add: e filter_map o_def)
qed

lemma MergeFrom_refines_dense:
  assumes ok: "packed_ok p" and fit: "sum_list (slots p) \<le> MaxInt64" and h: "hist_ok src"
  obtains d q where "MergeFrom p src = (d, q)" "Merge (dense_of p) src = Inr (d, dense_of q)"
    "packed_ok q" "sum_list (slots q) \<le> MaxInt64" "p_geom q = p_geom p"
proof -
  let ?xs = "map (\<lambda>k. (k, counts src ! k)) (populated src)"
  define b where "b = (\<lambda>(k, c :: int). (valueFromFlatIndex src (int k), c))"
  have mb: "map b ?xs = buckets_of src" by (simp add: b_def buckets_of_def)
  have g: "geom_ok (p_geom p)" and f: "geom_ok src" using ok h by (auto simp: packed_ok_def packed_wf_def hist_ok_def)
  have vs: "0 \<le> fst (b x) \<and> fst (b x) \<le> MaxInt64 \<and> 0 < snd (b x)" if "x \<in> set ?xs" for x
  proof -
    have "b x \<in> set (buckets_of src)" using that unfolding mb [symmetric] by auto
    then show ?thesis using buckets_of_range [OF h, of "fst (b x)" "snd (b x)"] by simp
  qed
  have step: "from_dense (sameIndexing (p_geom p) src) src (d, q) x =
      add_bucket (d, q) (countsIndexFor (p_geom q) (fst (b x))) (snd (b x))"
    if "x \<in> set ?xs" "p_geom q = p_geom p" for x d q
  proof -
    from that(1) obtain k where k: "x = (k, counts src ! k)" "k \<in> set (populated src)" by auto
    have kl: "int k < countsLen src" by (rule populated_range [OF h k(2)])
    note ix = bucket_index [OF g f _ kl]
    show ?thesis using vs [OF that(1)] ix that(2) k(1) by (simp add: from_dense_def b_def Let_def)
  qed
  from add_buckets_refine [of p ?xs b "from_dense (sameIndexing (p_geom p) src) src" 0, OF ok fit vs step] obtain d q where
    "foldl (from_dense (sameIndexing (p_geom p) src) src) (0, p) ?xs = (d, q)"
    "foldl merge_pair (0, dense_of p) (buckets_of src) = (d, dense_of q)" "packed_ok q" "sum_list (slots q) \<le> MaxInt64"
    "p_geom q = p_geom p" unfolding mb by blast
  then show thesis
    using that by (simp add: MergeFrom_def from_dense_skip [of _ _ _ "enumerate 0 (counts src)"]
        enumerate_populated [OF h] Merge_buckets_of [OF h] mb)
qed

lemma from_packed_refines:
  assumes ok: "packed_ok p" and fit: "sum_list (slots p) \<le> MaxInt64" and wf: "packed_wf src"
  obtains d q where "foldl (from_packed (sameIndexing (p_geom p) (p_geom src)) src) (0, p) [0..<nat (p_size src)] = (d, q)"
    "foldl merge_pair (0, dense_of p) (buckets_of (dense_of src)) = (d, dense_of q)"
    "packed_ok q" "sum_list (slots q) \<le> MaxInt64" "p_geom q = p_geom p"
proof -
  let ?xs = "[0..<nat (p_size src)]"
  define b where "b = (\<lambda>i. (valueFromFlatIndex (p_geom src) (p_idx src ! i), slotGet src (int i)))"
  have g: "geom_ok (p_geom p)" and f: "geom_ok (p_geom src)" using ok wf by (auto simp: packed_ok_def packed_wf_def)
  have e: "(p_idx src ! i, slotGet src (int i)) \<in> set (entries src)" if "i \<in> set ?xs" for i
    using that by (auto simp: entries_nth [OF wf])
  have vs: "0 \<le> fst (b x) \<and> fst (b x) \<le> MaxInt64 \<and> 0 < snd (b x)" if "x \<in> set ?xs" for x
    using entries_range [OF wf e [OF that]] buckets.low_range [OF f] by (simp add: b_def)
  have step: "from_packed (sameIndexing (p_geom p) (p_geom src)) src (d, q) x =
      add_bucket (d, q) (countsIndexFor (p_geom q) (fst (b x))) (snd (b x))"
    if "x \<in> set ?xs" "p_geom q = p_geom p" for x d q
    using bucket_index [OF g f entries_range(1,2) [OF wf e [OF that(1)]]] that(2) by (simp add: from_packed_def b_def Let_def)
  have mb: "buckets_of (dense_of src) = map b ?xs"
    by (simp add: buckets_of_dense_of [OF wf] entries_nth [OF wf] b_def o_def)
  from add_buckets_refine [of p ?xs b "from_packed (sameIndexing (p_geom p) (p_geom src)) src" 0, OF ok fit vs step] that
  show thesis unfolding mb by blast
qed

section \<open>The fast merge of two sparse histograms\<close>

text \<open>The merge of two association lists with descending keys, adding the values of common keys.\<close>

fun rmerge :: "(int \<times> int) list \<Rightarrow> (int \<times> int) list \<Rightarrow> (int \<times> int) list" where
  "rmerge xs [] = xs"
| "rmerge [] ys = ys"
| "rmerge ((x, c) # xs) ((y, d) # ys) =
     (if x > y then (x, c) # rmerge xs ((y, d) # ys)
      else if x = y then (x, c + d) # rmerge xs ys
      else (y, d) # rmerge ((x, c) # xs) ys)"

definition lookup0 :: "(int \<times> int) list \<Rightarrow> int \<Rightarrow> int" where
  "lookup0 xs k = (case map_of xs k of None \<Rightarrow> 0 | Some c \<Rightarrow> c)"

lemma lookup0_simps [simp]: "lookup0 [] k = 0" "lookup0 ((x, c) # xs) k = (if k = x then c else lookup0 xs k)"
  by (simp_all add: lookup0_def)

lemma lookup0_notin: "k \<notin> fst ` set xs \<Longrightarrow> lookup0 xs k = 0"
  by (induction xs) auto

lemma rmerge_Nil [simp]: "rmerge [] ys = ys"
  by (cases ys) simp_all

lemma rmerge_length: "length xs \<le> length (rmerge xs ys)"
  by (induction xs ys rule: rmerge.induct) auto

lemma rmerge_keys: "fst ` set (rmerge xs ys) = fst ` set xs \<union> fst ` set ys"
  by (induction xs ys rule: rmerge.induct) auto

definition desc :: "(int \<times> int) list \<Rightarrow> bool" where
  "desc xs \<longleftrightarrow> sorted_wrt (>) (map fst xs)"

lemma desc_simps [simp]: "desc []" "desc ((x, c) # xs) \<longleftrightarrow> (\<forall>k \<in> fst ` set xs. k < x) \<and> desc xs"
  by (auto simp: desc_def)

lemma rmerge_desc: "desc xs \<Longrightarrow> desc ys \<Longrightarrow> desc (rmerge xs ys)"
  by (induction xs ys rule: rmerge.induct) (auto simp: rmerge_keys)

lemma rmerge_lookup: "desc xs \<Longrightarrow> desc ys \<Longrightarrow> lookup0 (rmerge xs ys) k = lookup0 xs k + lookup0 ys k"
proof (induction xs ys rule: rmerge.induct)
  case (3 x c xs y d ys)
  consider "x > y" | "x = y" | "x < y" by linarith
  then show ?case
  proof cases
    case 1
    then have "lookup0 ((y, d) # ys) x = 0" using 3 by (intro lookup0_notin) auto
    with 1 3 show ?thesis by simp
  next
    case 2
    then have "lookup0 xs x = 0" "lookup0 ys x = 0" using 3 by (auto intro!: lookup0_notin)
    with 2 3 show ?thesis by simp
  next
    case 3
    then have "lookup0 ((x, c) # xs) y = 0" using "3.prems" by (intro lookup0_notin) auto
    with 3 "3.IH" "3.prems" show ?thesis by simp
  qed
qed simp_all

lemma rmerge_sum: "sum_list (map snd (rmerge xs ys)) = sum_list (map snd xs) + sum_list (map snd ys)"
  by (induction xs ys rule: rmerge.induct) auto

subsection \<open>Entries as one list\<close>

definition with_entries :: "packed \<Rightarrow> (int \<times> int) list \<Rightarrow> packed" where
  "with_entries p E = p\<lparr>p_idx := map fst E, p_cnt := pack (slot_bytes (p_width p)) (map snd E)\<rparr>"

definition bounded :: "packed \<Rightarrow> (int \<times> int) list \<Rightarrow> bool" where
  "bounded p E \<longleftrightarrow> (\<forall>c \<in> snd ` set E. 0 \<le> c \<and> c \<le> packedWidthMax (p_width p))"

lemma with_entries_get:
  assumes w: "is_width (p_width p)" and b: "bounded p E" and k: "k < length E"
  shows "slotGet (with_entries p E) (int k) = snd (E ! k)" "p_idx (with_entries p E) ! k = fst (E ! k)"
proof -
  have v: "0 \<le> snd (E ! k)" "snd (E ! k) \<le> packedWidthMax (p_width p)"
    using b nth_mem [OF k] by (auto simp: bounded_def)
  then have "snd (E ! k) mod 256 ^ slot_bytes (p_width p) = snd (E ! k)" "i64 (snd (E ! k)) = snd (E ! k)"
    using packedWidthMax_bounds [OF w] by (auto intro!: i64_id)
  then show "slotGet (with_entries p E) (int k) = snd (E ! k)"
    using k pack_chunk [of k "map snd E"]
    by (simp add: slotGet_def with_entries_def slot_offset [OF w] le_val_le_bytes)
  show "p_idx (with_entries p E) ! k = fst (E ! k)" using k by (simp add: with_entries_def)
qed

lemma with_entries_put:
  assumes w: "is_width (p_width p)" and k: "k < length E"
  shows "put_entry (with_entries p E) (int k) x c = with_entries p (E[k := (x, c)])"
proof -
  have "putPackedCount (pack (slot_bytes (p_width p)) (map snd E)) (int k * p_width p) (p_width p) c =
      pack (slot_bytes (p_width p)) ((map snd E)[k := c])"
    using put_pack [OF w, of k "map snd E" c] k by simp
  then show ?thesis by (simp add: put_entry_def with_entries_def slotSet_def map_update)
qed

lemma bounded_update: "bounded p E \<Longrightarrow> 0 \<le> c \<Longrightarrow> c \<le> packedWidthMax (p_width p) \<Longrightarrow> bounded p (E[k := (x, c)])"
  using set_update_subset_insert [of E k "(x, c)"] by (fastforce simp: bounded_def)

lemma merge_pass2_rmerge:
  assumes w: "is_width (p_width p)" and src: "packed_wf src"
  shows "bounded p E \<Longrightarrow> a \<le> length E \<Longrightarrow> b \<le> length (entries src) \<Longrightarrow>
    R = rmerge (rev (take a E)) (rev (take b (entries src))) \<Longrightarrow> length R \<le> length E \<Longrightarrow> bounded p R \<Longrightarrow>
    merge_pass2 (with_entries p E) src (int a - 1) (int b - 1) (int (length R) - 1) =
      with_entries p (rev R @ drop (length R) E)"
proof (induction "a + b" arbitrary: a b E R rule: less_induct)
  case less
  note E = less.prems(1) and R = less.prems(4)
  let ?B = "entries src"
  show ?case
  proof (cases b)
    case 0
    then have "R = rev (take a E)" using R by simp
    then have "length R = a" "rev R = take a E" using less.prems(2) by simp_all
    then show ?thesis using 0 by (subst merge_pass2.simps) simp
  next
    case (Suc b')
    obtain y d where yd: "?B ! b' = (y, d)" by fastforce
    have b': "b' < length ?B" using Suc less.prems(3) by simp
    then have tb: "rev (take b ?B) = (y, d) # rev (take b' ?B)" using Suc yd by (simp add: take_Suc_conv_app_nth)
    have "(y, d) \<in> set ?B" using yd b' nth_mem by fastforce
    note yr = entries_range [OF src this]
    have jget: "p_idx src ! nat (int b - 1) = y" "slotGet src (int b - 1) = d" "0 \<le> int b - 1"
      using yd b' Suc by (auto simp: entries_nth [OF src])
    have put: "merge_pass2 (put_entry (with_entries p E) (int (length R) - 1) k c) src (int a' - 1) (int b1 - 1) (int (length R) - 1 - 1) =
        with_entries p (rev R @ drop (length R) E)"
      if R': "R = (k, c) # R'" "R' = rmerge (rev (take a' E)) (rev (take b1 ?B))" and less': "a' + b1 < a + b"
        "a' \<le> a" "b1 \<le> b" for k c R' a' b1
    proof -
      let ?E = "E[length R' := (k, c)]"
      have len: "length R' < length E" using less.prems(5) R' by simp
      have aR: "a' \<le> length R'" using rmerge_length [of "rev (take a' E)" "rev (take b1 ?B)"] R'(2) less.prems(2) less'(2) by simp
      have c: "0 \<le> c" "c \<le> packedWidthMax (p_width p)" and bR: "bounded p R'"
        using less.prems(6) R'(1) by (auto simp: bounded_def)
      note bc = bounded_update [OF E c] bR
      have t: "take a' ?E = take a' E" using aR by simp
      have "put_entry (with_entries p E) (int (length R) - 1) k c = with_entries p ?E"
        using with_entries_put [OF w len, of k c] R'(1) by simp
      moreover have "merge_pass2 (with_entries p ?E) src (int a' - 1) (int b1 - 1) (int (length R') - 1) =
          with_entries p (rev R' @ drop (length R') ?E)"
        using less.hyps [OF less'(1), of ?E R'] bc t len less.prems(2,3) less'(2,3) R'(2) by simp
      moreover have "rev R' @ drop (length R') ?E = rev R @ drop (length R) E"
        using len R'(1) by (simp add: drop_update_swap Cons_nth_drop_Suc [symmetric])
      ultimately show ?thesis using R'(1) by simp
    qed
    show ?thesis
    proof (cases a)
      case 0
      have "R = (y, d) # rmerge (rev (take 0 E)) (rev (take b' ?B))" using R tb 0 by simp
      from put [OF this refl] Suc 0 have
        "merge_pass2 (put_entry (with_entries p E) (int (length R) - 1) y d) src (int a - 1) (int b' - 1) (int (length R) - 1 - 1) =
         with_entries p (rev R @ drop (length R) E)" by simp
      then show ?thesis using 0 Suc jget by (subst merge_pass2.simps) simp
    next
      case a: (Suc a')
      obtain x c where xc: "E ! a' = (x, c)" by fastforce
      have a': "a' < length E" using a less.prems(2) by simp
      then have ta: "rev (take a E) = (x, c) # rev (take a' E)" using a xc by (simp add: take_Suc_conv_app_nth)
      have iget: "p_idx (with_entries p E) ! nat (int a - 1) = x" "slotGet (with_entries p E) (int a - 1) = c" "0 \<le> int a - 1"
        using with_entries_get [OF w E a'] xc a by auto
      consider "x > y" | "x = y" | "x < y" by linarith
      then show ?thesis
      proof cases
        case 1
        then have "R = (x, c) # rmerge (rev (take a' E)) (rev (take b ?B))" using R ta tb by simp
        from put [OF this refl] a have
          "merge_pass2 (put_entry (with_entries p E) (int (length R) - 1) x c) src (int a' - 1) (int b - 1) (int (length R) - 1 - 1) =
           with_entries p (rev R @ drop (length R) E)" by simp
        then show ?thesis using 1 a jget iget by (subst merge_pass2.simps) simp
      next
        case 2
        then have RR: "R = (x, c + d) # rmerge (rev (take a' E)) (rev (take b' ?B))" using R ta tb by simp
        have "c + d \<le> packedWidthMax (p_width p)" "0 \<le> c + d" using less.prems(6) RR by (auto simp: bounded_def)
        then have "i64 (c + d) = c + d" using packedWidthMax_bounds(2) [OF w] by (intro i64_id) linarith+
        moreover from put [OF RR refl] a Suc have
          "merge_pass2 (put_entry (with_entries p E) (int (length R) - 1) x (c + d)) src (int a' - 1) (int b' - 1) (int (length R) - 1 - 1) =
           with_entries p (rev R @ drop (length R) E)" by simp
        ultimately show ?thesis using 2 a Suc jget iget by (subst merge_pass2.simps) simp
      next
        case 3
        then have "R = (y, d) # rmerge (rev (take a E)) (rev (take b' ?B))" using R ta tb by simp
        from put [OF this refl] Suc have
          "merge_pass2 (put_entry (with_entries p E) (int (length R) - 1) y d) src (int a - 1) (int b' - 1) (int (length R) - 1 - 1) =
           with_entries p (rev R @ drop (length R) E)" by simp
        then show ?thesis using 3 Suc jget iget by (subst merge_pass2.simps) simp
      qed
    qed
  qed
qed

subsection \<open>The first pass\<close>

lemma drop_suffix_spec:
  assumes src: "packed_wf src"
  shows "n \<le> length (p_idx src) \<Longrightarrow> 0 \<le> d \<Longrightarrow> d + sum_list (take n (slots src)) \<le> MaxInt64 \<Longrightarrow>
    \<exists>m \<le> n. drop_suffix src len n d = (m, d + sum_list (drop m (take n (slots src)))) \<and>
      (\<forall>k < n. p_idx src ! k < len \<longleftrightarrow> k < m)"
proof (induction n arbitrary: d)
  case (Suc n)
  note D = packed_wfD [OF src]
  have n: "n < length (slots src)" using Suc.prems D(4) by simp
  have pos: "0 < slots src ! n" using src n by (auto simp: packed_wf_def)
  have g: "slotGet src (int n) = slots src ! n" by (rule slotGet_nth [OF D(1) n])
  have nn: "0 \<le> sum_list (take n (slots src))"
    using src by (intro sum_list_nonneg_int) (auto simp: packed_wf_def dest!: in_set_takeD)
  have t: "take (Suc n) (slots src) = take n (slots src) @ [slots src ! n]" using n by (rule take_Suc_conv_app_nth)
  show ?case
  proof (cases "p_idx src ! n \<ge> len")
    case True
    have "i64 (MaxInt64 - d) = MaxInt64 - d" "i64 (d + slots src ! n) = d + slots src ! n"
      using Suc.prems(2,3) t pos nn by (intro i64_id; simp)+
    then have "addDropped d (slots src ! n) = d + slots src ! n" using Suc.prems(3) t nn by (simp add: addDropped_def)
    moreover from Suc.IH [of "d + slots src ! n"] Suc.prems t pos obtain m where
      "m \<le> n" "drop_suffix src len n (d + slots src ! n) = (m, d + slots src ! n + sum_list (drop m (take n (slots src))))"
      "\<forall>k < n. p_idx src ! k < len \<longleftrightarrow> k < m" by (auto simp: algebra_simps)
    ultimately show ?thesis using True g t n by (intro exI [of _ m]) (auto simp: less_Suc_eq)
  next
    case False
    have "p_idx src ! k < len" if "k < Suc n" for k
    proof (cases "k = n")
      case False
      then have "p_idx src ! k < p_idx src ! n" using that Suc.prems(1) by (intro sorted_wrt_nth_less [OF D(2)]) simp_all
      with \<open>\<not> len \<le> p_idx src ! n\<close> show ?thesis by simp
    qed (use False in simp)
    with False n show ?thesis by (intro exI [of _ "Suc n"]) simp
  qed
qed simp

text \<open>What the first pass counts: the keys new to \<open>p\<close>, and the largest merged count.\<close>

definition merged_count :: "packed \<Rightarrow> packed \<Rightarrow> int \<Rightarrow> int" where
  "merged_count p src k = count_at p k + count_at src k"

lemma merge_pass1_spec:
  assumes p: "packed_wf p" and src: "packed_wf src" and m: "m \<le> length (p_idx src)"
    and small: "\<forall>k. merged_count p src k \<le> MaxInt64"
  shows "i \<le> length (p_idx p) \<Longrightarrow> j \<le> m \<Longrightarrow>
    (\<forall>i' < i. \<forall>j'. j \<le> j' \<and> j' < m \<longrightarrow> p_idx p ! i' < p_idx src ! j') \<Longrightarrow>
    merge_pass1 p src (int m) (int i) (int j) added largest =
      (added + int (length (filter (\<lambda>k. k \<notin> set (p_idx p)) (drop j (take m (p_idx src))))),
       foldl (\<lambda>l k. max l (merged_count p src k)) largest (drop j (take m (p_idx src))))"
proof (induction "(length (p_idx p) - i) + (m - j)" arbitrary: i j added largest rule: less_induct)
  case less
  note P = packed_wfD [OF p] and S = packed_wfD [OF src]
  have mx: "(if l < c then c else l) = max l c" for l c :: int by (simp add: max_def)
  show ?case
  proof (cases "j < m")
    case False
    then show ?thesis by (subst merge_pass1.simps) simp
  next
    case True
    let ?y = "p_idx src ! j"
    have jl: "j < length (p_idx src)" using True m by simp
    have dj: "drop j (take m (p_idx src)) = ?y # drop (Suc j) (take m (p_idx src))"
      using True m by (simp add: Cons_nth_drop_Suc [symmetric])
    have sg: "slotGet src (int j) = count_at src ?y"
      using slotGet_nth [OF S(1), of j] count_at_nth [OF src jl] jl S(4) by simp
    have up: "?y < p_idx src ! j'" if "j < j'" "j' < m" for j'
      using that m by (intro sorted_wrt_nth_less [OF S(2)]) simp_all
    have mc: "0 \<le> merged_count p src ?y"
      using count_at_bounds(1) [OF p] count_at_bounds(1) [OF src] by (simp add: merged_count_def)
    have size: "int i < p_size p \<longleftrightarrow> i < length (p_idx p)" using P(5) by simp
    have new: "?y \<notin> set (p_idx p)" if "i < length (p_idx p) \<Longrightarrow> ?y < p_idx p ! i"
    proof
      assume "?y \<in> set (p_idx p)"
      then obtain k where k: "k < length (p_idx p)" "p_idx p ! k = ?y" by (auto simp: in_set_conv_nth)
      then have "\<not> k < i" using less.prems(3) [rule_format, of k j] True by auto
      moreover have "p_idx p ! i \<le> p_idx p ! k" if "i \<le> k"
        using that k(1) sorted_wrt_nth_less [OF P(2), of i k] by (cases "i = k") auto
      ultimately show False using that k by fastforce
    qed
    consider (lt) "i < length (p_idx p)" "p_idx p ! i < ?y" | (eq) "i < length (p_idx p)" "p_idx p ! i = ?y"
      | (gt) "i < length (p_idx p) \<Longrightarrow> ?y < p_idx p ! i" by linarith
    then show ?thesis
    proof cases
      case lt
      have "p_idx p ! i < p_idx src ! j'" if "j \<le> j'" "j' < m" for j'
        using lt(2) up [of j'] that by (cases "j = j'") auto
      then have "\<forall>i' < Suc i. \<forall>j'. j \<le> j' \<and> j' < m \<longrightarrow> p_idx p ! i' < p_idx src ! j'"
        using less.prems(3) by (auto simp: less_Suc_eq)
      with less.hyps [of "Suc i" j] lt less.prems True size show ?thesis
        by (subst merge_pass1.simps) (simp add: add.commute)
    next
      case eq
      have inv: "\<forall>i' < Suc i. \<forall>j'. Suc j \<le> j' \<and> j' < m \<longrightarrow> p_idx p ! i' < p_idx src ! j'"
        using less.prems(3) up eq(2) by (auto simp: less_Suc_eq)
      have "slotGet p (int i) = count_at p ?y" using slotGet_nth [OF P(1), of i] count_at_nth [OF p eq(1)] eq P(4) by simp
      then have "i64 (slotGet p (int i) + slotGet src (int j)) = merged_count p src ?y"
        using small mc sg by (simp add: merged_count_def i64_id)
      moreover have "?y \<in> set (p_idx p)" using eq by (auto simp: in_set_conv_nth)
      moreover have "(length (p_idx p) - Suc i) + (m - Suc j) < (length (p_idx p) - i) + (m - j)" using eq True by simp
      note IH = less.hyps [OF this _ _ inv]
      ultimately show ?thesis using IH eq True size dj
        by (subst merge_pass1.simps) (simp add: add.commute mx)
    next
      case gt
      have inv: "\<forall>i' < i. \<forall>j'. Suc j \<le> j' \<and> j' < m \<longrightarrow> p_idx p ! i' < p_idx src ! j'"
        using less.prems(3) by auto
      have "merge_pass1 p src (int m) (int i) (int j) added largest =
          merge_pass1 p src (int m) (int i) (int (Suc j)) (added + 1) (max largest (slotGet src (int j)))"
        using gt size True by (subst merge_pass1.simps) (auto simp: mx add.commute Let_def)
      moreover have "slotGet src (int j) = merged_count p src ?y" using sg count_at_miss [OF p new [OF gt]] by (simp add: merged_count_def)
      moreover have "(length (p_idx p) - i) + (m - Suc j) < (length (p_idx p) - i) + (m - j)" using True by simp
      note IH = less.hyps [OF this _ _ inv]
      ultimately show ?thesis using IH new [OF gt] less.prems(1) True dj by simp
    qed
  qed
qed

subsection \<open>The merged histogram\<close>

lemma entries_parts:
  assumes "packed_wf p"
  shows "map fst (entries p) = p_idx p" "map snd (entries p) = slots p" "length (entries p) = length (p_idx p)"
    "count_at p k = lookup0 (entries p) k" "desc (rev (entries p))"
  using packed_wfD [OF assms]
  by (simp_all add: entries_def count_at_def lookup0_def desc_def rev_map sorted_wrt_rev flip: rev_map)

lemma filter_take:
  assumes "m \<le> length xs" "\<forall>i < length xs. P (xs ! i) \<longleftrightarrow> i < m"
  shows "filter P xs = take m xs"
proof -
  have "\<forall>x \<in> set (take m xs). P x" "\<forall>x \<in> set (drop m xs). \<not> P x"
    using assms by (auto simp: in_set_conv_nth)
  then have "filter P (take m xs @ drop m xs) = take m xs" unfolding filter_append by simp
  then show ?thesis by simp
qed

lemma lookup0_filter: "lookup0 (filter (\<lambda>(i, c). i < len) xs) k = (if k < len then lookup0 xs k else 0)"
  by (induction xs) auto

lemma lookup0_rev: "distinct (map fst xs) \<Longrightarrow> lookup0 (rev xs) k = lookup0 xs k"
  unfolding lookup0_def by (subst map_of_inject_set [THEN iffD2]) (simp_all add: rev_map [symmetric])

lemma desc_distinct: "desc xs \<Longrightarrow> distinct (map fst xs)"
  by (induction xs) (auto simp: desc_def)

lemma foldl_max_ge: "a \<le> foldl (\<lambda>l k. max l (f k)) a xs" for a :: int
proof (induction xs arbitrary: a)
  case (Cons y ys)
  from Cons [of "max a (f y)"] show ?case by simp
qed simp

lemma foldl_max_bounds:
  "a \<le> foldl (\<lambda>l k. max l (f k)) a xs" "x \<in> set xs \<Longrightarrow> f x \<le> foldl (\<lambda>l k. max l (f k)) a xs"
  "a \<le> b \<Longrightarrow> \<forall>x \<in> set xs. f x \<le> b \<Longrightarrow> foldl (\<lambda>l k. max l (f k)) a xs \<le> (b :: int)"
proof -
  show "a \<le> foldl (\<lambda>l k. max l (f k)) a xs" by (rule foldl_max_ge)
  show "x \<in> set xs \<Longrightarrow> f x \<le> foldl (\<lambda>l k. max l (f k)) a xs"
  proof (induction xs arbitrary: a)
    case (Cons y ys)
    then show ?case
    proof (cases "x = y")
      case True
      have "max a (f y) \<le> foldl (\<lambda>l k. max l (f k)) (max a (f y)) ys" by (rule foldl_max_ge)
      with True show ?thesis by simp
    qed auto
  qed simp
  show "a \<le> b \<Longrightarrow> \<forall>x \<in> set xs. f x \<le> b \<Longrightarrow> foldl (\<lambda>l k. max l (f k)) a xs \<le> b"
    by (induction xs arbitrary: a) auto
qed

lemma merge_new_size:
  assumes p: "packed_wf p" and src: "packed_wf src" and m: "m \<le> length (p_idx src)"
    and R: "R = rmerge (rev (entries p)) (rev (take m (entries src)))"
  shows "length R = length (p_idx p) + length (filter (\<lambda>k. k \<notin> set (p_idx p)) (take m (p_idx src)))"
    and "desc R"
proof -
  note P = packed_wfD [OF p] and S = packed_wfD [OF src] and ep = entries_parts [OF p] and es = entries_parts [OF src]
  have "desc (rev (take m (entries src)))"
    using S(2) es(1) by (simp add: desc_def rev_map [symmetric] sorted_wrt_rev take_map [symmetric] sorted_wrt_take)
  then show d: "desc R" unfolding R by (intro rmerge_desc ep(5))
  have "length R = card (fst ` set R)" using distinct_card [OF desc_distinct [OF d]] by simp
  also have "fst ` set R = set (p_idx p) \<union> set (take m (p_idx src))"
    unfolding R rmerge_keys using ep(1) es(1) by (metis list.set_map set_rev take_map)
  also have "\<dots> = set (p_idx p) \<union> set (filter (\<lambda>k. k \<notin> set (p_idx p)) (take m (p_idx src)))" by auto
  also have "card \<dots> = length (p_idx p) + length (filter (\<lambda>k. k \<notin> set (p_idx p)) (take m (p_idx src)))"
    using P(3) S(3) by (subst card_Un_disjoint) (auto simp: distinct_card simp del: set_filter, auto)
  finally show "length R = length (p_idx p) + length (filter (\<lambda>k. k \<notin> set (p_idx p)) (take m (p_idx src)))" .
qed

lemma with_entries_wf:
  assumes "is_width (p_width p)" "bounded p E" "geom_ok (p_geom p)" "0 \<le> lastPos p" "sorted_wrt (<) (map fst E)"
    "\<forall>k \<in> fst ` set E. 0 \<le> k \<and> k < countsLen (p_geom p)" "\<forall>c \<in> snd ` set E. 0 < c"
    "q = (with_entries p E)\<lparr>p_size := int (length E), p_totalCount := t\<rparr>"
  shows "packed_wf q" "slots q = map snd E" "entries q = E"
proof -
  have h: "holds q (map snd E)" using assms(1,2,8) by (auto simp: holds_def with_entries_def bounded_def)
  then show s: "slots q = map snd E" by (rule slots_holds)
  show "packed_wf q" using h s assms by (auto simp: packed_wf_def with_entries_def)
  show "entries q = E" using assms(8) s by (simp add: entries_def with_entries_def zip_map_fst_snd)
qed

lemma lookup0_mem: "distinct (map fst xs) \<Longrightarrow> (k, c) \<in> set xs \<Longrightarrow> lookup0 xs k = c"
  by (simp add: lookup0_def)

text \<open>The merged entries: \<open>m\<close> is the number of source buckets inside the range of \<open>p\<close>.\<close>

lemma merged_entries:
  assumes p: "packed_wf p" and src: "packed_wf src" and m: "m \<le> length (p_idx src)"
    and len: "\<forall>k < length (p_idx src). p_idx src ! k < countsLen (p_geom p) \<longleftrightarrow> k < m"
    and R: "R = rmerge (rev (entries p)) (rev (take m (entries src)))"
  shows "lookup0 R k = count_at p k + (if k < countsLen (p_geom p) then count_at src k else 0)"
    and "take m (entries src) = filter (\<lambda>(i, c). i < countsLen (p_geom p)) (entries src)"
    and "(k, c) \<in> set R \<Longrightarrow> 0 \<le> k \<and> k < countsLen (p_geom p) \<and> 0 < c \<and> c = merged_count p src k \<and>
           (k \<in> set (p_idx p) \<or> k \<in> set (take m (p_idx src)))"
proof -
  note P = packed_wfD [OF p] and S = packed_wfD [OF src] and ep = entries_parts [OF p] and es = entries_parts [OF src]
  let ?K = "take m (entries src)"
  show K: "?K = filter (\<lambda>(i, c). i < countsLen (p_geom p)) (entries src)"
    using m len S(4) es(3) by (intro filter_take [symmetric]) (auto simp: entries_def)
  have kd: "map fst ?K = take m (p_idx src)" using es(1) by (simp add: take_map [symmetric])
  have dk: "desc (rev ?K)" using S(2) kd by (simp add: desc_def rev_map [symmetric] sorted_wrt_rev sorted_wrt_take)
  have "distinct (map fst ?K)" "distinct (map fst (entries p))" using S(3) P(3) kd ep(1) by simp_all
  then show L: "lookup0 R k = count_at p k + (if k < countsLen (p_geom p) then count_at src k else 0)" for k
    unfolding R using rmerge_lookup [OF ep(5) dk, of k] ep(4) es(4)
    by (simp add: lookup0_rev) (simp add: K lookup0_filter)
  assume kc: "(k, c) \<in> set R"
  have dR: "desc R" unfolding R by (rule rmerge_desc [OF ep(5) dk])
  have "k \<in> fst ` set R" using kc by force
  then have mem: "k \<in> set (p_idx p) \<or> k \<in> set (take m (p_idx src))"
    unfolding R rmerge_keys using ep(1) kd by (metis UnE list.set_map set_rev)
  have "k < countsLen (p_geom p)" if "k \<in> set (take m (p_idx src))"
    using that len m by (auto simp: in_set_conv_nth)
  then have rng: "0 \<le> k" "k < countsLen (p_geom p)"
    using mem p src by (auto simp: packed_wf_def dest: in_set_takeD)
  have c: "c = merged_count p src k" using lookup0_mem [OF desc_distinct [OF dR] kc] L [of k] rng by (simp add: merged_count_def)
  have "k \<in> set (p_idx p) \<or> k \<in> set (p_idx src)" using mem by (auto dest: in_set_takeD)
  then have "0 < c" using c count_at_bounds [OF p, of k] count_at_bounds [OF src, of k] by (auto simp: merged_count_def)
  with rng c mem show "0 \<le> k \<and> k < countsLen (p_geom p) \<and> 0 < c \<and> c = merged_count p src k \<and>
      (k \<in> set (p_idx p) \<or> k \<in> set (take m (p_idx src)))" by simp
qed

lemma merge_fast_entries:
  assumes p: "packed_wf p" and src: "packed_wf src" and small: "\<forall>k. merged_count p src k \<le> MaxInt64"
    and m: "m \<le> length (p_idx src)" "drop_suffix src (countsLen (p_geom p)) (nat (p_size src)) 0 = (m, d)"
    "\<forall>k < length (p_idx src). p_idx src ! k < countsLen (p_geom p) \<longleftrightarrow> k < m"
    and R: "R = rmerge (rev (entries p)) (rev (take m (entries src)))"
  obtains r where "merge_fast p src = (d, (with_entries r (rev R))\<lparr>p_size := int (length R),
      p_totalCount := i64 (p_totalCount p + i64 (p_totalCount src - d))\<rparr>)"
    "is_width (p_width r)" "bounded r (rev R)" "p_geom r = p_geom p" "lastPos r = lastPos p"
proof -
  note P = packed_wfD [OF p] and S = packed_wfD [OF src] and ep = entries_parts [OF p] and es = entries_parts [OF src]
  define L where "L = foldl (\<lambda>l k. max l (merged_count p src k)) 0 (take m (p_idx src))"
  define added where "added = length (filter (\<lambda>k. k \<notin> set (p_idx p)) (take m (p_idx src)))"
  have p1: "merge_pass1 p src (int m) 0 0 0 0 = (int added, L)"
    using merge_pass1_spec [OF p src m(1) small, of 0 0 0 0] by (simp add: added_def L_def)
  have "L \<le> MaxInt64" unfolding L_def using small by (intro foldl_max_bounds(3)) auto
  from widenToFit_eq [OF P(1) this] obtain w where
    w: "widenToFit p L = p\<lparr>p_cnt := pack (slot_bytes w) (slots p), p_width := w\<rparr>" "is_width w" "L \<le> packedWidthMax w"
    "holds (p\<lparr>p_cnt := pack (slot_bytes w) (slots p), p_width := w\<rparr>) (slots p)" by blast
  define r where "r = p\<lparr>p_width := w\<rparr>"
  let ?E = "entries p @ replicate added (0, 0)"
  note len = merge_new_size [OF p src m(1) R, folded added_def] and me = merged_entries [OF p src m(1,3) R]
  have lE: "length ?E = length R" using len(1) ep(3) by simp
  have bp: "\<forall>c \<in> set (slots p). 0 \<le> c \<and> c \<le> packedWidthMax w" using w(4) by (simp add: holds_def)
  then have bE: "bounded r ?E"
    using packedWidthMax_bounds(3) [OF w(2)] ep(2) by (auto simp: bounded_def r_def image_Un simp flip: list.set_map)
  have bR: "bounded r R"
    unfolding bounded_def
  proof
    fix c assume "c \<in> snd ` set R"
    then obtain k where k: "(k, c) \<in> set R" by force
    note f = me(3) [OF k]
    have "c \<le> packedWidthMax w"
    proof (cases "k \<in> set (take m (p_idx src))")
      case True
      have "merged_count p src k \<le> L" unfolding L_def by (rule foldl_max_bounds(2) [OF True])
      with f w(3) show ?thesis by simp
    next
      case False
      with f have kp: "k \<in> set (p_idx p)" by simp
      have "k \<notin> set (p_idx src)"
      proof
        assume "k \<in> set (p_idx src)"
        then obtain j where "j < length (p_idx src)" "p_idx src ! j = k" by (auto simp: in_set_conv_nth)
        with m f False show False by (auto simp: in_set_conv_nth)
      qed
      then have "c = count_at p k" using f count_at_miss [OF src] by (simp add: merged_count_def)
      moreover from kp obtain i where "i < length (p_idx p)" "p_idx p ! i = k" by (auto simp: in_set_conv_nth)
      ultimately show ?thesis using count_at_nth [OF p, of i] bp P(4) by auto
    qed
    with f show "0 \<le> c \<and> c \<le> packedWidthMax (p_width r)" by (simp add: r_def)
  qed
  have zeros: "pack n (replicate k 0) = replicate (k * n) 0" for k n
    by (induction k) (simp_all add: le_bytes_0 replicate_add)
  have "nat (int added * w) = added * slot_bytes w" by (rule slot_offset [OF w(2)])
  then have p2: "(widenToFit p L)\<lparr>p_idx := p_idx (widenToFit p L) @ replicate added 0,
      p_cnt := p_cnt (widenToFit p L) @ replicate (nat (int added * p_width (widenToFit p L))) 0\<rparr> = with_entries r ?E"
    using ep by (simp add: w(1) with_entries_def r_def zeros)
  have tk: "R = rmerge (rev (take (length (p_idx p)) ?E)) (rev (take m (entries src)))" using R ep(3) by simp
  have bR': "bounded r (rev R)" using bR by (simp add: bounded_def)
  have "merge_pass2 (with_entries r ?E) src (int (length (p_idx p)) - 1) (int m - 1) (int (length R) - 1) =
      with_entries r (rev R @ drop (length R) ?E)"
    using bE lE m(1) tk bR es(3) w(2) by (intro merge_pass2_rmerge src) (simp_all add: r_def ep(3))
  then have p3: "merge_pass2 (with_entries r ?E) src (int (length (p_idx p)) - 1) (int m - 1) (int (length R) - 1) = with_entries r (rev R)"
    using lE by simp
  have sz: "p_size (widenToFit p L) = int (length (p_idx p))" using P(5) w(1) by simp
  have "int (length (p_idx p)) + int added = int (length R)" using len(1) by simp
  moreover have "p_totalCount (with_entries r (rev R)) = p_totalCount p" by (simp add: with_entries_def r_def)
  ultimately have "merge_fast p src = (d, (with_entries r (rev R))\<lparr>p_size := int (length R),
      p_totalCount := i64 (p_totalCount p + i64 (p_totalCount src - d))\<rparr>)"
    unfolding merge_fast_def m(2) Let_def prod.case p1 nat_int p2 sz by (simp only: p3) 
  then show thesis using w(2) bR' by (intro that [of r]) (simp_all add: r_def)
qed

lemma sum_lookup0: "distinct (map fst xs) \<Longrightarrow> (\<Sum>(i, c)\<leftarrow>xs. if i = k then c else 0) = lookup0 xs k"
proof (induction xs)
  case (Cons x xs)
  obtain i c where "x = (i, c)" by fastforce
  with Cons show ?case using lookup0_notin [of i xs] by (cases "i = k") auto
qed simp

lemma sum_split: "(\<Sum>(i, c)\<leftarrow>xs. if P i then 0 else c) + (\<Sum>(i, c)\<leftarrow>xs. if P i then c else 0) = (sum_list (map snd xs) :: int)"
  by (induction xs) auto

lemma merge_fast_spec:
  assumes p: "packed_ok p" and src: "packed_ok src" and fit: "sum_list (slots p) + sum_list (slots src) \<le> MaxInt64"
  obtains d q where "merge_fast p src = (d, q)" "packed_ok q" "p_geom q = p_geom p" "sum_list (slots q) \<le> MaxInt64"
    "\<And>k. count_at q k = count_at p k + (if k < countsLen (p_geom p) then count_at src k else 0)"
    "d = (\<Sum>(k, c)\<leftarrow>entries src. if k < countsLen (p_geom p) then 0 else c)"
    "p_totalCount q = p_totalCount p + (\<Sum>(k, c)\<leftarrow>entries src. if k < countsLen (p_geom p) then c else 0)"
proof -
  have wp: "packed_wf p" and ws: "packed_wf src" using p src by (simp_all add: packed_ok_def)
  note P = packed_wfD [OF wp] and S = packed_wfD [OF ws] and ep = entries_parts [OF wp] and es = entries_parts [OF ws]
  note sp = sum_bounds_packed [OF wp] and ss = sum_bounds_packed [OF ws]
  let ?len = "countsLen (p_geom p)"
  let ?in = "\<Sum>(k, c)\<leftarrow>entries src. if k < ?len then c else 0" and ?out = "\<Sum>(k, c)\<leftarrow>entries src. if k < ?len then 0 else c"
  have tp: "p_totalCount p = sum_list (slots p)" "p_totalCount src = sum_list (slots src)"
    using p src fit sp(1) ss(1) by (auto simp: packed_ok_def)
  from drop_suffix_spec [OF ws, of "length (p_idx src)" 0 ?len] fit sp(1) S(4) obtain m where
    m: "m \<le> length (p_idx src)" "drop_suffix src ?len (length (p_idx src)) 0 = (m, sum_list (drop m (slots src)))"
    "\<forall>k < length (p_idx src). p_idx src ! k < ?len \<longleftrightarrow> k < m" by auto
  have small: "\<forall>k. merged_count p src k \<le> MaxInt64"
    using fit sp(2) ss(2) by (auto simp: merged_count_def intro: order_trans [OF add_mono])
  define R where "R = rmerge (rev (entries p)) (rev (take m (entries src)))"
  note me = merged_entries [OF wp ws m(1,3) R_def] and len = merge_new_size [OF wp ws m(1) R_def]
  have "sum_list (map snd (filter (\<lambda>(i, c). i < ?len) xs)) = (\<Sum>(k, c)\<leftarrow>xs. if k < ?len then c else 0)" for xs :: "(int \<times> int) list"
    by (induction xs) auto
  then have kept: "sum_list (map snd (take m (entries src))) = ?in" by (simp add: me(2))
  have "sum_list (slots src) = sum_list (take m (slots src)) + sum_list (drop m (slots src))"
    by (metis append_take_drop_id sum_list_append)
  then have d: "sum_list (drop m (slots src)) = ?out"
    using kept es(2) sum_split [of "\<lambda>i. i < ?len" "entries src"] by (simp add: take_map [symmetric])
  have pos: "0 \<le> ?in" "0 \<le> ?out"
    by (intro sum_list_nonneg_int; force dest: entries_range(3) [OF ws])+
  have io: "?in + ?out = sum_list (slots src)" using sum_split [of "\<lambda>i. i < ?len" "entries src"] es(2) by simp
  have "drop_suffix src ?len (nat (p_size src)) 0 = (m, ?out)" using m(2) S(5) d by simp
  from merge_fast_entries [OF wp ws small m(1) this m(3) R_def] obtain r where
    r: "merge_fast p src = (?out, (with_entries r (rev R))\<lparr>p_size := int (length R),
      p_totalCount := i64 (p_totalCount p + i64 (p_totalCount src - ?out))\<rparr>)"
    "is_width (p_width r)" "bounded r (rev R)" "p_geom r = p_geom p" "lastPos r = lastPos p" by blast
  have tn: "i64 (p_totalCount p + i64 (p_totalCount src - ?out)) = p_totalCount p + ?in"
    using tp io fit sp(1) pos by (simp add: i64_id)
  define q where "q = (with_entries r (rev R))\<lparr>p_size := int (length (rev R)), p_totalCount := p_totalCount p + ?in\<rparr>"
  have "sorted_wrt (<) (map fst (rev R))" using len(2) by (simp add: desc_def rev_map [symmetric] sorted_wrt_rev)
  moreover have "\<forall>k \<in> fst ` set (rev R). 0 \<le> k \<and> k < countsLen (p_geom r)" "\<forall>c \<in> snd ` set (rev R). 0 < c"
    using me(3) r(4) by fastforce+
  moreover have "geom_ok (p_geom r)" "0 \<le> lastPos r" using wp r by (auto simp: packed_wf_def)
  ultimately have wq: "packed_wf q" "slots q = map snd (rev R)" "entries q = rev R"
    using with_entries_wf [OF r(2,3) _ _ _ _ _ q_def] by auto
  have sum: "sum_list (slots q) = sum_list (slots p) + ?in"
    unfolding wq(2) R_def using kept ep(2) by (simp add: sum_list_rev rmerge_sum flip: rev_map)
  have "count_at q k = count_at p k + (if k < ?len then count_at src k else 0)" for k
    using entries_parts(4) [OF wq(1), of k] me(1) [of k] lookup0_rev [OF desc_distinct [OF len(2)]] by (simp add: wq(3))
  moreover have "packed_ok q" "sum_list (slots q) \<le> MaxInt64"
    using wq(1) sum tp io pos fit by (simp_all add: packed_ok_def q_def)
  moreover have "merge_fast p src = (?out, q)" using r(1) by (simp only: tn q_def length_rev)
  moreover have "p_geom q = p_geom p" "p_totalCount q = p_totalCount p + ?in" using r(4) by (simp_all add: q_def with_entries_def)
  ultimately show thesis by (intro that) simp_all
qed

text \<open>The dense merge when the totals fit together: every bucket in range is added.\<close>

lemma merge_pairs_fit:
  assumes "hist_ok h" "\<forall>(v, c) \<in> set ps. 0 \<le> v \<and> v \<le> MaxInt64 \<and> 0 \<le> c" "0 \<le> d"
    "d + sum_list (map snd ps) \<le> MaxInt64" "totalCount h + sum_list (map snd ps) \<le> MaxInt64"
  shows "foldl merge_pair (d, h) ps =
    (d + (\<Sum>(v, c)\<leftarrow>ps. if in_array h v then 0 else c),
     h\<lparr>counts := map (\<lambda>k. counts h ! k + (\<Sum>(v, c)\<leftarrow>ps. if in_array h v \<and> countsIndexFor h v = int k then c else 0))
                  [0..<length (counts h)],
       totalCount := totalCount h + (\<Sum>(v, c)\<leftarrow>ps. if in_array h v then c else 0)\<rparr>)"
  using assms
proof (induction ps arbitrary: d h)
  case Nil
  then show ?case by (simp add: map_nth)
next
  case (Cons x ps)
  obtain v c where x: "x = (v, c)" by fastforce
  from Cons.prems x have v: "0 \<le> v" "v \<le> MaxInt64" "0 \<le> c"
    and tl: "\<forall>(v, c) \<in> set ps. 0 \<le> v \<and> v \<le> MaxInt64 \<and> 0 \<le> c" by auto
  have rest: "0 \<le> sum_list (map snd ps)" using tl by (intro sum_list_nonneg_int) fastforce
  note h = Cons.prems(1) and st = setCountAtIndex_record [OF Cons.prems(1) v, of d]
  show ?case
  proof (cases "in_array h v")
    case True
    note i = in_array_index [OF h True]
    have fit: "c \<le> MaxInt64 - totalCount h" using Cons.prems(5) x rest by simp
    define h1 where "h1 = h\<lparr>counts := (counts h)[nat (countsIndexFor h v) := counts h ! nat (countsIndexFor h v) + c],
        totalCount := totalCount h + c\<rparr>"
    have h1: "merge_pair (d, h) (v, c) = (d, h1)" "hist_ok h1"
      using st True fit setCountAtIndex_eq [OF h i(3) v(3) fit] i(1) by (simp_all add: h1_def)
    have "counts h1 ! k = counts h ! k + (if countsIndexFor h v = int k then c else 0)" if "k < length (counts h)" for k
      using that i by (auto simp: h1_def nth_list_update)
    then show ?thesis using Cons.IH [OF h1(2) tl Cons.prems(3)] Cons.prems(4,5) x True v h1(1)
      by (auto simp: add.assoc) (simp_all add: h1_def add.assoc)
  next
    case False
    have "i64 (MaxInt64 - d) = MaxInt64 - d" "i64 (d + c) = d + c"
      using Cons.prems(3,4) x v rest by (intro i64_id; simp)+
    then have "addDropped d c = d + c" using Cons.prems(4) x rest by (simp add: addDropped_def)
    then have "merge_pair (d, h) (v, c) = (d + c, h)" using st False by simp
    then show ?thesis using Cons.IH [OF h tl, of "d + c"] Cons.prems(3-5) x False v by (simp add: add.assoc)
  qed
qed

lemma merge_fast_refines:
  assumes p: "packed_ok p" and src: "packed_ok src" and fit: "sum_list (slots p) + sum_list (slots src) \<le> MaxInt64"
    and same: "sameIndexing (p_geom p) (p_geom src)"
  obtains d q where "merge_fast p src = (d, q)" "foldl merge_pair (0, dense_of p) (buckets_of (dense_of src)) = (d, dense_of q)"
    "packed_ok q" "sum_list (slots q) \<le> MaxInt64" "p_geom q = p_geom p"
proof -
  have wp: "packed_wf p" and ws: "packed_wf src" using p src by (simp_all add: packed_ok_def)
  have g: "geom_ok (p_geom p)" and f: "geom_ok (p_geom src)" using wp ws by (simp_all add: packed_wf_def)
  note es = entries_parts [OF ws] and sp = sum_bounds_packed [OF wp] and ss = sum_bounds_packed [OF ws]
  let ?len = "countsLen (p_geom p)" and ?b = "\<lambda>(i, c). (valueFromFlatIndex (p_geom src) i, c)"
  have fits: "sum_list (slots p) \<le> MaxInt64" "sum_list (slots src) \<le> MaxInt64" "p_totalCount p = sum_list (slots p)"
    using fit sp(1) ss(1) p by (auto simp: packed_ok_def)
  from merge_fast_spec [OF p src fit] obtain d q where q: "merge_fast p src = (d, q)" "packed_ok q" "p_geom q = p_geom p"
    "sum_list (slots q) \<le> MaxInt64" "\<And>k. count_at q k = count_at p k + (if k < ?len then count_at src k else 0)"
    "d = (\<Sum>(k, c)\<leftarrow>entries src. if k < ?len then 0 else c)"
    "p_totalCount q = p_totalCount p + (\<Sum>(k, c)\<leftarrow>entries src. if k < ?len then c else 0)" by blast
  have ix: "countsIndexFor (p_geom p) (valueFromFlatIndex (p_geom src) i) = i \<and>
      (in_array (p_geom p) (valueFromFlatIndex (p_geom src) i) \<longleftrightarrow> i < ?len) \<and>
      0 \<le> valueFromFlatIndex (p_geom src) i \<and> valueFromFlatIndex (p_geom src) i \<le> MaxInt64"
    if "(i, c) \<in> set (entries src)" for i c
    using bucket_index(1) [OF g f entries_range(1,2) [OF ws that]] same
      buckets.low_range [OF f entries_range(1,2) [OF ws that]] by (auto simp: in_array_def)
  have buckets: "buckets_of (dense_of src) = map ?b (entries src)" by (rule buckets_of_dense_of [OF ws])
  have sum: "sum_list (map snd (map ?b (entries src))) = sum_list (slots src)"
    using es(2) by (simp add: o_def case_prod_beta)
  have rng: "\<forall>(v, c) \<in> set (map ?b (entries src)). 0 \<le> v \<and> v \<le> MaxInt64 \<and> 0 \<le> c"
    using ix entries_range(3) [OF ws] by fastforce
  have eq: "(\<Sum>(v, c)\<leftarrow>map ?b xs. F v c) = (\<Sum>(i, c)\<leftarrow>xs. F (valueFromFlatIndex (p_geom src) i) c)"
    for xs and F :: "int \<Rightarrow> int \<Rightarrow> int" by (induction xs) auto
  have sum_cong: "(\<Sum>(i, c)\<leftarrow>entries src. F i c) = (\<Sum>(i, c)\<leftarrow>entries src. G i c)" if "\<And>i c. (i, c) \<in> set (entries src) \<Longrightarrow> F i c = G i c" for F G :: "int \<Rightarrow> int \<Rightarrow> int"
    using that by (intro arg_cong [where f = sum_list] map_cong) auto
  have at: "(\<Sum>(i, c)\<leftarrow>entries src. if in_array (p_geom p) (valueFromFlatIndex (p_geom src) i) \<and>
        countsIndexFor (p_geom p) (valueFromFlatIndex (p_geom src) i) = int k then c else 0) = count_at src (int k)"
    if k: "int k < ?len" for k
  proof -
    have "distinct (map fst (entries src))" using es(1) packed_wfD(3) [OF ws] by simp
    from sum_lookup0 [OF this, of "int k"] have "(\<Sum>(i, c)\<leftarrow>entries src. if i = int k then c else 0) = count_at src (int k)"
      by (simp add: es(4))
    moreover have "(\<Sum>(i, c)\<leftarrow>entries src. if in_array (p_geom p) (valueFromFlatIndex (p_geom src) i) \<and>
        countsIndexFor (p_geom p) (valueFromFlatIndex (p_geom src) i) = int k then c else 0) =
        (\<Sum>(i, c)\<leftarrow>entries src. if i = int k then c else 0)"
      using ix k by (intro sum_cong) auto
    ultimately show ?thesis by simp
  qed
  have "d = (\<Sum>(v, c)\<leftarrow>map ?b (entries src). if in_array (dense_of p) v then 0 else c)"
    unfolding eq q(6) using ix by (intro sum_cong) simp
  moreover have "p_totalCount q = p_totalCount p + (\<Sum>(v, c)\<leftarrow>map ?b (entries src). if in_array (dense_of p) v then c else 0)"
    unfolding eq q(7) add_left_cancel using ix by (intro sum_cong) simp
  moreover have "counts (dense_of q) = map (\<lambda>k. counts (dense_of p) ! k +
      (\<Sum>(v, c)\<leftarrow>map ?b (entries src). if in_array (dense_of p) v \<and> countsIndexFor (dense_of p) v = int k then c else 0))
      [0..<length (counts (dense_of p))]"
    unfolding eq dense_of_simps using at by (intro nth_equalityI) (simp_all add: nth_dense_of q(3,5) zless_nat_eq_int_zless)
  moreover have "dense_of q = (dense_of p)\<lparr>counts := counts (dense_of q), totalCount := p_totalCount q\<rparr>"
    by (simp add: dense_of_def q(3))
  ultimately have "foldl merge_pair (0, dense_of p) (buckets_of (dense_of src)) = (d, dense_of q)"
    unfolding buckets using merge_pairs_fit [OF hist_ok_dense_of [OF p fits(1)] rng, of 0] fits fit sum by simp
  with q that show thesis by blast
qed


lemma Merge_p_refines_dense:
  assumes p: "packed_ok p" and src: "packed_ok src" and fits: "sum_list (slots p) \<le> MaxInt64" "sum_list (slots src) \<le> MaxInt64"
  obtains d q where "Merge_p p src = (d, q)" "Merge (dense_of p) (dense_of src) = Inr (d, dense_of q)"
    "packed_ok q" "sum_list (slots q) \<le> MaxInt64" "p_geom q = p_geom p"
proof -
  have wp: "packed_wf p" and ws: "packed_wf src" using p src by (simp_all add: packed_ok_def)
  note sp = sum_bounds_packed [OF wp] and ss = sum_bounds_packed [OF ws]
  have t: "p_totalCount p = sum_list (slots p)" "p_totalCount src = sum_list (slots src)" using p src fits by (simp_all add: packed_ok_def)
  have mt: "i64 (MaxInt64 - p_totalCount p) = MaxInt64 - p_totalCount p" using t fits sp(1) by (intro i64_id) simp_all
  let ?same = "sameIndexing (p_geom p) (p_geom src)"
  have M: "Merge (dense_of p) (dense_of src) = Inr (foldl merge_pair (0, dense_of p) (buckets_of (dense_of src)))"
    by (rule Merge_buckets_of [OF hist_ok_dense_of [OF src fits(2)]])
  consider (empty) "p_size src = 0" | (slow) "p_size src \<noteq> 0" "\<not> ?same \<or> p_totalCount src = MaxInt64 \<or> p_totalCount src > MaxInt64 - p_totalCount p"
    | (fast) "p_size src \<noteq> 0" "?same" "p_totalCount src \<noteq> MaxInt64" "\<not> p_totalCount src > MaxInt64 - p_totalCount p" by blast
  then show thesis
  proof cases
    case empty
    then have "buckets_of (dense_of src) = []" by (simp add: buckets_of_dense_of [OF ws] entries_nth [OF ws])
    with empty p fits M show thesis by (intro that [of 0 p]) (simp_all add: Merge_p_def)
  next
    case slow
    from from_packed_refines [OF p fits(1) ws] obtain d q where
      "foldl (from_packed ?same src) (0, p) [0..<nat (p_size src)] = (d, q)"
      "foldl merge_pair (0, dense_of p) (buckets_of (dense_of src)) = (d, dense_of q)"
      "packed_ok q" "sum_list (slots q) \<le> MaxInt64" "p_geom q = p_geom p" by blast
    with slow M show thesis by (intro that [of d q]) (auto simp: Merge_p_def mt)
  next
    case fast
    then have "sum_list (slots p) + sum_list (slots src) \<le> MaxInt64" using t by linarith
    from merge_fast_refines [OF p src this fast(2)] obtain d q where "merge_fast p src = (d, q)"
      "foldl merge_pair (0, dense_of p) (buckets_of (dense_of src)) = (d, dense_of q)"
      "packed_ok q" "sum_list (slots q) \<le> MaxInt64" "p_geom q = p_geom p" by blast
    with fast M show thesis by (intro that [of d q]) (simp_all add: Merge_p_def mt)
  qed
qed

section \<open>Reset, compaction, iteration, copies\<close>

lemma Reset_p_ok:
  assumes "packed_wf p"
  shows "packed_ok (Reset_p p)" "dense_of (Reset_p p) = Reset (dense_of p)" "slots (Reset_p p) = []"
    "p_width (Reset_p p) = p_width p"
proof -
  show s: "slots (Reset_p p) = []" by (simp add: Reset_p_def slots_def)
  show "p_width (Reset_p p) = p_width p" by (simp add: Reset_p_def)
  have "geom_ok (p_geom (Reset_p p))" "is_width (p_width p)" "0 \<le> lastPos p"
    using assms by (auto simp: packed_wf_def holds_def Reset_p_def)
  then show "packed_ok (Reset_p p)" by (simp add: packed_ok_def packed_wf_def holds_def s) (simp add: Reset_p_def)
  have "count_at (Reset_p p) k = 0" for k by (simp add: count_at_def s)
  then show "dense_of (Reset_p p) = Reset (dense_of p)"
    by (simp add: dense_of_def Reset_def o_def map_replicate_const) (simp add: Reset_p_def)
qed


lemma Compact_ok:
  assumes ok: "packed_ok p"
  shows "slots (Compact p) = slots p" "p_idx (Compact p) = p_idx p" "packed_ok (Compact p)"
    "p_geom (Compact p) = p_geom p" "p_totalCount (Compact p) = p_totalCount p"
    "p_width (Compact p) = 1 \<or> (\<exists>c \<in> set (slots p). packedWidthMax (p_width (Compact p) div 2) < c)"
proof -
  have wf: "packed_wf p" using ok by (simp add: packed_ok_def)
  note D = packed_wfD [OF wf]
  have all: "slots (Compact p) = slots p \<and> p_idx (Compact p) = p_idx p \<and> packed_ok (Compact p) \<and>
    p_geom (Compact p) = p_geom p \<and> p_totalCount (Compact p) = p_totalCount p \<and>
    (p_width (Compact p) = 1 \<or> (\<exists>c \<in> set (slots p). packedWidthMax (p_width (Compact p) div 2) < c))"
  proof (cases "p_size p = 0")
    case True
    then have e: "p_idx p = []" "slots p = []" using D(4,5) by auto
    have "slots (Compact p) = []" using True by (simp add: Compact_def slots_def)
    then show ?thesis using ok True e
      by (simp add: packed_ok_def packed_wf_def holds_def is_width_def) (simp add: Compact_def)
  next
    case False
    define n where "n = length (slots p)"
    have n: "nat (p_size p) = n" "p_size p = int n" "n = length (p_idx p)" using D(4,5) by (simp_all add: n_def)
    have get: "i < n \<Longrightarrow> slotGet p (int i) = slots p ! i" for i using slotGet_nth [OF D(1)] by (simp add: n_def)
    define L where "L = foldl (\<lambda>l i. max l (slotGet p (int i))) 0 [0..<n]"
    have lg: "foldl (\<lambda>m i. if m < slotGet p (int i) then slotGet p (int i) else m) 0 [0..<n] = L"
      unfolding L_def by (rule foldl_cong) auto
    define w where "w = widen_width L 1"
    have b: "is_width (p_width p)" "\<forall>v \<in> set (slots p). v \<le> packedWidthMax (p_width p)" using D(1) by (auto simp: holds_def)
    have "slotGet p (int i) \<le> MaxInt64" if "i < n" for i
    proof -
      have "slots p ! i \<in> set (slots p)" using that by (simp add: n_def)
      with b(2) packedWidthMax_bounds(2) [OF b(1)] get [OF that] show ?thesis by fastforce
    qed
    then have "L \<le> MaxInt64" unfolding L_def by (intro foldl_max_bounds(3)) simp_all
    note W = widen_width_ok [of 1 L, folded w_def, OF _ this]
    have w: "is_width w" "L \<le> packedWidthMax w" using W by (simp_all add: is_width_def)
    have le: "c \<le> packedWidthMax w" if c: "c \<in> set (slots p)" for c
    proof -
      from c obtain i where i: "i < n" "slots p ! i = c" by (auto simp: in_set_conv_nth n_def)
      have "slotGet p (int i) \<le> L" unfolding L_def by (rule foldl_max_bounds(2)) (use i in simp)
      with i get w(2) show ?thesis by simp
    qed
    have "foldl (\<lambda>b i. putPackedCount b (int i * w) w (slotGet p (int i))) z [0..<n] =
        foldl (\<lambda>b i. putPackedCount b (int i * w) w (slots p ! i)) z [0..<n]" for z
      using get by (intro foldl_cong) auto
    with repack [OF w(1), of n "slots p"] have
      c: "Compact p = p\<lparr>p_cnt := pack (slot_bytes w) (slots p), p_width := w\<rparr>"
      using False unfolding Compact_def Let_def n(1) lg w_def [symmetric]
      by (simp add: n D(4) [symmetric] slot_offset [OF w(1)])
    have h: "holds (Compact p) (slots p)" using D le wf w(1) by (auto simp: c holds_def packed_wf_def)
    then have s: "slots (Compact p) = slots p" by (rule slots_holds)
    have "w = 1 \<or> (\<exists>c \<in> set (slots p). packedWidthMax (w div 2) < c)"
    proof (rule disjCI)
      assume "\<not> (\<exists>c \<in> set (slots p). packedWidthMax (w div 2) < c)"
      then have "\<forall>i \<in> set [0..<n]. slotGet p (int i) \<le> packedWidthMax (w div 2)" using get by (auto simp: n_def not_less)
      moreover have "0 \<le> packedWidthMax (w div 2)" by (simp add: packedWidthMax_def)
      ultimately have "L \<le> packedWidthMax (w div 2)" unfolding L_def by (intro foldl_max_bounds(3)) auto
      with widen_width_least [of 1 L, folded w_def] show "w = 1" by (auto simp: is_width_def)
    qed
    then show ?thesis using ok h s by (simp add: packed_ok_def packed_wf_def c)
  qed
  then show "slots (Compact p) = slots p" "p_idx (Compact p) = p_idx p" "packed_ok (Compact p)"
    "p_geom (Compact p) = p_geom p" "p_totalCount (Compact p) = p_totalCount p"
    "p_width (Compact p) = 1 \<or> (\<exists>c \<in> set (slots p). packedWidthMax (p_width (Compact p) div 2) < c)" by simp_all
qed

fun visit :: "(int \<Rightarrow> int \<Rightarrow> 's \<Rightarrow> bool \<times> 's) \<Rightarrow> (int \<times> int) list \<Rightarrow> 's \<Rightarrow> 's" where
  "visit fn [] s = s"
| "visit fn ((v, c) # xs) s = (case fn v c s of (True, s') \<Rightarrow> visit fn xs s' | (False, s') \<Rightarrow> s')"

lemma ForEachBucket_visit:
  assumes "packed_wf p"
  shows "ForEachBucket p fn s = visit fn (buckets_of (dense_of p)) s"
proof -
  have "forEach_loop p fn is s = visit fn (map (\<lambda>i. (valueFromFlatIndex (p_geom p) (p_idx p ! i), slotGet p (int i))) is) s" for "is"
    by (induction "is" arbitrary: s) (auto split: prod.splits bool.splits)
  then show ?thesis by (simp add: ForEachBucket_def buckets_of_dense_of [OF assms] entries_nth [OF assms] o_def)
qed

section \<open>Corrected recording\<close>

lemma corrected_loop_dense_of:
  assumes "packed_ok p" "sum_list (slots p) \<le> MaxInt64" "v \<le> MaxInt64"
  shows "corrected_loop (dense_of p) v e = (fst (corrected_loop_p p v e), dense_of (snd (corrected_loop_p p v e))) \<and>
         packed_ok (snd (corrected_loop_p p v e)) \<and> sum_list (slots (snd (corrected_loop_p p v e))) \<le> MaxInt64"
  using assms
proof (induction p v e rule: corrected_loop_p.induct)
  case (1 p v e)
  show ?case
  proof (cases "0 < e \<and> e \<le> v")
    case True
    obtain r q where q: "RecordValues_p p v 1 = (r, q)" by fastforce
    note D = RecordValues_dense_of [OF "1.prems", of 1, unfolded q fst_conv snd_conv]
    show ?thesis
    proof (cases r)
      case None
      have iv: "i64 (v - e) = v - e" using True "1.prems"(3) by (intro i64_id) linarith+
      have p: "corrected_loop_p p v e = corrected_loop_p q (v - e) e"
        using True q None by (subst corrected_loop_p.simps) (simp add: RecordValue_p_def iv)
      have d: "corrected_loop (dense_of p) v e = corrected_loop (dense_of q) (v - e) e"
        using True D(1) None by (subst corrected_loop.simps) (simp add: RecordValue_def iv)
      from "1.IH" [OF True, of r q] q None D(2,3) True "1.prems"(3) iv show ?thesis
        unfolding p d by (simp add: RecordValue_p_def)
    next
      case (Some err)
      have p: "corrected_loop_p p v e = (Some err, q)"
        using True q Some by (subst corrected_loop_p.simps) (simp add: RecordValue_p_def)
      have d: "corrected_loop (dense_of p) v e = (Some err, dense_of q)"
        using True D(1) Some by (subst corrected_loop.simps) (simp add: RecordValue_def)
      show ?thesis unfolding p d using D by simp
    qed
  next
    case False
    have p: "corrected_loop_p p v e = (None, p)" using False by (subst corrected_loop_p.simps) auto
    have d: "corrected_loop (dense_of p) v e = (None, dense_of p)" using False by (subst corrected_loop.simps) auto
    show ?thesis unfolding p d using "1.prems" by simp
  qed
qed

lemma RecordCorrectedValue_dense_of:
  assumes "packed_ok p" "sum_list (slots p) \<le> MaxInt64" "v \<le> MaxInt64"
  shows "RecordCorrectedValue (dense_of p) v e =
      (fst (RecordCorrectedValue_p p v e), dense_of (snd (RecordCorrectedValue_p p v e))) \<and>
    packed_ok (snd (RecordCorrectedValue_p p v e))"
proof -
  obtain r q where q: "RecordValues_p p v 1 = (r, q)" by fastforce
  note D = RecordValues_dense_of [OF assms, of 1, unfolded q fst_conv snd_conv]
  have "i64 (v - e) \<le> MaxInt64" by (simp add: i64_def)
  note L = corrected_loop_dense_of [OF D(2,3) this, of e]
  show ?thesis using D L q
    by (cases r) (simp_all add: RecordCorrectedValue_def RecordCorrectedValue_p_def RecordValue_def RecordValue_p_def)
qed

section \<open>Merging a histogram with itself\<close>

lemma sparse_same_idx:
  assumes "packed_wf p" "packed_wf q" "set (p_idx q) = set (p_idx p)"
  shows "p_idx q = p_idx p"
  using assms packed_wfD(2) strict_sorted_equal by metis

lemma self_loop_doubles:
  assumes p: "packed_ok p" and fit: "2 * sum_list (slots p) \<le> MaxInt64"
  shows "k \<le> length (p_idx p) \<Longrightarrow> packed_ok q \<Longrightarrow> p_geom q = p_geom p \<Longrightarrow> p_idx q = p_idx p \<Longrightarrow>
    p_totalCount q = p_totalCount p + sum_list (take k (slots p)) \<Longrightarrow> p_totalCount q = sum_list (slots q) \<Longrightarrow>
    (\<And>j. j < length (p_idx p) \<Longrightarrow> slots q ! j = (if j < k then 2 else 1) * slots p ! j) \<Longrightarrow>
    fuel = Suc (length (p_idx p) - k) \<Longrightarrow>
    \<exists>r. self_loop fuel k (0, q) = (0, r) \<and> packed_ok r \<and> p_geom r = p_geom p \<and>
        p_idx r = p_idx p \<and> slots r = map (\<lambda>c. 2 * c) (slots p) \<and> p_totalCount r = 2 * p_totalCount p"
proof (induction "length (p_idx p) - k" arbitrary: k q fuel)
  case 0
  then have k: "k = length (p_idx p)" by simp
  have wp: "packed_wf p" and wq: "packed_wf q" using p 0 by (auto simp: packed_ok_def)
  note P = packed_wfD [OF wp] and Q = packed_wfD [OF wq]
  have "slots q = map (\<lambda>c. 2 * c) (slots p)"
    using 0 k P(4) Q(4) by (intro nth_equalityI) auto
  moreover have "p_totalCount p = sum_list (slots p)" using p fit sum_bounds_packed(1) [OF wp] by (auto simp: packed_ok_def)
  ultimately show ?case using 0 k Q(5) P(4) by simp
next
  case (Suc n)
  have wp: "packed_wf p" and wq: "packed_wf q" using p Suc.prems by (auto simp: packed_ok_def)
  note P = packed_wfD [OF wp] and Q = packed_wfD [OF wq] and sp = sum_bounds_packed [OF wp]
  have kl: "k < length (p_idx p)" using Suc.hyps(2) by simp
  have tp: "p_totalCount p = sum_list (slots p)" using p fit sp(1) by (auto simp: packed_ok_def)
  let ?i = "p_idx p ! k" and ?c = "slots p ! k"
  have c: "0 < ?c" using wp kl P(4) by (auto simp: packed_wf_def)
  have nn: "\<forall>c \<in> set (slots p). 0 \<le> c" using wp by (auto simp: packed_wf_def)
  have sub: "sum_list (take (Suc k) (slots p)) = sum_list (take k (slots p)) + ?c"
    using kl P(4) by (simp add: take_Suc_conv_app_nth)
  have "0 \<le> sum_list (take k (slots p))" by (rule sum_list_nonneg_int) (use nn in \<open>auto dest: in_set_takeD\<close>)
  note sub = sub prefix_sum_le [OF nn, of "Suc k"] this
  have g: "geom_ok (p_geom p)" and ir: "0 \<le> ?i" "?i < countsLen (p_geom p)"
    using wp kl by (auto simp: packed_wf_def)
  note v = buckets.low_range [OF g ir] and ix = buckets.index_low [OF g ir]
  have get: "slotGet q (int k) = ?c" using slotGet_nth [OF Q(1), of k] Suc.prems(4,7) kl Q(4) by simp
  have u: "u32 ?i = ?i" "u32 (countsLen (p_geom p)) = countsLen (p_geom p)"
    using ir countsLen_bound(2) [OF g] by (auto intro!: u32_id)
  have at: "count_at q ?i = ?c" using count_at_nth [OF wq, of k] Suc.prems(4,7) kl by simp
  have tq: "p_totalCount q + ?c \<le> MaxInt64" using Suc.prems(5) tp sub fit by linarith
  have "count_at q ?i + ?c \<le> MaxInt64" using sum_bounds_packed(2) [OF wq, of ?i] at tq Suc.prems(6) by linarith
  moreover have "?i < countsLen (p_geom q)" using ir Suc.prems(3) by simp
  ultimately obtain pos r where
    r: "sparseAdd q ?i ?c = (pos, r)" "packed_wf r" "count_at r = (count_at q)(?i := count_at q ?i + ?c)"
    "sum_list (slots r) = sum_list (slots q) + ?c" "p_geom r = p_geom q" "p_totalCount r = p_totalCount q"
    "set (p_idx r) = insert ?i (set (p_idx q))" using sparseAdd_spec [OF wq ir(1) _ c] by blast
  have idx: "p_idx r = p_idx p" using sparse_same_idx [OF wp r(2)] r(7) Suc.prems(4) kl by (simp add: insert_absorb)
  define r' where "r' = r\<lparr>p_totalCount := p_totalCount q + ?c\<rparr>"
  have tot: "0 \<le> p_totalCount q" using Suc.prems(5) tp sub sp(1) by simp
  have i64s: "i64 (MaxInt64 - p_totalCount q) = MaxInt64 - p_totalCount q" "i64 (p_totalCount q + ?c) = p_totalCount q + ?c"
    using tq tot c by (intro i64_id; linarith)+
  have step: "add_bucket (0, q) ?i (slotGet q (int k)) = (0, r')"
    using ir tq u Suc.prems(3) by (simp add: add_bucket_def get r(1,6) i64s r'_def)
  have "slots r' ! j = (if j < Suc k then 2 else 1) * slots p ! j" if "j < length (p_idx p)" for j
  proof -
    have "slots r ! j = count_at r (p_idx p ! j)" using count_at_nth [OF r(2)] idx that by simp
    moreover have "p_idx p ! j = ?i \<longleftrightarrow> j = k" using nth_eq_iff_index_eq [OF P(3)] that kl by simp
    moreover have "count_at q (p_idx p ! j) = slots q ! j" using count_at_nth [OF wq, of j] Suc.prems(4) that by simp
    ultimately show ?thesis using Suc.prems(7) [OF that] by (auto simp: r'_def r(3))
  qed
  moreover have "packed_ok r'" using r(2,4) Suc.prems(6) tq by (simp add: packed_ok_def r'_def)
  moreover have "p_totalCount r' = p_totalCount p + sum_list (take (Suc k) (slots p))" "p_totalCount r' = sum_list (slots r')"
    "p_geom r' = p_geom p" "p_idx r' = p_idx p"
    using Suc.prems(3,5,6) sub r(4,5) idx by (simp_all add: r'_def)
  moreover have "self_loop fuel k (0, q) = self_loop (Suc (length (p_idx p) - Suc k)) (Suc k) (0, r')"
    using Suc.prems(4,8) kl Q(5) step Suc_diff_Suc [OF kl] by simp
  ultimately show ?case using Suc.hyps(1) [of "Suc k" r'] Suc.hyps(2) kl by simp
qed

lemma Merge_self_doubles:
  assumes p: "packed_ok p" and fit: "2 * sum_list (slots p) \<le> MaxInt64"
  obtains q where "Merge_self p = (0, q)" "packed_ok q" "p_geom q = p_geom p" "p_idx q = p_idx p"
    "slots q = map (\<lambda>c. 2 * c) (slots p)" "p_totalCount q = 2 * p_totalCount p"
proof (cases "p_size p = 0")
  case True
  have wp: "packed_wf p" using p by (simp add: packed_ok_def)
  with True have "slots p = []" using packed_wfD(4,5) [OF wp] by simp
  with True p show thesis by (intro that [of p]) (simp_all add: Merge_self_def packed_ok_def)
next
  case False
  have wp: "packed_wf p" using p by (simp add: packed_ok_def)
  note P = packed_wfD [OF wp]
  have "p_totalCount p = sum_list (slots p)" using p fit sum_bounds_packed(1) [OF wp] by (auto simp: packed_ok_def)
  from self_loop_doubles [OF p fit, of 0 p "Suc (length (p_idx p))"] p this False P(5) that show thesis
    by (auto simp: Merge_self_def)
qed

section \<open>Properties\<close>

text \<open>C15: Merging one sparse histogram into another refines the merge of the dense histograms
  they stand for, on all three paths: the empty source, the bucket-by-bucket loop, and the
  linear merge of the two sorted arrays in place. The dropped counts agree, and the invariant is
  kept.\<close>

theorem Merge_p_refines:
  assumes "packed_ok p" "packed_ok src" "sum_list (slots p) \<le> MaxInt64" "sum_list (slots src) \<le> MaxInt64"
  shows "Merge (dense_of p) (dense_of src) = Inr (fst (Merge_p p src), dense_of (snd (Merge_p p src))) \<and>
         packed_ok (snd (Merge_p p src)) \<and> sum_list (slots (snd (Merge_p p src))) \<le> MaxInt64"
proof -
  from Merge_p_refines_dense [OF assms] obtain d q where
    "Merge_p p src = (d, q)" "Merge (dense_of p) (dense_of src) = Inr (d, dense_of q)"
    "packed_ok q" "sum_list (slots q) \<le> MaxInt64" by blast
  then show ?thesis by simp
qed

definition sample_other :: packed where
  "sample_other = \<lparr>p_geom = sample_geometry, p_idx = [3, 51, 60], p_cnt = [7, 250, 9], p_width = 1, p_size = 3,
     p_totalCount = 266, lastIndex = 0, lastPos = 0\<rparr>"

lemma sample_other_ok: "packed_ok sample_other" "slots sample_other = [7, 250, 9]"
proof -
  show s: "slots sample_other = [7, 250, 9]" by code_simp
  have "p_cnt sample_other = pack (slot_bytes (p_width sample_other)) [7, 250, 9]" by code_simp
  then show "packed_ok sample_other"
    unfolding packed_ok_def packed_wf_def holds_def s
    by (simp add: sample_other_def sample_geometry_ok is_width_def packedWidthMax_def) (simp add: sample_geometry_def)
qed

theorem Merge_p_refines_witness:
  "Merge (dense_of sample_other) (dense_of sample_packed) =
     Inr (0, dense_of (snd (Merge_p sample_other sample_packed))) \<and>
   p_idx (snd (Merge_p sample_other sample_packed)) = [3, 5, 51, 60] \<and>
   slots (snd (Merge_p sample_other sample_packed)) = [7, 300, 252, 9]"
proof -
  have "fst (Merge_p sample_other sample_packed) = 0" "p_idx (snd (Merge_p sample_other sample_packed)) = [3, 5, 51, 60]"
    "slots (snd (Merge_p sample_other sample_packed)) = [7, 300, 252, 9]" by code_simp+
  with Merge_p_refines [OF sample_other_ok(1) sample_packed_ok(1)] show ?thesis
    by (simp add: sample_other_ok(2) sample_packed_ok(3))
qed

text \<open>C16: Merging a sparse histogram into a dense one is the dense merge of its dense equivalent,
  whether the indices are copied or recomputed.\<close>

theorem MergeInto_refines:
  assumes "packed_ok p" "sum_list (slots p) \<le> MaxInt64" "hist_ok dst"
  shows "Merge dst (dense_of p) = Inr (MergeInto p dst)"
proof -
  have "packed_wf p" using assms(1) by (simp add: packed_ok_def)
  then show ?thesis using Merge_buckets_of [OF hist_ok_dense_of [OF assms(1,2)]] MergeInto_fold [OF _ assms(3)] by simp
qed

theorem MergeInto_refines_witness:
  "Merge sample_recorded (dense_of sample_packed) = Inr (MergeInto sample_packed sample_recorded)"
  using MergeInto_refines [OF sample_packed_ok(1) _ represents_ok [OF sample_recorded_represents]] sample_packed_ok(2) by simp

text \<open>C17: Merging a dense histogram into a sparse one refines the dense merge, with the same
  dropped count, and keeps the invariant.\<close>

theorem MergeFrom_refines:
  assumes "packed_ok p" "sum_list (slots p) \<le> MaxInt64" "hist_ok src"
  shows "Merge (dense_of p) src = Inr (fst (MergeFrom p src), dense_of (snd (MergeFrom p src))) \<and>
         packed_ok (snd (MergeFrom p src))"
proof -
  from MergeFrom_refines_dense [OF assms] obtain d q where
    "MergeFrom p src = (d, q)" "Merge (dense_of p) src = Inr (d, dense_of q)" "packed_ok q" by blast
  then show ?thesis by simp
qed

theorem MergeFrom_refines_witness:
  "Merge (dense_of sample_packed) sample_recorded =
     Inr (fst (MergeFrom sample_packed sample_recorded), dense_of (snd (MergeFrom sample_packed sample_recorded))) \<and>
   slots (snd (MergeFrom sample_packed sample_recorded)) = [303, 4]"
proof -
  have "slots (snd (MergeFrom sample_packed sample_recorded)) = [303, 4]" by code_simp
  with MergeFrom_refines [OF sample_packed_ok(1) _ represents_ok [OF sample_recorded_represents]] sample_packed_ok(2)
  show ?thesis by simp
qed

text \<open>Merging a sparse histogram with itself, which reads the counts it is changing, ends
  and doubles every count and the total when the doubled total fits.\<close>

theorem Merge_self_correct:
  assumes "packed_ok p" "2 * sum_list (slots p) \<le> MaxInt64"
  shows "\<exists>q. Merge_self p = (0, q) \<and> packed_ok q \<and> p_idx q = p_idx p \<and>
             slots q = map (\<lambda>c. 2 * c) (slots p) \<and> p_totalCount q = 2 * p_totalCount p"
  using Merge_self_doubles [OF assms] by metis

theorem Merge_self_correct_witness:
  "\<exists>q. Merge_self sample_packed = (0, q) \<and> packed_ok q \<and> slots q = [600, 4] \<and> p_totalCount q = 604"
proof -
  have t: "p_totalCount sample_packed = 302" by (simp add: sample_packed_def)
  show ?thesis using Merge_self_correct [OF sample_packed_ok(1)] by (auto simp: sample_packed_ok(3) t)
qed

text \<open>Compacting keeps the populated buckets, their counts, the total and the geometry, and
  leaves the narrowest width that holds every count.\<close>

theorem Compact_keeps:
  assumes "packed_ok p"
  shows "p_idx (Compact p) = p_idx p \<and> slots (Compact p) = slots p \<and> p_totalCount (Compact p) = p_totalCount p \<and>
         p_geom (Compact p) = p_geom p \<and> packed_ok (Compact p) \<and>
         (p_width (Compact p) = 1 \<or> (\<exists>c \<in> set (slots p). packedWidthMax (p_width (Compact p) div 2) < c))"
  using Compact_ok [OF assms] by simp

theorem Compact_keeps_witness:
  "slots (Compact (widenToFit sample_packed 70000)) = [300, 2] \<and> p_width (Compact (widenToFit sample_packed 70000)) = 2"
proof -
  have wf: "packed_wf sample_packed" using sample_packed_ok(1) by (simp add: packed_ok_def)
  have "packed_ok (widenToFit sample_packed 70000)" "slots (widenToFit sample_packed 70000) = [300, 2]"
    using sample_packed_ok widenToFit_ok [OF wf, of 70000] by (auto simp: packed_ok_def)
  moreover have "p_width (Compact (widenToFit sample_packed 70000)) = 2" by code_simp
  ultimately show ?thesis using Compact_keeps [of "widenToFit sample_packed 70000"] by simp
qed

text \<open>Resetting a sparse histogram gives an empty one that stands for the reset dense
  histogram and keeps the count width; iterating calls the function on the populated buckets of
  the dense equivalent in ascending order, up to the first call that returns false.\<close>

theorem Reset_ForEach_refine:
  assumes "packed_wf p"
  shows "packed_ok (Reset_p p) \<and> dense_of (Reset_p p) = Reset (dense_of p) \<and> p_width (Reset_p p) = p_width p \<and>
         ForEachBucket p fn s = visit fn (buckets_of (dense_of p)) s"
  using Reset_p_ok [OF assms] ForEachBucket_visit [OF assms] by simp

theorem Reset_ForEach_refine_witness:
  "packed_ok (Reset_p sample_packed) \<and>
   ForEachBucket sample_packed (\<lambda>v c s. (v < 70, (v, c) # s)) [] = [(76, 2), (5, 300)]"
proof -
  have wf: "packed_wf sample_packed" using sample_packed_ok(1) by (simp add: packed_ok_def)
  have "visit (\<lambda>v c s. (v < 70, (v, c) # s)) (buckets_of (dense_of sample_packed)) [] = [(76, 2), (5, 300)]" by code_simp
  with Reset_ForEach_refine [OF wf, of "\<lambda>v c s. (v < 70, (v, c) # s)" "[]"] show ?thesis by simp
qed

text \<open>Corrected recording into a sparse histogram refines corrected recording into the dense
  one, including an error part-way, after which the values recorded so far remain.\<close>

theorem packed_corrected_refines:
  assumes "packed_ok p" "sum_list (slots p) \<le> MaxInt64" "v \<le> MaxInt64"
  shows "RecordCorrectedValue (dense_of p) v e =
           (fst (RecordCorrectedValue_p p v e), dense_of (snd (RecordCorrectedValue_p p v e))) \<and>
         packed_ok (snd (RecordCorrectedValue_p p v e))"
  using RecordCorrectedValue_dense_of [OF assms] .

theorem packed_corrected_refines_witness:
  "RecordCorrectedValue (dense_of sample_packed) 100 30 =
     (None, dense_of (snd (RecordCorrectedValue_p sample_packed 100 30))) \<and>
   p_totalCount (snd (RecordCorrectedValue_p sample_packed 100 30)) = 305"
proof -
  have "fst (RecordCorrectedValue_p sample_packed 100 30) = None"
    "p_totalCount (snd (RecordCorrectedValue_p sample_packed 100 30)) = 305" by code_simp+
  with packed_corrected_refines [OF sample_packed_ok(1), of 100 30] show ?thesis by (simp add: sample_packed_ok(2))
qed

end
