(* ===== verification/Encoding.thy ===== *)
theory Encoding
  imports Hist_Spec Bytes
begin

text \<open>
  The V2 compressed wire format of the dense histogram (\<open>hdr_encoding.go\<close>): the run-length and
  ZigZag coded payload, the 40-byte header, the compressed envelope and its base64 text, and the
  hardened decoder.

  The zlib streams are parameters. \<open>deflate\<close> is what a \<open>zlib.Writer\<close> makes of the bytes written to
  it. \<open>inflate\<close> is what a \<open>zlib.Reader\<close> delivers: nothing when \<open>NewReader\<close> fails, or the bytes that
  can be read and how the stream ends after them. The errors of the zlib package are not told
  apart. Closing a reader whose end has been reached reports
  no further error.
\<close>

unbundle bit_operations_syntax

section \<open>Constants and streams\<close>

definition V2EncodingCookieBase :: int where
  "V2EncodingCookieBase = 0x1c849303"

definition V2CompressedEncodingCookieBase :: int where
  "V2CompressedEncodingCookieBase = 0x1c849304"

definition encodingCookie :: int where
  "encodingCookie = V2EncodingCookieBase OR 0x10"

definition compressedEncodingCookie :: int where
  "compressedEncodingCookie = V2CompressedEncodingCookieBase OR 0x10"

definition ENCODING_HEADER_SIZE :: nat where
  "ENCODING_HEADER_SIZE = 40"

datatype stream_end = Eof | UnexpectedEof | Corrupt

text \<open>\<open>io.ReadFull\<close> of \<open>n\<close> bytes: the bytes and the rest of the stream, or the error of a short
  stream, which the callers turn into a truncation error unless the stream itself is corrupt.\<close>

definition ReadFull :: "byte list \<times> stream_end \<Rightarrow> nat \<Rightarrow> error + byte list \<times> (byte list \<times> stream_end)" where
  "ReadFull st n =
     (let (bs, fin) = st
      in if n \<le> length bs then Inr (take n bs, (drop n bs, fin))
         else case fin of
                Corrupt \<Rightarrow> Inl ZlibError
              | _ \<Rightarrow> Inl (HeaderTruncated (int (length bs)) (int n)))"

text \<open>\<open>io.ReadAll\<close> of a \<open>LimitReader\<close>: the end of the stream is only seen below the limit.\<close>

definition ReadAllLimited :: "byte list \<times> stream_end \<Rightarrow> int \<Rightarrow> error + byte list" where
  "ReadAllLimited st limit =
     (let (bs, fin) = st
      in if limit \<le> int (length bs) then Inr (take (nat limit) bs)
         else case fin of
                Eof \<Rightarrow> Inr bs
              | _ \<Rightarrow> Inl ZlibError)"

section \<open>Encoding\<close>

definition getNormalizingIndexOffset :: "histogram \<Rightarrow> int" where
  "getNormalizingIndexOffset h = 0"

text \<open>The ratio is compared with zero as a \<open>float64\<close>: both zeros are equal to it.\<close>

definition getIntegerToDoubleValueConversionRatio :: "histogram \<Rightarrow> 64 word" where
  "getIntegerToDoubleValueConversionRatio h =
     (if conversionRatio h = 0 \<or> conversionRatio h = 0x8000000000000000 then 0x3FF0000000000000
      else conversionRatio h)"

text \<open>The loop over \<open>counts[0:countsLimit]\<close>; the inner loop counts the zeros that follow one.\<close>

fun zero_run :: "int list \<Rightarrow> nat" where
  "zero_run (c # cs) = (if c = 0 then Suc (zero_run cs) else 0)"
| "zero_run [] = 0"

lemma zero_run_le: "zero_run cs \<le> length cs"
  by (induction cs rule: zero_run.induct) auto

function fill_buffer :: "int list \<Rightarrow> byte list" where
  "fill_buffer [] = []"
| "fill_buffer (c # cs) =
     (let zeros = (if c = 0 then 1 + zero_run cs else 0);
          rest = (if c = 0 then drop (zero_run cs) cs else cs)
      in (if zeros > 1 then zig_zag_encode_i64 (word_of_int (- int zeros))
          else zig_zag_encode_i64 (word_of_int c)) @ fill_buffer rest)"
  by pat_completeness auto
termination by (relation "measure length") (auto simp: le_imp_less_Suc)

definition fillBufferFromCountsArray :: "histogram \<Rightarrow> error + byte list" where
  "fillBufferFromCountsArray h =
     (case Max_h h of
        Inl e \<Rightarrow> Inl e
      | Inr mx \<Rightarrow>
          let countsLimit = i32 (countsIndexFor h mx + 1)
          in if countsLimit > int (length (counts h))
             then Inl (Panic (IndexOutOfRange (int (length (counts h))) (int (length (counts h)))))
             else Inr (fill_buffer (take (nat countsLimit) (counts h))))"

definition encodeIntoByteBuffer :: "histogram \<Rightarrow> error + byte list" where
  "encodeIntoByteBuffer h =
     (case fillBufferFromCountsArray h of
        Inl e \<Rightarrow> Inl e
      | Inr countsBytes \<Rightarrow>
          Inr (be_bytes 4 encodingCookie @ be_bytes 4 (i32 (int (length countsBytes))) @
               be_bytes 4 (getNormalizingIndexOffset h) @ be_bytes 4 (i32 (significantFigures h)) @
               be_bytes 8 (lowestDiscernibleValue h) @ be_bytes 8 (highestTrackableValue h) @
               be_bytes 8 (uint (getIntegerToDoubleValueConversionRatio h)) @ countsBytes))"

definition dumpV2CompressedEncoding :: "(byte list \<Rightarrow> byte list) \<Rightarrow> histogram \<Rightarrow> error + byte list" where
  "dumpV2CompressedEncoding deflate h =
     (case encodeIntoByteBuffer h of
        Inl e \<Rightarrow> Inl e
      | Inr toCompress \<Rightarrow>
          let compressedContents = deflate toCompress
          in Inr (EncodeToString (be_bytes 4 compressedEncodingCookie @
                    be_bytes 4 (i32 (int (length compressedContents))) @ compressedContents)))"

definition Encode :: "(byte list \<Rightarrow> byte list) \<Rightarrow> histogram \<Rightarrow> int \<Rightarrow> error + byte list" where
  "Encode deflate h version =
     (if version = V2CompressedEncodingCookieBase then dumpV2CompressedEncoding deflate h
      else Inl (UnsupportedVersion version))"

section \<open>Decoding\<close>

text \<open>Every index, slice and allocation of the decoder is the checked one of \<open>Hist_Types\<close>: where a guard of the
  code is what keeps it from a panic, the model without the guard returns the panic.
  \<open>setCountAtIndex\<close> writes \<open>counts[i]\<close>, here with the bounds check of the program.\<close>

definition storeCount :: "histogram \<Rightarrow> int \<Rightarrow> int \<Rightarrow> error + histogram" where
  "storeCount h i n =
     (case index_at (counts h) i of
        Inl e \<Rightarrow> Inl e
      | Inr _ \<Rightarrow> Inr (setCountAtIndex h i n))"

lemma storeCount_ok: "0 \<le> i \<Longrightarrow> i < int (length (counts h)) \<Longrightarrow> storeCount h i n = Inr (setCountAtIndex h i n)"
  by (simp add: storeCount_def index_at_ok)

function fillCountsArrayFromSourceBuffer :: "byte list \<Rightarrow> int \<Rightarrow> histogram \<Rightarrow> error + histogram" where
  "fillCountsArrayFromSourceBuffer payload dstIndex rh =
     (if payload = [] then Inr rh
      else case zig_zag_decode_i64 payload of
             Inl e \<Rightarrow> Inl e
           | Inr (w, n) \<Rightarrow>
               let cnt = sint w; len = int (length (counts rh))
               in if cnt < 0
                  then let zerosCount = i64 (- cnt)
                       in if zerosCount \<le> 0 \<or> zerosCount > i64 (len - dstIndex)
                          then Inl (ZeroRunOverflow zerosCount dstIndex len)
                          else fillCountsArrayFromSourceBuffer (drop n payload) (i64 (dstIndex + zerosCount)) rh
                  else if dstIndex \<ge> len then Inl (IndexOverflow dstIndex len)
                  else if cnt > i64 (MaxInt64 - totalCount rh) then Inl (PayloadSumOverflow dstIndex)
                  else case storeCount rh dstIndex cnt of
                         Inl e \<Rightarrow> Inl e
                       | Inr rh' \<Rightarrow> fillCountsArrayFromSourceBuffer (drop n payload) (i64 (dstIndex + 1)) rh')"
  by pat_completeness auto

lemma decode_shorter: "buf \<noteq> [] \<Longrightarrow> zig_zag_decode_i64 buf = Inr (w, n) \<Longrightarrow> length (drop n buf) < length buf"
  using decode_used [of buf w n] by auto

termination fillCountsArrayFromSourceBuffer
  by (relation "measure (\<lambda>(payload, dst, rh). length payload)") (auto simp: decode_shorter simp del: length_drop)

declare fillCountsArrayFromSourceBuffer.simps [simp del]

record wire_header =
  Cookie :: int
  PayloadLength :: int
  NormalizingIndexOffSet :: int
  NumberOfSignificantValueDigits :: int
  w_LowestTrackableValue :: int
  w_HighestTrackableValue :: int
  w_ConversionRatio :: "64 word"

definition field :: "byte list \<Rightarrow> nat \<Rightarrow> nat \<Rightarrow> int" where
  "field bs off n = be_val (take n (drop off bs))"

definition decodeDeCompressedHeaderFormat :: "byte list \<Rightarrow> error + wire_header" where
  "decodeDeCompressedHeaderFormat decoded =
     (case slice decoded 0 40 of
        Inl e \<Rightarrow> Inl e
      | Inr rbuf \<Rightarrow>
          Inr \<lparr>Cookie = i32 (field rbuf 0 4) AND NOT 0xf0,
               PayloadLength = i32 (field rbuf 4 4),
               NormalizingIndexOffSet = i32 (field rbuf 8 4),
               NumberOfSignificantValueDigits = i32 (field rbuf 12 4),
               w_LowestTrackableValue = i64 (field rbuf 16 8),
               w_HighestTrackableValue = i64 (field rbuf 24 8),
               w_ConversionRatio = word_of_int (field rbuf 32 8)\<rparr>)"

text \<open>The part of the decoder that the dense and the sparse histogram share: the header is read
  and checked, the payload is bounded by the geometry before it is inflated.\<close>

definition decode_stream :: "(int \<Rightarrow> int) \<Rightarrow> (byte list \<Rightarrow> (byte list \<times> stream_end) option) \<Rightarrow> byte list
    \<Rightarrow> error + histogram \<times> byte list" where
  "decode_stream lg inflate compressedContents =
     (case inflate compressedContents of
        None \<Rightarrow> Inl ZlibError
      | Some z \<Rightarrow>
          (case ReadFull z ENCODING_HEADER_SIZE of
             Inl e \<Rightarrow> Inl e
           | Inr (header, z1) \<Rightarrow>
               (case decodeDeCompressedHeaderFormat header of
                  Inl e \<Rightarrow> Inl e
                | Inr wire \<Rightarrow>
                    if Cookie wire \<noteq> V2EncodingCookieBase then Inl (UnsupportedCookie (Cookie wire))
                    else if PayloadLength wire < 0 then Inl (NegativePayloadLength (PayloadLength wire))
                    else (case wireGeometry lg (w_LowestTrackableValue wire) (w_HighestTrackableValue wire)
                                 (NumberOfSignificantValueDigits wire) of
                            Inl e \<Rightarrow> Inl (CorruptHeader e)
                          | Inr geometry \<Rightarrow>
                              let maxPayload = i64 (countsLen geometry * 9)
                              in if PayloadLength wire > maxPayload
                                 then Inl (PayloadTooLong (PayloadLength wire) maxPayload (countsLen geometry))
                                 else (case ReadAllLimited z1 (PayloadLength wire + 1) of
                                         Inl e \<Rightarrow> Inl e
                                       | Inr payload \<Rightarrow>
                                           if int (length payload) \<noteq> PayloadLength wire
                                           then Inl (PayloadSizeMismatch (int (length payload)) (PayloadLength wire))
                                           else Inr (geometry\<lparr>conversionRatio := w_ConversionRatio wire\<rparr>, payload))))))"

definition decodeCompressedFormat :: "(int \<Rightarrow> int) \<Rightarrow> (byte list \<Rightarrow> (byte list \<times> stream_end) option)
    \<Rightarrow> byte list \<Rightarrow> error + histogram" where
  "decodeCompressedFormat lg inflate compressedContents =
     (case decode_stream lg inflate compressedContents of
        Inl e \<Rightarrow> Inl e
      | Inr (geometry, payload) \<Rightarrow>
          (case make_counts (countsLen geometry) of
             Inl e \<Rightarrow> Inl e
           | Inr cs \<Rightarrow> fillCountsArrayFromSourceBuffer payload 0 (geometry\<lparr>counts := cs\<rparr>)))"

text \<open>The sum \<open>8 + lengthOfCompressedContents\<close> is one of \<open>int32\<close> values and may wrap.\<close>

definition decode_envelope :: "byte list \<Rightarrow> error + byte list" where
  "decode_envelope encoded =
     (case DecodeString encoded of
        Inl e \<Rightarrow> Inl e
      | Inr decoded \<Rightarrow>
          if length decoded < 8 then Inl (TooShort (int (length decoded)))
          else
            (case slice decoded 0 8 of
               Inl e \<Rightarrow> Inl e
             | Inr rbuf \<Rightarrow>
                 let cookie = i32 (field rbuf 0 4) AND NOT 0xf0;
                     lengthOfCompressedContents = i32 (field rbuf 4 4)
                 in if cookie \<noteq> V2CompressedEncodingCookieBase then Inl (UnsupportedCookie cookie)
                    else
                      (case slice decoded 8 (int (length decoded)) of
                         Inl e \<Rightarrow> Inl e
                       | Inr contents \<Rightarrow>
                           let got = i32 (int (length contents))
                           in if lengthOfCompressedContents < 0
                              then Inl (NegativeCompressedLength lengthOfCompressedContents)
                              else if lengthOfCompressedContents > got
                              then Inl (CompressedTooShort got lengthOfCompressedContents)
                              else slice decoded 8 (i32 (8 + lengthOfCompressedContents)))))"

definition Decode :: "(int \<Rightarrow> int) \<Rightarrow> (byte list \<Rightarrow> (byte list \<times> stream_end) option) \<Rightarrow> byte list \<Rightarrow> error + histogram" where
  "Decode lg inflate encoded =
     (case decode_envelope encoded of
        Inl e \<Rightarrow> Inl e
      | Inr compressed \<Rightarrow> decodeCompressedFormat lg inflate compressed)"

end
