(* ===== verification/Packed_Encoding.thy ===== *)
theory Packed_Encoding
  imports Encoding Packed
begin

text \<open>
  The V2 codec of the sparse histogram (\<open>packed_encoding.go\<close>): the encoder walks the flat index
  space with a cursor over the populated buckets and never builds the dense array; the decoder
  adds each count of the payload to the sparse storage and saturates the total. Reading the
  header and bounding the payload is \<open>decode_stream\<close>, as for the dense histogram: the two
  functions make the same checks in the same order. The zlib parameters are those of \<open>Encoding\<close>.
\<close>

section \<open>Encoding\<close>

text \<open>The closure \<open>countAt\<close> of the encoder with its captured cursor \<open>j\<close>.\<close>

function advance :: "packed \<Rightarrow> int \<Rightarrow> int \<Rightarrow> int" where
  "advance p src j = (if j < p_size p \<and> p_idx p ! nat j < src then advance p src (j + 1) else j)"
  by pat_completeness auto
termination by (relation "measure (\<lambda>(p, src, j). nat (p_size p - j))") auto

declare advance.simps [simp del]

definition countAt :: "packed \<Rightarrow> int \<Rightarrow> int \<Rightarrow> int \<times> int" where
  "countAt p src j =
     (let j' = advance p src j
      in (if j' < p_size p \<and> p_idx p ! nat j' = src then slotGet p j' else 0, j'))"

text \<open>The inner loop that counts zeros, with the number of zeros, the source index and the cursor
  it ends with.\<close>

function zeros_loop :: "packed \<Rightarrow> int \<Rightarrow> int \<Rightarrow> int \<Rightarrow> int \<Rightarrow> int \<times> int \<times> int" where
  "zeros_loop p countsLimit src j zeros =
     (if src < countsLimit
      then case countAt p src j of (c, j') \<Rightarrow>
             if c = 0 then zeros_loop p countsLimit (src + 1) j' (zeros + 1) else (zeros, src, j')
      else (zeros, src, j))"
  by pat_completeness auto
termination by (relation "measure (\<lambda>(p, l, src, j, z). nat (l - src))") auto

declare zeros_loop.simps [simp del]

lemma zeros_loop_ge: "src \<le> fst (snd (zeros_loop p l src j z))"
proof (induction p l src j z rule: zeros_loop.induct)
  case (1 p l src j z)
  show ?case
    using "1.IH" by (subst zeros_loop.simps) (force split: prod.split)
qed

function sparse_loop :: "packed \<Rightarrow> int \<Rightarrow> int \<Rightarrow> int \<Rightarrow> byte list" where
  "sparse_loop p countsLimit src j =
     (if src < countsLimit
      then let (c, j1) = countAt p src j;
               (zeros, src', j') = (if c = 0 then zeros_loop p countsLimit (src + 1) j1 1 else (0, src + 1, j1))
           in (if zeros > 1 then zig_zag_encode_i64 (word_of_int (- zeros))
               else zig_zag_encode_i64 (word_of_int c)) @ sparse_loop p countsLimit src' j'
      else [])"
  by pat_completeness auto

lemma zeros_loop_next:
  "(z', src', j') = (if c = 0 then zeros_loop p l (src + 1) j1 1 else (0, src + 1, j1)) \<Longrightarrow> src < src'"
  using zeros_loop_ge [of "src + 1" p l j1 1] by (cases "zeros_loop p l (src + 1) j1 1") (auto split: if_splits)

termination sparse_loop
  by (relation "measure (\<lambda>(p, l, src, j). nat (l - src))") (auto dest!: zeros_loop_next)

declare sparse_loop.simps [simp del]

definition fillBufferFromSparse :: "packed \<Rightarrow> byte list" where
  "fillBufferFromSparse p =
     (let countsLimit = i32 (countsIndexFor (p_geom p) (Max_p p) + 1) in sparse_loop p countsLimit 0 0)"

definition Encode_p :: "(byte list \<Rightarrow> byte list) \<Rightarrow> packed \<Rightarrow> error + byte list" where
  "Encode_p deflate p =
     (let payload = fillBufferFromSparse p;
          inner = be_bytes 4 encodingCookie @ be_bytes 4 (int (length payload)) @ be_bytes 4 0 @
                  be_bytes 4 (i32 (significantFigures (p_geom p))) @
                  be_bytes 8 (lowestDiscernibleValue (p_geom p)) @
                  be_bytes 8 (highestTrackableValue (p_geom p)) @
                  be_bytes 8 (uint (getIntegerToDoubleValueConversionRatio (p_geom p))) @ payload;
          compressed = deflate inner
      in Inr (EncodeToString (be_bytes 4 compressedEncodingCookie @
                be_bytes 4 (int (length compressed)) @ compressed)))"

section \<open>Decoding\<close>

function sparse_fill :: "byte list \<Rightarrow> int \<Rightarrow> int \<Rightarrow> packed \<Rightarrow> error + packed" where
  "sparse_fill payload dstIndex tot p =
     (if payload = [] then Inr (p\<lparr>p_totalCount := tot\<rparr>)
      else case zig_zag_decode_i64 payload of
             Inl e \<Rightarrow> Inl e
           | Inr (w, n) \<Rightarrow>
               let cnt = sint w; len = countsLen (p_geom p)
               in if cnt < 0
                  then let zeros = i64 (- cnt)
                       in if zeros \<le> 0 \<or> zeros > i64 (len - dstIndex)
                          then Inl (ZeroRunOverflow zeros dstIndex len)
                          else sparse_fill (drop n payload) (i64 (dstIndex + zeros)) tot p
                  else if dstIndex \<ge> len then Inl (IndexOverflow dstIndex len)
                  else if cnt > 0
                  then sparse_fill (drop n payload) (i64 (dstIndex + 1))
                         (if cnt > i64 (MaxInt64 - tot) then MaxInt64 else i64 (tot + cnt))
                         (snd (sparseAdd p (i32 dstIndex) cnt))
                  else sparse_fill (drop n payload) (i64 (dstIndex + 1)) tot p)"
  by pat_completeness auto

termination sparse_fill
  by (relation "measure (\<lambda>(payload, dst, t, p). length payload)") (auto simp: decode_shorter simp del: length_drop)

declare sparse_fill.simps [simp del]

definition fillSparseFromPayload :: "byte list \<Rightarrow> packed \<Rightarrow> error + packed" where
  "fillSparseFromPayload payload p = sparse_fill payload 0 0 p"

definition decodePackedCompressed :: "(int \<Rightarrow> int) \<Rightarrow> (byte list \<Rightarrow> (byte list \<times> stream_end) option)
    \<Rightarrow> byte list \<Rightarrow> error + packed" where
  "decodePackedCompressed lg inflate compressed =
     (case decode_stream lg inflate compressed of
        Inl e \<Rightarrow> Inl e
      | Inr (geometry, dec) \<Rightarrow>
          fillSparseFromPayload dec
            \<lparr>p_geom = geometry, p_idx = [], p_cnt = [], p_width = 1, p_size = 0, p_totalCount = 0,
             lastIndex = 0, lastPos = 0\<rparr>)"

text \<open>The message about a short buffer prints the length as an \<open>int\<close>, the dense decoder prints it
  as an \<open>int32\<close>.\<close>

definition DecodePacked :: "(int \<Rightarrow> int) \<Rightarrow> (byte list \<Rightarrow> (byte list \<times> stream_end) option) \<Rightarrow> byte list \<Rightarrow> error + packed" where
  "DecodePacked lg inflate encoded =
     (case DecodeString encoded of
        Inl e \<Rightarrow> Inl e
      | Inr decoded \<Rightarrow>
          if length decoded < 8 then Inl (TooShort (int (length decoded)))
          else
            (case (slice decoded 0 4, slice decoded 4 8) of
               (Inl e, _) \<Rightarrow> Inl e
             | (Inr _, Inl e) \<Rightarrow> Inl e
             | (Inr first, Inr second) \<Rightarrow>
                 let cookie = i32 (be_val first) AND NOT 0xf0;
                     clen = i32 (be_val second)
                 in if cookie \<noteq> V2CompressedEncodingCookieBase then Inl (UnsupportedCookie cookie)
                    else if clen < 0 then Inl (NegativeCompressedLength clen)
                    else
                      (case slice decoded 8 (int (length decoded)) of
                         Inl e \<Rightarrow> Inl e
                       | Inr contents \<Rightarrow>
                           if clen > i32 (int (length contents))
                           then Inl (CompressedTooShort (int (length contents)) clen)
                           else
                             (case slice decoded 8 (i32 (8 + clen)) of
                                Inl e \<Rightarrow> Inl e
                              | Inr compressed \<Rightarrow> decodePackedCompressed lg inflate compressed))))"

end
