(* ===== verification/Encoding_Spec.thy ===== *)
theory Encoding_Spec
  imports Encoding Packed_Spec
begin

text \<open>
  The V2 codec of the dense histogram: the payload, the header and the envelope are read back as
  they were written, under a hypothesis on zlib (\<open>zlib_ok\<close>); the decoder is safe on arbitrary
  input. The induction over the payload is shared: one step of the decoder on an encoded number
  (\<open>fill_step\<close>) gives the round trip, and its case analysis gives safety.
\<close>

section \<open>The payload\<close>

lemma sint_word_of_int: "MinInt64 \<le> x \<Longrightarrow> x \<le> MaxInt64 \<Longrightarrow> sint (word_of_int x :: 64 word) = x"
  by (simp add: signed_of_int signed_take_bit_int_eq_self)

lemma zero_run_take: "take (zero_run cs) cs = replicate (zero_run cs) 0"
  by (induction cs rule: zero_run.induct) auto

text \<open>The round of the decoder's loop: at an index that is not negative the store is in bounds, by the guard before it.\<close>

lemma fill_decoded:
  assumes "payload \<noteq> []" "zig_zag_decode_i64 payload = Inr (w, n)" "0 \<le> dst"
  shows "fillCountsArrayFromSourceBuffer payload dst rh =
     (let c = sint w; len = int (length (counts rh))
      in if c < 0
         then if i64 (- c) \<le> 0 \<or> i64 (- c) > i64 (len - dst) then Inl (ZeroRunOverflow (i64 (- c)) dst len)
              else fillCountsArrayFromSourceBuffer (drop n payload) (i64 (dst + i64 (- c))) rh
         else if dst \<ge> len then Inl (IndexOverflow dst len)
         else if c > i64 (MaxInt64 - totalCount rh) then Inl (PayloadSumOverflow dst)
         else fillCountsArrayFromSourceBuffer (drop n payload) (i64 (dst + 1)) (setCountAtIndex rh dst c))"
  by (subst fillCountsArrayFromSourceBuffer.simps) (simp add: assms Let_def storeCount_ok cong: if_cong)

text \<open>One step of the decoder on an encoded number.\<close>

lemma encode_nonempty: "zig_zag_encode_i64 x \<noteq> []"
  using encode_length [of x] by auto

lemma fill_step:
  assumes x: "MinInt64 \<le> x" "x \<le> MaxInt64" and dst: "0 \<le> dst"
  shows "fillCountsArrayFromSourceBuffer (zig_zag_encode_i64 (word_of_int x) @ rest) dst rh =
     (let len = int (length (counts rh))
      in if x < 0
         then if i64 (- x) \<le> 0 \<or> i64 (- x) > i64 (len - dst) then Inl (ZeroRunOverflow (i64 (- x)) dst len)
              else fillCountsArrayFromSourceBuffer rest (i64 (dst + i64 (- x))) rh
         else if dst \<ge> len then Inl (IndexOverflow dst len)
         else if x > i64 (MaxInt64 - totalCount rh) then Inl (PayloadSumOverflow dst)
         else fillCountsArrayFromSourceBuffer rest (i64 (dst + 1)) (setCountAtIndex rh dst x))"
  using fill_decoded [OF _ decode_encode [of "word_of_int x" rest] dst, of rh]
  by (simp add: encode_nonempty sint_word_of_int [OF x] cong: if_cong)

lemma zero_run_split:
  assumes "c = (0::int)"
  shows "c # cs = replicate (Suc (zero_run cs)) 0 @ drop (zero_run cs) cs"
    and "sum_list (c # cs) = sum_list (drop (zero_run cs) cs)"
proof -
  show a: "c # cs = replicate (Suc (zero_run cs)) 0 @ drop (zero_run cs) cs"
    using assms by simp (metis append_take_drop_id zero_run_take)
  show "sum_list (c # cs) = sum_list (drop (zero_run cs) cs)" by (subst a) (simp add: sum_list_replicate)
qed

lemma setCount_append:
  assumes "counts rh = pre @ 0 # post" "0 \<le> c" "0 \<le> totalCount rh" "totalCount rh + c \<le> MaxInt64"
  shows "setCountAtIndex rh (int (length pre)) c =
    rh\<lparr>counts := pre @ c # post, totalCount := totalCount rh + c\<rparr>"
  using assms by (simp add: setCountAtIndex_def i64_id nth_append list_update_append)

lemma fill_roundtrip:
  assumes "\<forall>c \<in> set cs. 0 \<le> c" "counts rh = pre @ replicate m 0" "length cs \<le> m" "0 \<le> totalCount rh"
    "totalCount rh + sum_list cs \<le> MaxInt64" "int (length (counts rh)) \<le> 8388608"
  shows "fillCountsArrayFromSourceBuffer (fill_buffer cs) (int (length pre)) rh =
    Inr (rh\<lparr>counts := pre @ cs @ replicate (m - length cs) 0, totalCount := totalCount rh + sum_list cs\<rparr>)"
  using assms
proof (induction cs arbitrary: pre m rh rule: fill_buffer.induct)
  case 1
  then show ?case by (subst fillCountsArrayFromSourceBuffer.simps) simp
next
  case (2 c cs)
  let ?dst = "int (length pre)"
  have dst: "i64 (?dst + k) = ?dst + k" if "0 \<le> k" "k \<le> 8388608" for k
    using that "2.prems"(2,6) by (intro i64_id) simp_all
  have sum0: "0 \<le> sum_list cs" "0 \<le> c" using "2.prems"(1) by (auto intro!: sum_list_nonneg_int)
  show ?case
  proof (cases "c = 0 \<and> 0 < zero_run cs")
    case True
    let ?z = "zero_run cs" and ?x = "- (1 + int (zero_run cs))"
    note zs = zero_run_split [OF conjunct1 [OF True], of cs]
    have zl: "Suc ?z + length (drop ?z cs) = Suc (length cs)" using zero_run_le [of cs] by simp
    have z: "i64 (1 + int ?z) = 1 + int ?z" using zl "2.prems"(2,3,6) by (intro i64_id) simp_all
    have len: "i64 (int (length (counts rh)) - ?dst) = int m" using "2.prems"(2,6) by (simp add: i64_id)
    have f: "fill_buffer (c # cs) = zig_zag_encode_i64 (word_of_int ?x) @ fill_buffer (drop ?z cs)"
      using True by (simp add: Let_def)
    have IH: "fillCountsArrayFromSourceBuffer (fill_buffer (drop ?z cs)) (int (length (pre @ replicate (Suc ?z) 0))) rh =
        Inr (rh\<lparr>counts := (pre @ replicate (Suc ?z) 0) @ drop ?z cs @ replicate (m - Suc ?z - length (drop ?z cs)) 0,
                totalCount := totalCount rh + sum_list (drop ?z cs)\<rparr>)"
    proof (rule "2.IH" [OF refl])
      show "\<forall>c \<in> set (drop ?z cs). 0 \<le> c" using "2.prems"(1) by (auto dest: in_set_dropD)
      show "counts rh = (pre @ replicate (Suc ?z) 0) @ replicate (m - Suc ?z) 0"
        using "2.prems"(2,3) zl by (simp flip: replicate_add replicate_Suc)
      show "totalCount rh + sum_list (drop ?z cs) \<le> MaxInt64"
        using "2.prems"(5) unfolding zs(2) .
    qed (use True "2.prems" zl in simp_all)
    have "1 + int ?z \<le> int m" "1 + int ?z \<le> 8388608" using zl "2.prems"(2,3,6) by simp_all
    moreover have "fillCountsArrayFromSourceBuffer (fill_buffer (c # cs)) ?dst rh =
        fillCountsArrayFromSourceBuffer (fill_buffer (drop ?z cs)) (int (length (pre @ replicate (Suc ?z) 0))) rh"
      unfolding f using calculation dst [of "1 + int ?z"] fill_step [of ?x ?dst "fill_buffer (drop ?z cs)" rh]
      by (simp only: Let_def minus_minus z len) (simp add: algebra_simps)
    moreover have "m - Suc ?z - length (drop ?z cs) = m - length (c # cs)" using zl by simp
    ultimately show ?thesis unfolding zs(2) using IH zs(1) by (metis append.assoc)
  next
    case False
    obtain m' where m': "m = Suc m'" using "2.prems"(3) by (cases m) auto
    have c: "MinInt64 \<le> c" "c \<le> MaxInt64" "i64 (MaxInt64 - totalCount rh) = MaxInt64 - totalCount rh"
      using "2.prems"(4,5) sum0 by (auto intro!: i64_id)
    define rh' where "rh' = rh\<lparr>counts := pre @ c # replicate m' 0, totalCount := totalCount rh + c\<rparr>"
    have s: "setCountAtIndex rh ?dst c = rh'"
      using "2.prems"(2,4,5) m' sum0 unfolding rh'_def by (intro setCount_append) simp_all
    have f: "fill_buffer (c # cs) = zig_zag_encode_i64 (word_of_int c) @ fill_buffer cs"
      using False by (auto simp: Let_def)
    have IH: "fillCountsArrayFromSourceBuffer (fill_buffer cs) (int (length (pre @ [c]))) rh' =
        Inr (rh'\<lparr>counts := (pre @ [c]) @ cs @ replicate (m' - length cs) 0,
                 totalCount := totalCount rh' + sum_list cs\<rparr>)"
    proof -
      have "(if c = 0 then drop (zero_run cs) cs else cs) = cs" using False by auto
      with "2.IH" [OF refl refl, of rh' "pre @ [c]" m'] show ?thesis
        using "2.prems" m' sum0 by (simp add: rh'_def)
    qed
    have "fillCountsArrayFromSourceBuffer (fill_buffer (c # cs)) ?dst rh =
        fillCountsArrayFromSourceBuffer (fill_buffer cs) (int (length (pre @ [c]))) rh'"
      unfolding f fill_step [OF c(1,2) of_nat_0_le_iff] s using sum0 "2.prems"(2,5) m' dst [of 1] by (simp add: c Let_def add.commute)
    with IH m' show ?thesis by (simp add: rh'_def)
  qed
qed

lemma length_fill_buffer: "length (fill_buffer cs) \<le> 9 * length cs"
proof (induction cs rule: fill_buffer.induct)
  case (2 c cs)
  have e: "length (zig_zag_encode_i64 x) \<le> 9" for x using encode_length by blast
  have "length (if c = 0 then drop (zero_run cs) cs else cs) \<le> length cs" by simp
  moreover have "length (fill_buffer (c # cs)) \<le> 9 + length (fill_buffer (if c = 0 then drop (zero_run cs) cs else cs))"
    using e by (auto simp: Let_def)
  ultimately show ?case using "2.IH" [OF refl refl] by simp
qed simp

text \<open>The encoder stops after the bucket of the highest recorded value; an empty histogram is
  written as one zero.\<close>

definition counts_limit :: "histogram \<Rightarrow> nat" where
  "counts_limit h = (if populated h = [] then 1 else Suc (last (populated h)))"

lemma hist_ok_pos: "hist_ok h \<Longrightarrow> 0 < length (counts h)"
  using countsLen_bound [of h] by (auto simp: hist_ok_def)

lemma counts_limit:
  assumes len: "0 < length (counts h)"
  shows "counts_limit h \<le> length (counts h)"
    and "\<And>j. counts_limit h \<le> j \<Longrightarrow> j < length (counts h) \<Longrightarrow> counts h ! j = 0"
    and "take (counts_limit h) (counts h) @ replicate (length (counts h) - counts_limit h) 0 = counts h"
proof -
  show l: "counts_limit h \<le> length (counts h)"
    using len last_in_set [of "populated h"] by (auto simp: counts_limit_def populated_def Suc_le_eq)
  show z: "counts h ! j = 0" if "counts_limit h \<le> j" "j < length (counts h)" for j
  proof (rule ccontr)
    assume "counts h ! j \<noteq> 0"
    with that have j: "j \<in> set (populated h)" by (simp add: populated_def)
    then have "populated h \<noteq> []" by auto
    with j have "j \<le> last (populated h)" by (simp add: sorted_last_Max [OF sorted_populated(1)])
    with that \<open>populated h \<noteq> []\<close> show False by (simp add: counts_limit_def)
  qed
  show "take (counts_limit h) (counts h) @ replicate (length (counts h) - counts_limit h) 0 = counts h"
    using l z by (intro nth_equalityI) (auto simp: nth_append)
qed

lemma highest_index:
  assumes g: "geom_ok h" and v: "0 \<le> v" "v \<le> MaxInt64"
  shows "countsIndexFor h (highestEquivalentValue h v) = countsIndexFor h v"
proof -
  note r = value_in_range [OF g v]
  then have "0 \<le> highestEquivalentValue h v" by linarith
  with r show ?thesis using countsIndexFor_eq_iff [OF g v, of "highestEquivalentValue h v"] by simp
qed

lemma countsIndexFor_0: "geom_ok h \<Longrightarrow> countsIndexFor h 0 = 0"
  using valueFromFlatIndex_range [of h 0] countsIndexFor_valueFromFlatIndex(1) [of h 0]
    countsIndexFor_mono [of h 0 "valueFromFlatIndex h 0"] countsIndexFor_nonneg [of h 0] countsLen_bound [of h]
  by simp

lemma fillBufferFromCountsArray_eq:
  assumes h: "hist_ok h"
  shows "fillBufferFromCountsArray h = Inr (fill_buffer (take (counts_limit h) (counts h)))"
proof -
  from h have g: "geom_ok h" and len: "int (length (counts h)) = countsLen h" by (auto simp: hist_ok_def)
  define v where "v = (if populated h = [] then 0 else valueFromFlatIndex h (int (last (populated h))))"
  have ix: "countsIndexFor h v = int (counts_limit h) - 1"
  proof (cases "populated h = []")
    case True
    with countsIndexFor_0 [OF g] show ?thesis by (simp add: v_def counts_limit_def)
  next
    case False
    then show ?thesis
      using countsIndexFor_valueFromFlatIndex(1) [OF g, of "int (last (populated h))"] populated_range [OF h]
      by (simp add: v_def counts_limit_def)
  qed
  have v: "0 \<le> v" "v \<le> MaxInt64"
    using valueFromFlatIndex_range [OF g, of "int (last (populated h))"] populated_range [OF h]
    by (auto simp: v_def)
  have "Max_h h = Inr (highestEquivalentValue h v)" by (simp add: Max_h_eq [OF h] v_def)
  moreover have "i32 (int (counts_limit h)) = int (counts_limit h)"
    using counts_limit(1) [OF hist_ok_pos [OF h]] len countsLen_bound(2) [OF g] by (intro i32_id) linarith+
  ultimately show ?thesis
    using counts_limit(1) [OF hist_ok_pos [OF h]] by (simp add: fillBufferFromCountsArray_def highest_index [OF g v] ix)
qed

section \<open>The header\<close>

lemma i32_mod: "i32 (v mod 4294967296) = i32 v"
  by (simp add: i32_def mod_add_left_eq)

lemma i64_mod: "i64 (v mod 18446744073709551616) = i64 v"
  by (simp add: i64_def mod_add_left_eq)

lemma field_be: 
  "length pre = off \<Longrightarrow> field (pre @ be_bytes n v @ post) off n = v mod 256 ^ n"
  by (simp add: field_def be_val_be_bytes)

lemma header_roundtrip:
  fixes ck pl ni sf lo hi cr :: int
  defines "hdr \<equiv> be_bytes 4 ck @ be_bytes 4 pl @ be_bytes 4 ni @ be_bytes 4 sf @ be_bytes 8 lo @ be_bytes 8 hi @ be_bytes 8 cr"
  shows "decodeDeCompressedHeaderFormat hdr =
    Inr \<lparr>Cookie = i32 ck AND NOT 0xf0, PayloadLength = i32 pl, NormalizingIndexOffSet = i32 ni,
     NumberOfSignificantValueDigits = i32 sf, w_LowestTrackableValue = i64 lo,
     w_HighestTrackableValue = i64 hi, w_ConversionRatio = word_of_int cr\<rparr>"
  and "length hdr = ENCODING_HEADER_SIZE"
proof -
  have f: "field hdr 0 4 = ck mod 4294967296" "field hdr 4 4 = pl mod 4294967296"
    "field hdr 8 4 = ni mod 4294967296" "field hdr 12 4 = sf mod 4294967296"
    "field hdr 16 8 = lo mod 18446744073709551616" "field hdr 24 8 = hi mod 18446744073709551616"
    "field hdr 32 8 = cr mod 18446744073709551616"
    unfolding hdr_def by (simp_all add: field_def be_val_be_bytes)
  have "length hdr = 40" by (simp add: hdr_def)
  then have "slice hdr 0 40 = Inr hdr" by (simp add: slice_def)
  then show "decodeDeCompressedHeaderFormat hdr =
    Inr \<lparr>Cookie = i32 ck AND NOT 0xf0, PayloadLength = i32 pl, NormalizingIndexOffSet = i32 ni,
     NumberOfSignificantValueDigits = i32 sf, w_LowestTrackableValue = i64 lo,
     w_HighestTrackableValue = i64 hi, w_ConversionRatio = word_of_int cr\<rparr>"
    by (simp add: decodeDeCompressedHeaderFormat_def f i32_mod i64_mod word_of_int_eq_iff take_bit_eq_mod)
  show "length hdr = ENCODING_HEADER_SIZE" by (simp add: hdr_def ENCODING_HEADER_SIZE_def)
qed

lemma cookies:
  "i32 encodingCookie AND NOT 0xf0 = V2EncodingCookieBase"
  "i32 compressedEncodingCookie AND NOT 0xf0 = V2CompressedEncodingCookieBase"
  by code_simp+

lemmas cookies' = cookies [simplified]

section \<open>The round trip\<close>

text \<open>What the codec relies on of zlib: what was written can be read back, up to the end of the
  stream.\<close>

definition zlib_ok :: "(byte list \<Rightarrow> byte list) \<Rightarrow> (byte list \<Rightarrow> (byte list \<times> stream_end) option) \<Rightarrow> bool" where
  "zlib_ok deflate inflate \<longleftrightarrow> (\<forall>bs. inflate (deflate bs) = Some (bs, Eof))"

lemma length_EncodeToString: "length bs \<le> length (EncodeToString bs)"
  by (induction bs rule: EncodeToString.induct) simp_all

lemma length_EncodeToString_le: "length (EncodeToString bs) \<le> 4 * length bs"
  by (induction bs rule: EncodeToString.induct) simp_all

text \<open>The first eight bytes and what follows them are always there to be sliced.\<close>

lemma envelope_slices:
  assumes "8 \<le> length d"
  shows "slice d 0 8 = Inr (take 8 d)" "slice d 0 4 = Inr (take 4 d)" "slice d 4 8 = Inr (take 4 (drop 4 d))"
    "slice d 8 (int (length d)) = Inr (drop 8 d)"
    "field (take 8 d) 0 4 = be_val (take 4 d)" "field (take 8 d) 4 4 = be_val (take 4 (drop 4 d))"
  using assms by (simp_all add: slice_def field_def drop_take)

lemma decode_envelope_eq:
  assumes "DecodeString enc = Inr d"
  shows "decode_envelope enc =
     (if length d < 8 then Inl (TooShort (int (length d)))
      else let cookie = i32 (be_val (take 4 d)) AND NOT 0xf0; n = i32 (be_val (take 4 (drop 4 d)));
               got = i32 (int (length (drop 8 d)))
           in if cookie \<noteq> V2CompressedEncodingCookieBase then Inl (UnsupportedCookie cookie)
              else if n < 0 then Inl (NegativeCompressedLength n)
              else if n > got then Inl (CompressedTooShort got n)
              else slice d 8 (i32 (8 + n)))"
  by (simp add: decode_envelope_def assms envelope_slices Let_def del: length_drop)

text \<open>The contents of the envelope: the last slice is in bounds unless the sum of its bound wraps.\<close>

lemma slice_contents:
  assumes "0 \<le> n" "n \<le> i32 (int (length (drop 8 d)))" "8 \<le> length d" "int (length d) \<le> 2147483647"
  shows "slice d 8 (i32 (8 + n)) = Inr (take (nat n) (drop 8 d))" "8 + nat n \<le> length d"
proof -
  have "i32 (int (length d) - 8) = int (length d) - 8" using assms(4) by (intro i32_id) linarith+
  then have "8 + n \<le> int (length d)" using assms(2,3) by (simp add: of_nat_diff)
  moreover have "i32 (8 + n) = 8 + n" using assms(1,4) calculation by (intro i32_id) linarith+
  ultimately show "slice d 8 (i32 (8 + n)) = Inr (take (nat n) (drop 8 d))" "8 + nat n \<le> length d"
    using assms(1) by (simp_all add: slice_def)
qed

lemma envelope_fields:
  fixes z :: "byte list"
  defines "d \<equiv> be_bytes 4 compressedEncodingCookie @ be_bytes 4 (i32 (int (length z))) @ z"
  assumes "int (length z) \<le> 2147483647"
  shows "i32 (be_val (take 4 d)) AND NOT 0xf0 = V2CompressedEncodingCookieBase"
    "i32 (be_val (take 4 (drop 4 d))) = int (length z)" "length d = 8 + length z" "drop 8 d = z"
proof -
  have l: "i32 (int (length z)) = int (length z)" using assms(2) by (intro i32_id) simp_all
  have "be_val (take 4 d) = compressedEncodingCookie mod 4294967296" "be_val (take 4 (drop 4 d)) = int (length z) mod 4294967296"
    by (simp_all add: d_def be_val_be_bytes l)
  then show "i32 (be_val (take 4 d)) AND NOT 0xf0 = V2CompressedEncodingCookieBase"
    "i32 (be_val (take 4 (drop 4 d))) = int (length z)" by (simp_all only: i32_mod cookies l)
  show "length d = 8 + length z" "drop 8 d = z" by (simp_all add: d_def)
qed

lemma envelope_roundtrip:
  assumes "8 + int (length z) \<le> 2147483647"
  shows "decode_envelope (EncodeToString (be_bytes 4 compressedEncodingCookie @ be_bytes 4 (i32 (int (length z))) @ z)) = Inr z"
proof -
  define d where "d = be_bytes 4 compressedEncodingCookie @ be_bytes 4 (i32 (int (length z))) @ z"
  have "int (length z) \<le> 2147483647" using assms by simp
  note F = envelope_fields [OF this, folded d_def]
  have i: "i32 (int (length z)) = int (length z)" using assms by (intro i32_id) simp_all
  show ?thesis unfolding d_def [symmetric]
    using slice_contents(1) [of "int (length z)" d] F assms
    by (simp add: decode_envelope_eq [OF DecodeString_EncodeToString] Let_def i)
qed

text \<open>A declared length within eight of the largest \<open>int32\<close> passes every check, and the bound of the slice
  wraps to a negative number.\<close>

lemma envelope_overflow:
  assumes "2147483640 \<le> int (length z)" "int (length z) \<le> 2147483647"
  shows "\<exists>hi n. decode_envelope (EncodeToString (be_bytes 4 compressedEncodingCookie @ be_bytes 4 (i32 (int (length z))) @ z)) =
    Inl (Panic (SliceOutOfRange 8 hi n)) \<and> hi < 0"
proof -
  define d where "d = be_bytes 4 compressedEncodingCookie @ be_bytes 4 (i32 (int (length z))) @ z"
  note F = envelope_fields [OF assms(2), folded d_def]
  have i: "i32 (int (length z)) = int (length z)" using assms by (intro i32_id) simp_all
  have "(int (length z) + 2147483656) mod 4294967296 = int (length z) + 2147483656 - 4294967296"
    using assms by (subst mod_pos_geq) simp_all
  then have w: "i32 (8 + int (length z)) < 0" using assms by (simp add: i32_def add.commute)
  then have "slice d 8 (i32 (8 + int (length z))) = Inl (Panic (SliceOutOfRange 8 (i32 (8 + int (length z))) (int (length d))))"
    by (simp add: slice_def)
  then show ?thesis unfolding d_def [symmetric]
    using F w by (simp add: decode_envelope_eq [OF DecodeString_EncodeToString] Let_def i)
qed

text \<open>A histogram without its data and metadata: what the header determines.\<close>

definition cleared :: "histogram \<Rightarrow> histogram" where
  "cleared h = h\<lparr>counts := [], totalCount := 0, tag := '''', startTimeMs := 0, endTimeMs := 0, conversionRatio := 0\<rparr>"

definition header_geometry :: "(int \<Rightarrow> int) \<Rightarrow> histogram \<Rightarrow> bool" where
  "header_geometry lg h \<longleftrightarrow>
     geometry_of lg (lowestDiscernibleValue h) (highestTrackableValue h) (significantFigures h) (cleared h) \<and>
     MinInt64 \<le> highestTrackableValue h"

lemma configured_header: "configured lg h \<longleftrightarrow> hist_ok h \<and>
    geometry_of lg (lowestDiscernibleValue h) (highestTrackableValue h) (significantFigures h) (cleared h)"
  by (simp add: configured_def cleared_def)

lemma decode_stream_roundtrip:
  assumes lg: "log2_ok lg" and c: "header_geometry lg h"
    and z: "inflate z = Some (hd_bytes @ payload, Eof)" and p: "int (length payload) \<le> 9 * countsLen h"
    and hd_bytes: "hd_bytes = be_bytes 4 encodingCookie @ be_bytes 4 (i32 (int (length payload))) @ be_bytes 4 ni @
      be_bytes 4 (i32 (significantFigures h)) @ be_bytes 8 (lowestDiscernibleValue h) @
      be_bytes 8 (highestTrackableValue h) @ be_bytes 8 (uint cr)"
  shows "decode_stream lg inflate z = Inr ((cleared h)\<lparr>conversionRatio := cr\<rparr>, payload)"
proof -
  from c have g: "geometry_of lg (lowestDiscernibleValue h) (highestTrackableValue h) (significantFigures h) (cleared h)"
    and hi: "MinInt64 \<le> highestTrackableValue h" by (simp_all add: header_geometry_def)
  then have gh: "geom_ok h" by (simp add: geometry_of_def cleared_def)
  have cl: "countsLen (cleared h) = countsLen h" by (simp add: cleared_def)
  from g have r: "1 \<le> lowestDiscernibleValue h" "lowestDiscernibleValue h \<le> MaxInt64"
    "highestTrackableValue h \<le> MaxInt64" "0 \<le> significantFigures h" "significantFigures h \<le> 5"
    by (simp_all add: geometry_of_def)
  note len = countsLen_bound [OF gh]
  have i: "i32 (significantFigures h) = significantFigures h" "i64 (lowestDiscernibleValue h) = lowestDiscernibleValue h"
    "i64 (highestTrackableValue h) = highestTrackableValue h" "i64 (countsLen h * 9) = countsLen h * 9"
    "i32 (int (length payload)) = int (length payload)"
    using r hi p len by (intro i32_id i64_id; linarith)+
  note H = header_roundtrip [of encodingCookie "i32 (int (length payload))" ni "i32 (significantFigures h)"
      "lowestDiscernibleValue h" "highestTrackableValue h" "uint cr", folded hd_bytes]
  have rf: "ReadFull (hd_bytes @ payload, Eof) ENCODING_HEADER_SIZE = Inr (hd_bytes, (payload, Eof))"
    using H(2) by (simp add: ReadFull_def)
  have ra: "ReadAllLimited (payload, Eof) (int (length payload) + 1) = Inr payload"
    by (simp add: ReadAllLimited_def)
  show ?thesis
    unfolding decode_stream_def z option.case rf sum.case prod.case H(1) Let_def
    using p by (simp add: cookies' i cl wireGeometry_geometry_of [OF g lg] ra)
qed

lemma Decode_Encode:
  assumes lg: "log2_ok lg" and c: "configured lg h" and hi: "MinInt64 \<le> highestTrackableValue h"
    and z: "zlib_ok deflate inflate" and e: "Encode deflate h V2CompressedEncodingCookieBase = Inr enc"
    and len: "int (length enc) \<le> 2147483647"
  shows "Decode lg inflate enc = Inr (h\<lparr>tag := '''', startTimeMs := 0, endTimeMs := 0,
           conversionRatio := getIntegerToDoubleValueConversionRatio h\<rparr>)"
proof -
  from c have h: "hist_ok h" and gh: "geom_ok h" by (simp_all add: configured_def hist_ok_def)
  let ?cs = "take (counts_limit h) (counts h)" and ?r = "getIntegerToDoubleValueConversionRatio h"
  define payload where "payload = fill_buffer ?cs"
  define hd_bytes where "hd_bytes = be_bytes 4 encodingCookie @ be_bytes 4 (i32 (int (length payload))) @
      be_bytes 4 (getNormalizingIndexOffset h) @ be_bytes 4 (i32 (significantFigures h)) @
      be_bytes 8 (lowestDiscernibleValue h) @ be_bytes 8 (highestTrackableValue h) @ be_bytes 8 (uint ?r)"
  define zs where "zs = deflate (hd_bytes @ payload)"
  have enc: "enc = EncodeToString (be_bytes 4 compressedEncodingCookie @ be_bytes 4 (i32 (int (length zs))) @ zs)"
    using e by (simp add: Encode_def dumpV2CompressedEncoding_def encodeIntoByteBuffer_def Let_def
      fillBufferFromCountsArray_eq [OF h] zs_def hd_bytes_def payload_def)
  have "8 + length zs \<le> length enc"
    unfolding enc by (rule order_trans [OF _ length_EncodeToString]) simp
  with len have env: "decode_envelope enc = Inr zs" unfolding enc by (intro envelope_roundtrip) simp
  have pl: "int (length payload) \<le> 9 * countsLen h"
    using length_fill_buffer [of ?cs] counts_limit(1) [OF hist_ok_pos [OF h]] h by (simp add: payload_def hist_ok_def)
  have hg: "header_geometry lg h" using c hi by (simp add: header_geometry_def configured_header)
  have iz: "inflate zs = Some (hd_bytes @ payload, Eof)" using z by (simp add: zlib_ok_def zs_def)
  note ds = decode_stream_roundtrip [where inflate = inflate and z = zs, OF lg hg iz pl hd_bytes_def]
  let ?g = "h\<lparr>totalCount := 0, tag := '''', startTimeMs := 0,
           endTimeMs := 0, conversionRatio := ?r, counts := replicate (length (counts h)) 0\<rparr>"
  have sum: "sum_list ?cs = totalCount h" "\<forall>c \<in> set ?cs. 0 \<le> c"
    using counts_limit(3) [OF hist_ok_pos [OF h]] sum_list_append [of ?cs "replicate (length (counts h) - counts_limit h) 0"] h
    by (auto simp: hist_ok_def sum_list_replicate dest: in_set_takeD)
  have "fillCountsArrayFromSourceBuffer payload 0 ?g =
      Inr (?g\<lparr>counts := counts h, totalCount := totalCount h\<rparr>)"
    using fill_roundtrip [of ?cs ?g "[]" "length (counts h)"] sum counts_limit [OF hist_ok_pos [OF h]] h countsLen_bound [OF gh]
    by (simp add: payload_def hist_ok_def)
  moreover have "nat (countsLen h) = length (counts h)" using h by (metis hist_ok_def nat_int)
  ultimately show ?thesis
    using countsLen_bound [OF gh] by (simp add: Decode_def env decodeCompressedFormat_def ds cleared_def make_counts_def)
qed

lemma Encode_eq:
  assumes "hist_ok h"
  obtains bs where "length bs \<le> 40 + 9 * length (counts h)"
    "Encode deflate h V2CompressedEncodingCookieBase = Inr (EncodeToString (be_bytes 4 compressedEncodingCookie @
       be_bytes 4 (i32 (int (length (deflate bs)))) @ deflate bs))"
proof
  let ?p = "fill_buffer (take (counts_limit h) (counts h))"
  let ?bs = "be_bytes 4 encodingCookie @ be_bytes 4 (i32 (int (length ?p))) @
      be_bytes 4 (getNormalizingIndexOffset h) @ be_bytes 4 (i32 (significantFigures h)) @
      be_bytes 8 (lowestDiscernibleValue h) @ be_bytes 8 (highestTrackableValue h) @
      be_bytes 8 (uint (getIntegerToDoubleValueConversionRatio h)) @ ?p"
  show "length ?bs \<le> 40 + 9 * length (counts h)"
    using length_fill_buffer [of "take (counts_limit h) (counts h)"] counts_limit(1) [OF hist_ok_pos [OF assms]] by simp
  show "Encode deflate h V2CompressedEncodingCookieBase = Inr (EncodeToString (be_bytes 4 compressedEncodingCookie @
       be_bytes 4 (i32 (int (length (deflate ?bs)))) @ deflate ?bs))"
    by (simp add: Encode_def dumpV2CompressedEncoding_def encodeIntoByteBuffer_def Let_def fillBufferFromCountsArray_eq [OF assms])
qed

section \<open>Arbitrary input\<close>

text \<open>The errors with which a decoder may refuse its input; a panic or a loop is not among them.\<close>

fun clean :: "error \<Rightarrow> bool" where
  "clean Diverges = False"
| "clean (Panic _) = False"
| "clean (CorruptHeader e) = clean e"
| "clean _ = True"

text \<open>The errors of the decoders on a text of \<open>n\<close> bytes: one of their own, or, on a text of \<open>2 ^ 31\<close> bytes and more, the
  panic of the slice of the compressed contents, whose bound is an \<open>int32\<close> sum.\<close>

definition refused :: "nat \<Rightarrow> error \<Rightarrow> bool" where
  "refused n e \<longleftrightarrow> clean e \<or> (2147483647 < int n \<and> (\<exists>hi len. e = Panic (SliceOutOfRange 8 hi len)))"

lemma refused_mono: "refused m e \<Longrightarrow> m \<le> n \<Longrightarrow> refused n e"
  by (auto simp: refused_def)

lemma clean_refused: "clean e \<Longrightarrow> refused n e"
  by (simp add: refused_def)

lemma fill_sound:
  assumes "hist_ok rh" "0 \<le> dst" "dst \<le> int (length (counts rh))"
  shows "(\<exists>e. fillCountsArrayFromSourceBuffer payload dst rh = Inl e \<and> clean e) \<or>
    (\<exists>h. fillCountsArrayFromSourceBuffer payload dst rh = Inr h \<and> hist_ok h \<and> config h = config rh \<and>
         totalCount rh \<le> totalCount h)"
  using assms
proof (induction payload dst rh rule: fillCountsArrayFromSourceBuffer.induct)
  case (1 payload dst rh)
  from "1.prems"(1) have len: "int (length (counts rh)) \<le> 8388608" "0 \<le> totalCount rh" "totalCount rh \<le> MaxInt64"
    using countsLen_bound [of rh] hist_ok_total [of rh] by (auto simp: hist_ok_def)
  show ?case
  proof (cases "payload = []")
    case True
    with "1.prems"(1) show ?thesis by (simp add: fillCountsArrayFromSourceBuffer.simps)
  next
    case ne: False
    show ?thesis
    proof (cases "zig_zag_decode_i64 payload")
      case (Inl e)
      with ne decode_error [OF Inl] show ?thesis by (subst (1) fillCountsArrayFromSourceBuffer.simps) simp
    next
      case (Inr r)
      obtain w n where r: "zig_zag_decode_i64 payload = Inr (w, n)" using Inr by (cases r) auto
      define c where "c = sint w"
      let ?len = "int (length (counts rh))"
      have eq: "fillCountsArrayFromSourceBuffer payload dst rh =
         (if c < 0
          then if i64 (- c) \<le> 0 \<or> i64 (- c) > i64 (?len - dst) then Inl (ZeroRunOverflow (i64 (- c)) dst ?len)
               else fillCountsArrayFromSourceBuffer (drop n payload) (i64 (dst + i64 (- c))) rh
          else if dst \<ge> ?len then Inl (IndexOverflow dst ?len)
          else if c > i64 (MaxInt64 - totalCount rh) then Inl (PayloadSumOverflow dst)
          else fillCountsArrayFromSourceBuffer (drop n payload) (i64 (dst + 1)) (setCountAtIndex rh dst c))"
        by (simp only: fill_decoded [OF ne r "1.prems"(2)] Let_def c_def)
      have i: "i64 (?len - dst) = ?len - dst" "i64 (MaxInt64 - totalCount rh) = MaxInt64 - totalCount rh"
        using len "1.prems" by (intro i64_id; linarith)+
      consider (bad_run) "c < 0" "i64 (- c) \<le> 0 \<or> i64 (- c) > ?len - dst"
        | (bad_index) "0 \<le> c" "?len \<le> dst"
        | (bad_sum) "0 \<le> c" "dst < ?len" "MaxInt64 - totalCount rh < c"
        | (zeros) "c < 0" "\<not> (i64 (- c) \<le> 0 \<or> i64 (- c) > ?len - dst)"
        | (count) "0 \<le> c" "dst < ?len" "c \<le> MaxInt64 - totalCount rh"
        by linarith
      then show ?thesis
      proof cases
        case zeros
        then have d: "i64 (dst + i64 (- c)) = dst + i64 (- c)" using "1.prems" len by (intro i64_id) linarith+
        have "fillCountsArrayFromSourceBuffer payload dst rh =
            fillCountsArrayFromSourceBuffer (drop n payload) (dst + i64 (- c)) rh"
          unfolding eq using zeros d i by simp
        with "1.IH"(1) [OF ne r refl refl refl zeros(1) [unfolded c_def] refl] zeros "1.prems" d i show ?thesis
          by (simp add: c_def [symmetric])
      next
        case count
        then have d: "i64 (dst + 1) = dst + 1" using "1.prems" len by (intro i64_id) linarith+
        define h' where "h' = setCountAtIndex rh dst c"
        have s: "h' = rh\<lparr>counts := (counts rh)[nat dst := counts rh ! nat dst + c], totalCount := totalCount rh + c\<rparr>"
          "hist_ok h'"
          unfolding h'_def
          using setCountAtIndex_eq [OF "1.prems"(1), of "nat dst" c] count "1.prems"(2) by simp_all
        have "fillCountsArrayFromSourceBuffer payload dst rh =
            fillCountsArrayFromSourceBuffer (drop n payload) (dst + 1) h'"
          unfolding eq using count d i by (simp add: h'_def)
        moreover have "config h' = config rh" "totalCount rh \<le> totalCount h'" "length (counts h') = length (counts rh)"
          using count by (simp_all add: s(1))
        ultimately show ?thesis
          using "1.IH"(2) [OF ne r refl refl refl, folded c_def, OF _ _ _ storeCount_ok [OF "1.prems"(2)]] count "1.prems" d i s(2)
          by (fastforce simp: h'_def [symmetric])
      qed (simp_all add: eq i)
    qed
  qed
qed


lemma ReadFull_clean: "ReadFull st n = Inl e \<Longrightarrow> clean e"
  by (cases st) (auto simp: ReadFull_def split: if_splits stream_end.splits)

lemma ReadAllLimited_clean: "ReadAllLimited st n = Inl e \<Longrightarrow> clean e"
  by (cases st) (auto simp: ReadAllLimited_def split: if_splits stream_end.splits)

lemma length_b64_groups: "b64_groups s = Some bs \<Longrightarrow> length bs \<le> length s"
  by (induction s arbitrary: bs rule: b64_groups.induct) (fastforce split: option.splits if_splits)+

lemma length_DecodeString: "DecodeString s = Inr bs \<Longrightarrow> length bs \<le> length s"
  unfolding DecodeString_def
  by (auto split: option.splits dest!: length_b64_groups intro: order_trans [OF _ length_filter_le])

lemma DecodeString_clean: "DecodeString enc = Inl e \<Longrightarrow> clean e"
  by (auto simp: DecodeString_def split: option.splits)

lemma decode_envelope_error:
  assumes "decode_envelope enc = Inl e"
  shows "clean e \<or> (\<exists>hi len. e = Panic (SliceOutOfRange 8 hi len))"
proof (cases "DecodeString enc")
  case (Inr d)
  show ?thesis using assms by (auto simp: decode_envelope_eq [OF Inr] Let_def slice_def split: if_splits)
qed (use assms DecodeString_clean in \<open>auto simp: decode_envelope_def\<close>)

text \<open>On a text shorter than \<open>2 ^ 31\<close> bytes the guards keep the slice of the contents in bounds.\<close>

lemma decode_envelope_clean:
  assumes "int (length enc) \<le> 2147483647" "decode_envelope enc = Inl e"
  shows "clean e"
proof (cases "DecodeString enc")
  case (Inr d)
  have l: "int (length d) \<le> 2147483647" using length_DecodeString [OF Inr] assms(1) by simp
  show ?thesis
    using assms(2) slice_contents(1) [OF _ _ _ l, of "i32 (be_val (take 4 (drop 4 d)))"]
    by (auto simp: decode_envelope_eq [OF Inr] Let_def simp del: length_drop split: if_splits)
qed (use assms DecodeString_clean in \<open>auto simp: decode_envelope_def\<close>)

lemma ReadFull_length: "ReadFull st n = Inr (bs, st') \<Longrightarrow> length bs = n"
  by (cases st) (auto simp: ReadFull_def split: if_splits stream_end.splits)

lemma header_ok:
  assumes "length bs = ENCODING_HEADER_SIZE"
  obtains w where "decodeDeCompressedHeaderFormat bs = Inr w" "w_LowestTrackableValue w \<le> MaxInt64"
    "w_HighestTrackableValue w \<le> MaxInt64" "MinInt64 \<le> w_HighestTrackableValue w"
  using assms i64_range by (simp add: decodeDeCompressedHeaderFormat_def slice_def ENCODING_HEADER_SIZE_def)

lemma decode_stream_sound:
  assumes lg: "log2_ok lg"
  shows "(\<exists>e. decode_stream lg inflate z = Inl e \<and> clean e) \<or>
    (\<exists>g lo hi d r payload. decode_stream lg inflate z = Inr (g\<lparr>conversionRatio := r\<rparr>, payload) \<and>
       geometry_of lg lo hi d g \<and> MinInt64 \<le> hi)"
proof -
  consider (zlib) "inflate z = None"
    | (short) st e where "inflate z = Some st" "ReadFull st ENCODING_HEADER_SIZE = Inl e"
    | (read) st hd_bytes st' where "inflate z = Some st" "ReadFull st ENCODING_HEADER_SIZE = Inr (hd_bytes, st')"
    by (metis not_None_eq sum.exhaust surj_pair)
  then show ?thesis
  proof cases
    case read
    obtain w where w: "decodeDeCompressedHeaderFormat hd_bytes = Inr w"
      and r: "w_LowestTrackableValue w \<le> MaxInt64" "w_HighestTrackableValue w \<le> MaxInt64"
        "MinInt64 \<le> w_HighestTrackableValue w" by (rule header_ok [OF ReadFull_length [OF read(2)]])
    note wg = wireGeometry_cases [OF lg r(1,2), of "NumberOfSignificantValueDigits w"]
    have eq: "decode_stream lg inflate z =
       (if Cookie w \<noteq> V2EncodingCookieBase then Inl (UnsupportedCookie (Cookie w))
        else if PayloadLength w < 0 then Inl (NegativePayloadLength (PayloadLength w))
        else (case wireGeometry lg (w_LowestTrackableValue w) (w_HighestTrackableValue w)
                     (NumberOfSignificantValueDigits w) of
                Inl e \<Rightarrow> Inl (CorruptHeader e)
              | Inr geometry \<Rightarrow>
                  if PayloadLength w > i64 (countsLen geometry * 9)
                  then Inl (PayloadTooLong (PayloadLength w) (i64 (countsLen geometry * 9)) (countsLen geometry))
                  else (case ReadAllLimited st' (PayloadLength w + 1) of
                          Inl e \<Rightarrow> Inl e
                        | Inr payload \<Rightarrow>
                            if int (length payload) \<noteq> PayloadLength w
                            then Inl (PayloadSizeMismatch (int (length payload)) (PayloadLength w))
                            else Inr (geometry\<lparr>conversionRatio := w_ConversionRatio w\<rparr>, payload))))"
      unfolding decode_stream_def read option.case sum.case prod.case w Let_def ..
    from wg show ?thesis
    proof (elim disjE exE conjE)
      fix g assume g: "wireGeometry lg (w_LowestTrackableValue w) (w_HighestTrackableValue w)
          (NumberOfSignificantValueDigits w) = Inr g"
        "geometry_of lg (max 1 (w_LowestTrackableValue w)) (w_HighestTrackableValue w) (NumberOfSignificantValueDigits w) g"
      show ?thesis
        unfolding eq g(1) using g(2) r(3) ReadAllLimited_clean [of st' "PayloadLength w + 1"]
        by (auto split: sum.splits if_splits)
    qed (auto simp: eq)
  next
    case short
    with ReadFull_clean show ?thesis by (simp add: decode_stream_def)
  qed (simp add: decode_stream_def)
qed

lemma newExactGeometry_fresh:
  "newExactGeometry lg lo hi d = Inr g \<Longrightarrow>
   g\<lparr>counts := [], totalCount := 0, tag := '''', startTimeMs := 0, endTimeMs := 0, conversionRatio := 0\<rparr> = g"
  by (auto simp: newExactGeometry_def Let_def split: prod.splits option.splits)

lemma cleared_config: "cleared h = (config h)\<lparr>tag := '''', startTimeMs := 0, endTimeMs := 0, conversionRatio := 0\<rparr>"
  by (simp add: cleared_def config_def)

lemma cleared_ratio: "cleared (g\<lparr>conversionRatio := r, counts := cs\<rparr>) = cleared g"
  by (simp add: cleared_def)

lemma configured_fill:
  assumes g: "geometry_of lg lo hi d g" and h: "hist_ok h"
    and c: "config h = config (g\<lparr>conversionRatio := r, counts := cs\<rparr>)"
  shows "configured lg h" and "highestTrackableValue h = hi"
proof -
  have n: "newExactGeometry lg lo hi d = Inr g" and f: "lowestDiscernibleValue g = lo"
    "highestTrackableValue g = hi" "significantFigures g = d" using g by (simp_all add: geometry_of_def)
  have e: "cleared h = g"
    using newExactGeometry_fresh [OF n] cleared_ratio [where g = g and r = r and cs = cs]
    by (simp only: cleared_config [of h] c cleared_config [symmetric]) (simp add: cleared_def)
  have "lowestDiscernibleValue (cleared h) = lowestDiscernibleValue h"
    "highestTrackableValue (cleared h) = highestTrackableValue h"
    "significantFigures (cleared h) = significantFigures h" by (simp_all add: cleared_def)
  then have r: "lowestDiscernibleValue h = lo" "highestTrackableValue h = hi" "significantFigures h = d"
    unfolding e f by simp_all
  then show "highestTrackableValue h = hi" by simp
  show "configured lg h" using g h unfolding configured_def cleared_def [symmetric] e r by simp
qed

lemma decodeCompressedFormat_sound:
  assumes lg: "log2_ok lg"
  shows "case decodeCompressedFormat lg inflate z of
           Inl e \<Rightarrow> clean e
         | Inr h \<Rightarrow> configured lg h \<and> MinInt64 \<le> highestTrackableValue h"
  using decode_stream_sound [OF lg, of inflate z]
proof (elim disjE exE conjE)
  fix g lo hi d r payload
  assume s: "decode_stream lg inflate z = Inr (g\<lparr>conversionRatio := r\<rparr>, payload)"
    and g: "geometry_of lg lo hi d g" and hi: "MinInt64 \<le> hi"
  let ?rh = "g\<lparr>conversionRatio := r, counts := replicate (nat (countsLen g)) 0\<rparr>"
  have d: "decodeCompressedFormat lg inflate z = fillCountsArrayFromSourceBuffer payload 0 ?rh"
    using g countsLen_bound [of g] by (simp add: decodeCompressedFormat_def s make_counts_def geometry_of_def)
  have "hist_ok ?rh" using g countsLen_bound [of g] by (auto simp: hist_ok_def geometry_of_def sum_list_replicate)
  from fill_sound [OF this order_refl of_nat_0_le_iff, of payload] show ?thesis
  proof (elim disjE exE conjE)
    fix h assume f: "fillCountsArrayFromSourceBuffer payload 0 ?rh = Inr h" "hist_ok h" "config h = config ?rh"
    then show ?thesis using configured_fill [OF g f(2,3)] hi by (simp add: d)
  qed (simp_all add: d)
qed (simp add: decodeCompressedFormat_def)

lemma Decode_sound:
  assumes "log2_ok lg"
  shows "case Decode lg inflate enc of
           Inl e \<Rightarrow> refused (length enc) e
         | Inr h \<Rightarrow> configured lg h \<and> MinInt64 \<le> highestTrackableValue h"
proof (cases "decode_envelope enc")
  case (Inl e)
  then show ?thesis using decode_envelope_clean [of enc e] decode_envelope_error [of enc e]
    by (cases "int (length enc) \<le> 2147483647") (auto simp: Decode_def refused_def)
next
  case (Inr z)
  then show ?thesis using decodeCompressedFormat_sound [OF assms, of inflate z] by (simp add: Decode_def clean_refused split: sum.splits)
qed

lemma Decode_configured: "log2_ok lg \<Longrightarrow> Decode lg inflate enc = Inr h \<Longrightarrow> configured lg h"
  using Decode_sound [of lg enc inflate] by simp

section \<open>Properties\<close>

text \<open>C18: Every histogram the constructors, the decoder or any sequence of operations on them can
  produce is written, and reading the text back gives the same geometry, counts and total. The log
  metadata are not part of the format and come back empty; a missing conversion ratio is written
  as one. Any other version is refused. The text must be shorter than \<open>2 ^ 31\<close> bytes because its
  length field is an \<open>int32\<close>.\<close>

theorem Encode_Decode_roundtrip:
  assumes "log2_ok lg" "configured lg h" "MinInt64 \<le> highestTrackableValue h" "zlib_ok deflate inflate"
  shows "(\<exists>enc. Encode deflate h V2CompressedEncodingCookieBase = Inr enc \<and>
            (int (length enc) \<le> 2147483647 \<longrightarrow>
             Decode lg inflate enc = Inr (h\<lparr>tag := '''', startTimeMs := 0, endTimeMs := 0,
               conversionRatio := getIntegerToDoubleValueConversionRatio h\<rparr>))) \<and>
         (version \<noteq> V2CompressedEncodingCookieBase \<longrightarrow> Encode deflate h version = Inl (UnsupportedVersion version))"
proof -
  have h: "hist_ok h" using assms(2) by (simp add: configured_def)
  obtain enc where e: "Encode deflate h V2CompressedEncodingCookieBase = Inr enc" using Encode_eq [OF h] by metis
  with Decode_Encode [OF assms e] show ?thesis by (simp add: Encode_def)
qed

theorem Encode_Decode_roundtrip_witness:
  "\<exists>enc. Encode (\<lambda>bs. bs) sample_recorded V2CompressedEncodingCookieBase = Inr enc \<and>
         Decode floor_log2 (\<lambda>bs. Some (bs, Eof)) enc = Inr (sample_recorded\<lparr>conversionRatio := 0x3FF0000000000000\<rparr>)"
proof -
  have h: "hist_ok sample_recorded" using sample_recorded_configured by (simp add: configured_def)
  have hi: "MinInt64 \<le> highestTrackableValue sample_recorded"
    and r: "getIntegerToDoubleValueConversionRatio sample_recorded = 0x3FF0000000000000"
    and m: "sample_recorded\<lparr>tag := '''', startTimeMs := 0, endTimeMs := 0, conversionRatio := x\<rparr> =
      sample_recorded\<lparr>conversionRatio := x\<rparr>" for x
    by (simp_all add: sample_recorded_def sample_geometry_def getIntegerToDoubleValueConversionRatio_def)
  have z: "zlib_ok (\<lambda>bs. bs) (\<lambda>bs. Some (bs, Eof))" by (simp add: zlib_ok_def)
  have l: "length (counts sample_recorded) = 64" by (simp add: sample_recorded_def)
  obtain bs where b: "length bs \<le> 40 + 9 * length (counts sample_recorded)"
    "Encode (\<lambda>bs. bs) sample_recorded V2CompressedEncodingCookieBase = Inr (EncodeToString (be_bytes 4 compressedEncodingCookie @
       be_bytes 4 (i32 (int (length bs))) @ bs))" by (rule Encode_eq [OF h])
  have "length (EncodeToString (be_bytes 4 compressedEncodingCookie @ be_bytes 4 (i32 (int (length bs))) @ bs)) \<le> 4 * (8 + length bs)"
    by (rule order_trans [OF length_EncodeToString_le]) simp
  with b l Encode_Decode_roundtrip [OF log2_ok_floor_log2 sample_recorded_configured hi z, of 0] show ?thesis
    by (simp only: r m) force
qed

text \<open>C19: The decoder is safe on every input, whatever the compressed stream inflates to: it never loops, and it
  returns an error of its own or a histogram that satisfies the representation invariant in the geometry of its header.
  Every slice, index and allocation of it can panic in the model; that happens at one place only, the slice of the
  compressed contents, and only for a text longer than \<open>2 ^ 31 - 1\<close> bytes, where the \<open>int32\<close> sum of its bound may wrap.\<close>

theorem Decode_total:
  assumes "log2_ok lg"
  shows "case Decode lg inflate enc of
           Inl e \<Rightarrow> refused (length enc) e
         | Inr h \<Rightarrow> hist_ok h \<and> configured lg h \<and> MinInt64 \<le> highestTrackableValue h"
  using Decode_sound [OF assms, of enc inflate] by (auto simp: configured_def split: sum.splits)

theorem Decode_total_witness:
  "\<exists>e. Decode floor_log2 (\<lambda>bs. Some (bs, UnexpectedEof))
     (EncodeToString (be_bytes 4 compressedEncodingCookie @ be_bytes 4 1 @ [7])) = Inl e \<and> clean e"
proof -
  have "Decode floor_log2 (\<lambda>bs. Some (bs, UnexpectedEof))
     (EncodeToString (be_bytes 4 compressedEncodingCookie @ be_bytes 4 1 @ [7])) = Inl (HeaderTruncated 1 40)" by code_simp
  with Decode_total [OF log2_ok_floor_log2, of "EncodeToString (be_bytes 4 compressedEncodingCookie @ be_bytes 4 1 @ [7])"
      "\<lambda>bs. Some (bs, UnexpectedEof)"]
  show ?thesis by auto
qed

end
