(* ===== verification/Packed_Encoding_Spec.thy ===== *)
theory Packed_Encoding_Spec
  imports Packed_Encoding Encoding_Spec
begin

text \<open>
  The sparse codec against the dense one: the cursor reads the same counts, so the payload and
  the whole text are the same; the decoder simulates the dense decoder step by step
  (\<open>sparse_fill_simulates\<close>), and reading back a written histogram restores its count function,
  which determines the sparse representation.
\<close>

section \<open>The cursor\<close>

text \<open>The cursor never passes a populated bucket at or above the source index.\<close>

definition cursor_ok :: "packed \<Rightarrow> int \<Rightarrow> int \<Rightarrow> bool" where
  "cursor_ok p src j \<longleftrightarrow> 0 \<le> j \<and> j \<le> int (below (p_idx p) src)"

lemma advance_below:
  assumes "packed_wf p" "cursor_ok p src j"
  shows "advance p src j = int (below (p_idx p) src)"
  using assms
proof (induction p src j rule: advance.induct)
  case (1 p src j)
  note D = packed_wfD [OF "1.prems"(1)]
  show ?case
  proof (cases "j < int (below (p_idx p) src)")
    case True
    then have "nat j < length (p_idx p)" "j < p_size p" "0 \<le> j"
      using below_le [of "p_idx p" src] D(5) "1.prems"(2) by (auto simp: cursor_ok_def)
    then have "j < p_size p \<and> p_idx p ! nat j < src"
      using True sorted_nth_less_iff [OF D(2), of "nat j" src] by simp
    with "1.IH" "1.prems" True show ?thesis by (subst advance.simps) (simp add: cursor_ok_def)
  next
    case False
    then have j: "j = int (below (p_idx p) src)" using "1.prems"(2) by (simp add: cursor_ok_def)
    then have "\<not> (j < p_size p \<and> p_idx p ! nat j < src)"
      using D(5) sorted_nth_less_iff [OF D(2), of "nat j" src] by auto
    then show ?thesis using j by (subst advance.simps) auto
  qed
qed

lemma below_mono: "sorted_wrt (<) a \<Longrightarrow> k \<le> k' \<Longrightarrow> below a k \<le> below a k'"
proof (rule ccontr)
  assume s: "sorted_wrt (<) a" and k: "k \<le> k'" and n: "\<not> below a k \<le> below a k'"
  then have l: "below a k' < length a" using below_le [of a k] by simp
  have "a ! below a k' < k" using sorted_nth_less_iff [OF s l, of k] n by simp
  with k show False using sorted_nth_less_iff [OF s l, of k'] by simp
qed

lemma countAt_eq:
  assumes wf: "packed_wf p" and c: "cursor_ok p src j"
  shows "countAt p src j = (count_at p src, int (below (p_idx p) src))"
    and "cursor_ok p (src + 1) (int (below (p_idx p) src))"
proof -
  note D = packed_wfD [OF wf]
  show "cursor_ok p (src + 1) (int (below (p_idx p) src))"
    using below_mono [OF D(2), of src "src + 1"] by (simp add: cursor_ok_def)
  show "countAt p src j = (count_at p src, int (below (p_idx p) src))"
  proof (cases "src \<in> set (p_idx p)")
    case True
    note b = below_hit [OF D(2) True]
    have "slotGet p (int (below (p_idx p) src)) = count_at p src"
      using count_at_nth [OF wf b(1)] b slotGet_nth [OF D(1)] D(4) by simp
    with b D(5) show ?thesis by (simp add: countAt_def advance_below [OF wf c])
  next
    case False
    then have "\<not> (int (below (p_idx p) src) < p_size p \<and> p_idx p ! nat (int (below (p_idx p) src)) = src)"
      using D(5) by (metis nat_int nth_mem of_nat_less_iff)
    with count_at_miss [OF wf False] show ?thesis by (auto simp: Let_def countAt_def advance_below [OF wf c])
  qed
qed

section \<open>The payload\<close>

lemma drop_upto: "drop n [i..j] = [i + int n..j]" for i :: int
proof (induction n arbitrary: i)
  case (Suc n)
  show ?case
  proof (cases "i \<le> j")
    case True
    then have "drop (Suc n) [i..j] = drop n [i + 1..j]" by (simp add: upto_rec1)
    with Suc show ?thesis by (simp add: algebra_simps)
  qed simp
qed simp

lemma zeros_loop_eq:
  assumes "packed_wf p" "cursor_ok p src j"
  obtains j' where "zeros_loop p l src j z =
      (z + int (zero_run (map (count_at p) [src..l - 1])), src + int (zero_run (map (count_at p) [src..l - 1])), j')"
    "cursor_ok p (src + int (zero_run (map (count_at p) [src..l - 1]))) j'"
  using assms
proof (induction "nat (l - src)" arbitrary: src j z thesis)
  case 0
  then show ?case by (subst (asm) zeros_loop.simps) (simp add: zeros_loop.simps)
next
  case (Suc n)
  then have lt: "src < l" by simp
  note C = countAt_eq [OF Suc.prems(2,3)]
  have up: "[src..l - 1] = src # [src + 1..l - 1]" using lt by (simp add: upto_rec1)
  show ?case
  proof (cases "count_at p src = 0")
    case True
    let ?b = "int (below (p_idx p) src)" and ?r = "zero_run (map (count_at p) [src + 1..l - 1])"
    obtain j' where j': "zeros_loop p l (src + 1) ?b (z + 1) = (z + 1 + int ?r, src + 1 + int ?r, j')"
      "cursor_ok p (src + 1 + int ?r) j'"
      by (rule Suc.hyps(1) [of "src + 1" ?b "z + 1"]) (use Suc.hyps(2) Suc.prems(2) C(2) in auto)
    have "zeros_loop p l src j z = zeros_loop p l (src + 1) ?b (z + 1)"
      using lt True by (subst zeros_loop.simps) (simp add: C(1))
    then show ?thesis using j' True up by (intro Suc.prems(1) [of j']) (simp_all add: algebra_simps)
  next
    case False
    have "zeros_loop p l src j z = (z, src, int (below (p_idx p) src))"
      using lt False by (subst zeros_loop.simps) (simp add: C(1))
    moreover have "cursor_ok p src (int (below (p_idx p) src))" by (simp add: cursor_ok_def)
    ultimately show ?thesis using False up by (intro Suc.prems(1)) simp_all
  qed
qed

lemma sparse_loop_eq:
  assumes "packed_wf p" "cursor_ok p src j"
  shows "sparse_loop p l src j = fill_buffer (map (count_at p) [src..l - 1])"
  using assms(2)
proof (induction "nat (l - src)" arbitrary: src j rule: less_induct)
  case less
  show ?case
  proof (cases "src < l")
    case lt: True
    note C = countAt_eq [OF assms(1) less.prems]
    have up: "[src..l - 1] = src # [src + 1..l - 1]" using lt by (simp add: upto_rec1)
    let ?b = "int (below (p_idx p) src)" and ?r = "zero_run (map (count_at p) [src + 1..l - 1])"
    show ?thesis
    proof (cases "count_at p src = 0")
      case True
      obtain j' where j': "zeros_loop p l (src + 1) ?b 1 = (1 + int ?r, src + 1 + int ?r, j')"
        "cursor_ok p (src + 1 + int ?r) j'" by (rule zeros_loop_eq [OF assms(1) C(2)])
      have "sparse_loop p l src j = (if 1 + int ?r > 1 then zig_zag_encode_i64 (word_of_int (- (1 + int ?r)))
          else zig_zag_encode_i64 (word_of_int 0)) @ sparse_loop p l (src + 1 + int ?r) j'"
        using lt True by (subst sparse_loop.simps) (simp add: C(1) j'(1))
      moreover have "sparse_loop p l (src + 1 + int ?r) j' = fill_buffer (map (count_at p) [src + 1 + int ?r..l - 1])"
        using lt by (intro less.hyps j'(2)) simp
      ultimately show ?thesis using True by (simp add: up Let_def drop_map drop_upto)
    next
      case False
      have "sparse_loop p l src j = zig_zag_encode_i64 (word_of_int (count_at p src)) @ sparse_loop p l (src + 1) ?b"
        using lt False by (subst sparse_loop.simps) (simp add: C(1))
      moreover have "sparse_loop p l (src + 1) ?b = fill_buffer (map (count_at p) [src + 1..l - 1])"
        using lt by (intro less.hyps C(2)) simp
      ultimately show ?thesis using False by (simp add: up Let_def)
    qed
  qed (simp add: sparse_loop.simps)
qed

lemma counts_limit_dense_of:
  assumes "packed_wf p"
  shows "int (counts_limit (dense_of p)) = (if p_idx p = [] then 1 else last (p_idx p) + 1)"
  using populated_dense_of [OF assms, symmetric] by (auto simp: counts_limit_def last_map)

lemma dense_of_pos: "packed_wf p \<Longrightarrow> 0 < length (counts (dense_of p))"
  using countsLen_bound [of "p_geom p"] by (auto simp: packed_wf_def nth_dense_of)

lemma fillBufferFromSparse_eq:
  assumes wf: "packed_wf p"
  shows "fillBufferFromSparse p = fill_buffer (take (counts_limit (dense_of p)) (counts (dense_of p)))"
proof -
  have g: "geom_ok (p_geom p)" and r: "\<forall>i \<in> set (p_idx p). 0 \<le> i \<and> i < countsLen (p_geom p)"
    using wf by (auto simp: packed_wf_def)
  note D = packed_wfD [OF wf]
  let ?l = "int (counts_limit (dense_of p))"
  have l: "?l \<le> countsLen (p_geom p)"
    using counts_limit(1) [OF dense_of_pos [OF wf]] countsLen_bound [OF g] by (simp add: nth_dense_of)
  have "countsIndexFor (p_geom p) (Max_p p) = ?l - 1"
  proof (cases "p_idx p = []")
    case True
    then show ?thesis
      using D(5) countsIndexFor_0 [OF g] highest_index [OF g, of 0]
      by (simp add: Max_p_def counts_limit_dense_of [OF wf] highestEquivalent_eq [OF g])
  next
    case False
    then have i: "0 \<le> last (p_idx p)" "last (p_idx p) < countsLen (p_geom p)" using r by auto
    note v = valueFromFlatIndex_range [OF g i]
    have "p_idx p ! nat (p_size p - 1) = last (p_idx p)" using False D(5)
      by (auto simp: last_conv_nth intro!: arg_cong [where f = "(!) (p_idx p)"])
    then show ?thesis
      using False D(5) i v highest_index [OF g, of "valueFromFlatIndex (p_geom p) (last (p_idx p))"]
        countsIndexFor_valueFromFlatIndex(1) [OF g i]
      by (simp add: Max_p_def counts_limit_dense_of [OF wf] highestEquivalent_eq [OF g])
  qed
  moreover have "i32 ?l = ?l" using l countsLen_bound(2) [OF g] by (intro i32_id) linarith+
  moreover have "cursor_ok p 0 0" by (simp add: cursor_ok_def)
  moreover have "map (count_at p) [0..?l - 1] = take (counts_limit (dense_of p)) (counts (dense_of p))"
    using l by (intro nth_equalityI) (auto simp: nth_dense_of)
  ultimately show ?thesis
    by (simp add: fillBufferFromSparse_def sparse_loop_eq [OF wf])
qed

section \<open>The encoded text\<close>

lemma le_bytes_mod: "le_bytes n (v mod 256 ^ n) = le_bytes n v"
proof (induction n arbitrary: v)
  case (Suc n)
  have "v mod 256 ^ Suc n div 256 = v div 256 mod 256 ^ n"
    by (simp add: zmod_zmult2_eq)
  moreover have "(word_of_int (v mod 256 ^ Suc n) :: byte) = word_of_int v"
    by (simp add: word_of_int_eq_iff take_bit_eq_mod mod_mod_cancel)
  ultimately show ?case using Suc [of "v div 256"] by (simp only: le_bytes.simps)
qed simp

lemma be_bytes_i32: "be_bytes 4 (i32 v) = be_bytes 4 v"
proof -
  have "i32 v mod 256 ^ 4 = v mod 256 ^ 4" by (simp add: i32_def mod_diff_left_eq)
  then show ?thesis by (metis be_bytes_def le_bytes_mod)
qed

lemma dense_of_header [simp]:
  "significantFigures (dense_of p) = significantFigures (p_geom p)"
  "lowestDiscernibleValue (dense_of p) = lowestDiscernibleValue (p_geom p)"
  "highestTrackableValue (dense_of p) = highestTrackableValue (p_geom p)"
  "getIntegerToDoubleValueConversionRatio (dense_of p) = getIntegerToDoubleValueConversionRatio (p_geom p)"
  by (simp_all add: dense_of_def getIntegerToDoubleValueConversionRatio_def)

lemma Encode_p_eq:
  assumes "packed_ok p" "sum_list (slots p) \<le> MaxInt64"
  shows "Encode_p deflate p = Encode deflate (dense_of p) V2CompressedEncodingCookieBase"
proof -
  have wf: "packed_wf p" using assms(1) by (simp add: packed_ok_def)
  show ?thesis
    by (simp add: Encode_p_def Encode_def dumpV2CompressedEncoding_def encodeIntoByteBuffer_def Let_def
      fillBufferFromSparse_eq [OF wf] fillBufferFromCountsArray_eq [OF hist_ok_dense_of [OF assms]]
      be_bytes_i32 getNormalizingIndexOffset_def)
qed

section \<open>Filling the sparse storage\<close>

text \<open>One step of the decoder on a nonempty payload.\<close>

lemma sparse_fill_step:
  assumes "payload \<noteq> []" "zig_zag_decode_i64 payload = Inr (w, n)"
  shows "sparse_fill payload dst t p =
    (if sint w < 0
     then if i64 (- sint w) \<le> 0 \<or> i64 (- sint w) > i64 (countsLen (p_geom p) - dst)
          then Inl (ZeroRunOverflow (i64 (- sint w)) dst (countsLen (p_geom p)))
          else sparse_fill (drop n payload) (i64 (dst + i64 (- sint w))) t p
     else if dst \<ge> countsLen (p_geom p) then Inl (IndexOverflow dst (countsLen (p_geom p)))
     else if sint w > 0
     then sparse_fill (drop n payload) (i64 (dst + 1))
            (if sint w > i64 (MaxInt64 - t) then MaxInt64 else i64 (t + sint w)) (snd (sparseAdd p (i32 dst) (sint w)))
     else sparse_fill (drop n payload) (i64 (dst + 1)) t p)"
  using assms by (subst sparse_fill.simps) (simp add: Let_def)

text \<open>The state between two steps: the buckets filled so far are below the destination index, and
  the total is their sum, saturated.\<close>

definition fill_ok :: "packed \<Rightarrow> int \<Rightarrow> int \<Rightarrow> bool" where
  "fill_ok p dst t \<longleftrightarrow>
     packed_wf p \<and> 0 \<le> dst \<and> dst \<le> countsLen (p_geom p) \<and> (\<forall>i \<in> set (p_idx p). i < dst) \<and>
     t = min MaxInt64 (sum_list (slots p))"

lemma fill_okD:
  assumes "fill_ok p dst t"
  shows "packed_wf p" "geom_ok (p_geom p)" "0 \<le> t" "t \<le> MaxInt64" "i64 (MaxInt64 - t) = MaxInt64 - t"
    "i64 (countsLen (p_geom p) - dst) = countsLen (p_geom p) - dst"
    "0 \<le> dst" "dst \<le> countsLen (p_geom p)" "i32 dst = dst"
proof -
  show wf: "packed_wf p" and d: "0 \<le> dst" "dst \<le> countsLen (p_geom p)" using assms by (simp_all add: fill_ok_def)
  then show g: "geom_ok (p_geom p)" by (simp add: packed_wf_def)
  show t: "0 \<le> t" "t \<le> MaxInt64" using assms sum_bounds_packed(1) [OF wf] by (auto simp: fill_ok_def)
  then show "i64 (MaxInt64 - t) = MaxInt64 - t" by (intro i64_id) simp_all
  show "i64 (countsLen (p_geom p) - dst) = countsLen (p_geom p) - dst" "i32 dst = dst"
    using d countsLen_bound [OF g] by (intro i64_id i32_id; linarith)+
qed

lemma fill_ok_zeros: "fill_ok p dst t \<Longrightarrow> 0 \<le> k \<Longrightarrow> dst + k \<le> countsLen (p_geom p) \<Longrightarrow> fill_ok p (dst + k) t"
  by (auto simp: fill_ok_def)

lemma fill_ok_count:
  assumes f: "fill_ok p dst t" and lt: "dst < countsLen (p_geom p)" and c: "0 < c" "c \<le> MaxInt64"
  obtains q where "snd (sparseAdd p dst c) = q" "fill_ok q (dst + 1) (if c > MaxInt64 - t then MaxInt64 else i64 (t + c))"
    "count_at q = (count_at p)(dst := c)" "sum_list (slots q) = sum_list (slots p) + c" "p_geom q = p_geom p"
proof -
  note F = fill_okD [OF f]
  have z: "count_at p dst = 0" using f count_at_miss [OF F(1), of dst] by (auto simp: fill_ok_def)
  obtain pos q where q: "sparseAdd p dst c = (pos, q)" "packed_wf q"
    "count_at q = (count_at p)(dst := count_at p dst + c)" "sum_list (slots q) = sum_list (slots p) + c"
    "p_geom q = p_geom p" "set (p_idx q) = insert dst (set (p_idx p))"
    by (rule sparseAdd_spec [OF F(1,7) lt c(1)]) (use z c in auto)
  have "fill_ok q (dst + 1) (if c > MaxInt64 - t then MaxInt64 else i64 (t + c))"
    using f q lt c F(3) by (auto simp: fill_ok_def i64_id)
  with q z show thesis by (intro that [of q]) simp_all
qed

text \<open>Every run of the sparse decoder ends in an error of its own or in a well-formed histogram
  that holds at least what was there before.\<close>

lemma sparse_fill_sound:
  assumes "fill_ok p dst t"
  shows "(\<exists>e. sparse_fill payload dst t p = Inl e \<and> clean e) \<or>
    (\<exists>q. sparse_fill payload dst t p = Inr q \<and> packed_ok q \<and> p_geom q = p_geom p \<and>
         sum_list (slots p) \<le> sum_list (slots q))"
  using assms
proof (induction "length payload" arbitrary: payload dst t p rule: less_induct)
  case less
  note F = fill_okD [OF less.prems]
  consider (nil) "payload = []" | (bad) e where "payload \<noteq> []" "zig_zag_decode_i64 payload = Inl e"
    | (step) w n where "payload \<noteq> []" "zig_zag_decode_i64 payload = Inr (w, n)"
    by (metis sum.exhaust surj_pair)
  then show ?case
  proof cases
    case nil
    with less.prems show ?thesis by (subst sparse_fill.simps) (simp add: fill_ok_def packed_ok_def)
  next
    case bad
    with decode_error [OF bad(2)] show ?thesis by (subst (1) sparse_fill.simps) simp
  next
    case step
    define c where "c = sint w"
    have cb: "c \<le> MaxInt64" unfolding c_def using sint_lt [of w] by simp
    note S = sparse_fill_step [OF step, of dst t p, folded c_def]
    have sh: "length (drop n payload) < length payload" by (rule decode_shorter [OF step])
    have IH: "?thesis" if "sparse_fill payload dst t p = sparse_fill (drop n payload) d' t' q" "fill_ok q d' t'"
      "p_geom q = p_geom p" "sum_list (slots p) \<le> sum_list (slots q)" for d' t' q
      using less.hyps [OF sh that(2)] that by auto
    have i1: "i64 (dst + 1) = dst + 1" using F(7,8) countsLen_bound [OF F(2)] by (intro i64_id) linarith+
    consider "sparse_fill payload dst t p = Inl (ZeroRunOverflow (i64 (- c)) dst (countsLen (p_geom p)))"
      | "sparse_fill payload dst t p = Inl (IndexOverflow dst (countsLen (p_geom p)))"
      | (zeros) "c < 0" "\<not> i64 (- c) \<le> 0" "i64 (- c) \<le> countsLen (p_geom p) - dst"
      | (zero) "c = 0" "dst < countsLen (p_geom p)"
      | (count) "0 < c" "dst < countsLen (p_geom p)"
      using S F(6) by (metis linorder_cases not_le)
    then show ?thesis
    proof cases
      case zeros
      have d: "i64 (dst + i64 (- c)) = dst + i64 (- c)"
        using zeros F(7,8) countsLen_bound [OF F(2)] by (intro i64_id) linarith+
      show ?thesis
        by (rule IH [of "dst + i64 (- c)" t p]) (use S zeros F(6) d less.prems in \<open>auto intro!: fill_ok_zeros\<close>)
    next
      case zero
      show ?thesis
        by (rule IH [of "dst + 1" t p]) (use S zero i1 less.prems in \<open>auto intro!: fill_ok_zeros\<close>)
    next
      case count
      from fill_ok_count [OF less.prems count(2,1) cb] obtain q where q: "snd (sparseAdd p dst c) = q"
        "fill_ok q (dst + 1) (if c > MaxInt64 - t then MaxInt64 else i64 (t + c))"
        "sum_list (slots q) = sum_list (slots p) + c" "p_geom q = p_geom p" by metis
      show ?thesis
        by (rule IH [OF _ q(2,4)]) (use S count i1 F(5,9) q in auto)
    qed auto
  qed
qed

text \<open>Step by step the sparse decoder does what the dense one does, until the dense one stops
  because the total does not fit.\<close>

lemma sparse_fill_simulates:
  assumes "fill_ok p dst t" "sum_list (slots p) \<le> MaxInt64"
  shows "(\<exists>e. clean e \<and> sparse_fill payload dst t p = Inl e \<and>
            (fillCountsArrayFromSourceBuffer payload dst (dense_of (p\<lparr>p_totalCount := t\<rparr>)) = Inl e \<or>
             (\<exists>i. fillCountsArrayFromSourceBuffer payload dst (dense_of (p\<lparr>p_totalCount := t\<rparr>)) = Inl (PayloadSumOverflow i)))) \<or>
         (\<exists>q. sparse_fill payload dst t p = Inr q \<and> packed_ok q \<and>
            (if sum_list (slots q) \<le> MaxInt64
             then fillCountsArrayFromSourceBuffer payload dst (dense_of (p\<lparr>p_totalCount := t\<rparr>)) = Inr (dense_of q)
             else (\<exists>i. fillCountsArrayFromSourceBuffer payload dst (dense_of (p\<lparr>p_totalCount := t\<rparr>)) = Inl (PayloadSumOverflow i))))"
  using assms
proof (induction "length payload" arbitrary: payload dst t p rule: less_induct)
  case less
  note F = fill_okD [OF less.prems(1)]
  let ?h = "dense_of (p\<lparr>p_totalCount := t\<rparr>)"
  have ok: "packed_ok (p\<lparr>p_totalCount := t\<rparr>)" using less.prems(1) by (simp add: fill_ok_def packed_ok_def)
  have t: "t = sum_list (slots p)" "totalCount ?h = t"
    using less.prems by (auto simp: fill_ok_def dense_of_def)
  have len: "int (length (counts ?h)) = countsLen (p_geom p)"
    using countsLen_bound [OF F(2)] by (simp add: nth_dense_of)
  have h: "hist_ok ?h" by (rule hist_ok_dense_of [OF ok]) (simp add: less.prems(2))
  consider (nil) "payload = []" | (bad) e where "payload \<noteq> []" "zig_zag_decode_i64 payload = Inl e"
    | (step) w n where "payload \<noteq> []" "zig_zag_decode_i64 payload = Inr (w, n)"
    by (metis sum.exhaust surj_pair)
  then show ?case
  proof cases
    case nil
    then show ?thesis using less.prems(2) ok by (simp add: sparse_fill.simps fillCountsArrayFromSourceBuffer.simps)
  next
    case bad
    have "sparse_fill payload dst t p = Inl e" using bad by (subst sparse_fill.simps) simp
    moreover have "fillCountsArrayFromSourceBuffer payload dst ?h = Inl e"
      using bad by (subst fillCountsArrayFromSourceBuffer.simps) simp
    ultimately show ?thesis using decode_error [OF bad(2)] by simp
  next
    case step
    define c where "c = sint w"
    have cb: "c \<le> MaxInt64" unfolding c_def using sint_lt [of w] by simp
    note S = sparse_fill_step [OF step, of dst t p, folded c_def]
    have D: "fillCountsArrayFromSourceBuffer payload dst ?h =
      (if c < 0
       then if i64 (- c) \<le> 0 \<or> i64 (- c) > countsLen (p_geom p) - dst
            then Inl (ZeroRunOverflow (i64 (- c)) dst (countsLen (p_geom p)))
            else fillCountsArrayFromSourceBuffer (drop n payload) (i64 (dst + i64 (- c))) ?h
       else if dst \<ge> countsLen (p_geom p) then Inl (IndexOverflow dst (countsLen (p_geom p)))
       else if c > MaxInt64 - t then Inl (PayloadSumOverflow dst)
       else fillCountsArrayFromSourceBuffer (drop n payload) (i64 (dst + 1)) (setCountAtIndex ?h dst c))"
      using t(2) F(5,6) by (simp only: fill_decoded [OF step F(7)] Let_def c_def [symmetric] len)
    have sh: "length (drop n payload) < length payload" by (rule decode_shorter [OF step])
    have IH: "?thesis" if "sparse_fill payload dst t p = sparse_fill (drop n payload) d' t' q" "fill_ok q d' t'"
      "sum_list (slots q) \<le> MaxInt64"
      "fillCountsArrayFromSourceBuffer payload dst ?h =
         fillCountsArrayFromSourceBuffer (drop n payload) d' (dense_of (q\<lparr>p_totalCount := t'\<rparr>))" for d' t' q
      unfolding that(1,4) by (rule less.hyps [OF sh that(2,3)])
    have i1: "i64 (dst + 1) = dst + 1" using F(7,8) countsLen_bound [OF F(2)] by (intro i64_id) linarith+
    consider (bad_run) "c < 0" "i64 (- c) \<le> 0 \<or> i64 (- c) > countsLen (p_geom p) - dst"
      | (bad_index) "0 \<le> c" "countsLen (p_geom p) \<le> dst"
      | (zeros) "c < 0" "\<not> (i64 (- c) \<le> 0 \<or> i64 (- c) > countsLen (p_geom p) - dst)"
      | (zero) "c = 0" "dst < countsLen (p_geom p)"
      | (over) "0 < c" "dst < countsLen (p_geom p)" "c > MaxInt64 - t"
      | (count) "0 < c" "dst < countsLen (p_geom p)" "c \<le> MaxInt64 - t"
      by linarith
    then show ?thesis
    proof cases
      case bad_run
      then show ?thesis by (simp add: S D F(6))
    next
      case bad_index
      then show ?thesis by (simp add: S D)
    next
      case zeros
      have d: "i64 (dst + i64 (- c)) = dst + i64 (- c)"
        using zeros F(7,8) countsLen_bound [OF F(2)] by (intro i64_id) linarith+
      show ?thesis
        by (rule IH [of "dst + i64 (- c)" t p]) (use S D zeros F(6) d less.prems in \<open>auto intro!: fill_ok_zeros\<close>)
    next
      case zero
      have "setCountAtIndex ?h dst 0 = ?h"
        using setCountAtIndex_eq(1) [OF h, of "nat dst" 0] zero F(4,7) t len by simp
      then show ?thesis
        by (intro IH [of "dst + 1" t p]) (use S D zero i1 F(4) less.prems in \<open>auto intro!: fill_ok_zeros\<close>)
    next
      case over
      have e: "(if c > MaxInt64 - t then MaxInt64 else i64 (t + c)) = MaxInt64" using over by simp
      obtain q where q: "snd (sparseAdd p dst c) = q" "fill_ok q (dst + 1) MaxInt64"
        "count_at q = (count_at p)(dst := c)" "sum_list (slots q) = sum_list (slots p) + c" "p_geom q = p_geom p"
        by (rule fill_ok_count [OF less.prems(1) over(2,1) cb, unfolded e])
      have "sparse_fill payload dst t p = sparse_fill (drop n payload) (dst + 1) MaxInt64 q"
        using S over i1 F(5,9) q(1) by simp
      moreover have "fillCountsArrayFromSourceBuffer payload dst ?h = Inl (PayloadSumOverflow dst)" using D over by simp
      moreover have "MaxInt64 < sum_list (slots q)" using q(4) over(3) t(1) by simp
      ultimately show ?thesis using sparse_fill_sound [OF q(2), of "drop n payload"] by fastforce
    next
      case count
      have e: "(if c > MaxInt64 - t then MaxInt64 else i64 (t + c)) = i64 (t + c)" using count by simp
      obtain q where q: "snd (sparseAdd p dst c) = q" "fill_ok q (dst + 1) (i64 (t + c))"
        "count_at q = (count_at p)(dst := c)" "sum_list (slots q) = sum_list (slots p) + c" "p_geom q = p_geom p"
        by (rule fill_ok_count [OF less.prems(1) count(2,1) cb, unfolded e])
      have tc: "i64 (t + c) = t + c" using count F(3) by (intro i64_id) linarith+
      have z: "counts ?h ! nat dst = 0"
        using count_at_miss [OF F(1), of dst] less.prems(1) count F(7) by (auto simp: fill_ok_def nth_dense_of)
      have "setCountAtIndex ?h dst c = dense_of (q\<lparr>p_totalCount := i64 (t + c)\<rparr>)"
        using setCountAtIndex_eq(1) [OF h, of "nat dst" c] count F(7) t(2) len z
          counts_dense_update [OF F(7) count(2), of "count_at p" c]
        by (simp add: dense_of_def q(3,5) tc)
      then show ?thesis
        by (intro IH [OF _ q(2)]) (use S D count i1 F(5,9) q(1,4) t in auto)
    qed
  qed
qed

section \<open>The round trip\<close>

lemma fill_count_zero: "fill_ok p dst t \<Longrightarrow> dst \<le> k \<Longrightarrow> count_at p k = 0"
  by (rule count_at_miss) (auto simp: fill_ok_def)

lemma nth_zeros: "c = 0 \<Longrightarrow> i \<le> zero_run cs \<Longrightarrow> (c # cs) ! i = (0 :: int)"
  using zero_run_split(1) [of c cs] by (metis nth_append length_replicate less_Suc_eq_le nth_replicate)

text \<open>The count function after reading \<open>cs\<close> from \<open>dst\<close> on.\<close>

definition written :: "packed \<Rightarrow> int \<Rightarrow> int list \<Rightarrow> int \<Rightarrow> int" where
  "written p dst cs k = (if dst \<le> k \<and> k < dst + int (length cs) then cs ! nat (k - dst) else count_at p k)"

lemma written_skip:
  assumes "fill_ok p dst t"
  shows "written p dst (replicate n 0 @ cs) = written p (dst + int n) cs"
proof
  fix k
  show "written p dst (replicate n 0 @ cs) k = written p (dst + int n) cs k"
    using fill_count_zero [OF assms, of k] nat_diff_distrib [of "int n" "k - dst"]
    by (auto simp: written_def nth_append nat_less_iff diff_diff_eq)
qed

lemma written_cons:
  assumes "count_at q = (count_at p)(dst := c)" "fill_ok p dst t"
  shows "written q (dst + 1) cs = written p dst (c # cs)"
proof
  fix k
  show "written q (dst + 1) cs k = written p dst (c # cs) k"
  proof (cases "k = dst")
    case False
    then have "nat (k - dst) = Suc (nat (k - (dst + 1)))" if "dst \<le> k" using that by simp
    with False show ?thesis by (auto simp: written_def assms(1))
  qed (simp add: written_def assms(1))
qed

lemma sparse_fill_encoded:
  assumes "MinInt64 \<le> x" "x \<le> MaxInt64"
  shows "sparse_fill (zig_zag_encode_i64 (word_of_int x) @ rest) dst t p =
    (if x < 0
     then if i64 (- x) \<le> 0 \<or> i64 (- x) > i64 (countsLen (p_geom p) - dst)
          then Inl (ZeroRunOverflow (i64 (- x)) dst (countsLen (p_geom p)))
          else sparse_fill rest (i64 (dst + i64 (- x))) t p
     else if dst \<ge> countsLen (p_geom p) then Inl (IndexOverflow dst (countsLen (p_geom p)))
     else if x > 0
     then sparse_fill rest (i64 (dst + 1)) (if x > i64 (MaxInt64 - t) then MaxInt64 else i64 (t + x))
            (snd (sparseAdd p (i32 dst) x))
     else sparse_fill rest (i64 (dst + 1)) t p)"
proof -
  have "zig_zag_encode_i64 (word_of_int x) @ rest \<noteq> []" using encode_nonempty by simp
  from sparse_fill_step [OF this decode_encode, of dst t p] show ?thesis
    by (simp only: sint_word_of_int [OF assms] append_eq_conv_conj drop_append drop_all order_refl diff_self_eq_0 drop0 append_Nil)
qed

lemma sparse_fill_roundtrip:
  assumes "fill_ok p dst t" "\<forall>c \<in> set cs. 0 \<le> c \<and> c \<le> MaxInt64" "dst + int (length cs) \<le> countsLen (p_geom p)"
  shows "\<exists>q. sparse_fill (fill_buffer cs) dst t p = Inr q \<and> packed_ok q \<and> p_geom q = p_geom p \<and>
             count_at q = written p dst cs"
  using assms
proof (induction cs arbitrary: p dst t rule: fill_buffer.induct)
  case 1
  have "written p dst [] = count_at p" by (auto simp: written_def)
  with 1 show ?case by (subst sparse_fill.simps) (simp add: fill_ok_def packed_ok_def)
next
  case (2 c cs)
  note F = fill_okD [OF "2.prems"(1)]
  have b: "countsLen (p_geom p) \<le> 8388608" using countsLen_bound [OF F(2)] by simp
  let ?z = "zero_run cs"
  show ?case
  proof (cases "c = 0 \<and> 0 < ?z")
    case True
    define x where "x = - (1 + int ?z)"
    have zl: "?z \<le> length cs" by (rule zero_run_le)
    have zb: "1 + int ?z \<le> 8388608" "dst + (1 + int ?z) \<le> 8388608" using zl F(7) b "2.prems"(3) by simp_all
    have x: "- x = 1 + int ?z" by (simp add: x_def)
    have i: "i64 (- x) = 1 + int ?z" "i64 (dst + (1 + int ?z)) = dst + (1 + int ?z)" "MinInt64 \<le> x" "x \<le> MaxInt64" "x < 0"
      using zb F(7) unfolding x by (simp_all add: i64_id x_def)
    have f: "fill_buffer (c # cs) = zig_zag_encode_i64 (word_of_int x) @ fill_buffer (drop ?z cs)"
      using True by (simp add: Let_def x_def)
    have "fill_ok p (dst + (1 + int ?z)) t" using "2.prems"(3) zl by (intro fill_ok_zeros [OF "2.prems"(1)]) auto
    with "2.IH" [OF refl refl, of p "dst + (1 + int ?z)" t] True "2.prems" zl obtain q where
      q: "sparse_fill (fill_buffer (drop ?z cs)) (dst + (1 + int ?z)) t p = Inr q" "packed_ok q" "p_geom q = p_geom p"
        "count_at q = written p (dst + (1 + int ?z)) (drop ?z cs)" by (auto dest: in_set_dropD)
    have "sparse_fill (fill_buffer (c # cs)) dst t p = Inr q"
      unfolding f sparse_fill_encoded [OF i(3,4)] using i q(1) F(6) zl "2.prems"(3) by simp
    moreover have "written p dst (c # cs) = written p (dst + (1 + int ?z)) (drop ?z cs)"
      unfolding zero_run_split(1) [OF conjunct1 [OF True], of cs]
      using written_skip [OF "2.prems"(1), of "Suc ?z" "drop ?z cs"] by simp
    ultimately show ?thesis using q by auto
  next
    case False
    have f: "fill_buffer (c # cs) = zig_zag_encode_i64 (word_of_int c) @ fill_buffer cs"
      and rest: "(if c = 0 then drop ?z cs else cs) = cs" using False by (auto simp: Let_def)
    have c: "0 \<le> c" "c \<le> MaxInt64" "MinInt64 \<le> c" using "2.prems"(2) by auto
    have lt: "dst < countsLen (p_geom p)" using "2.prems"(3) by simp
    have i1: "i64 (dst + 1) = dst + 1" using F(7,8) b by (intro i64_id) linarith+
    note E = sparse_fill_encoded [OF c(3,2), of "fill_buffer cs" dst t p, folded f]
    obtain q t' where q: "sparse_fill (fill_buffer (c # cs)) dst t p = sparse_fill (fill_buffer cs) (dst + 1) t' q"
      "fill_ok q (dst + 1) t'" "count_at q = (count_at p)(dst := c)" "p_geom q = p_geom p"
    proof (cases "c = 0")
      case True
      have "count_at p = (count_at p)(dst := c)" using True fill_count_zero [OF "2.prems"(1), of dst] by auto
      moreover have "sparse_fill (fill_buffer (c # cs)) dst t p = sparse_fill (fill_buffer cs) (dst + 1) t p"
        unfolding E using True lt i1 by simp
      ultimately show thesis using that fill_ok_zeros [OF "2.prems"(1), of 1] lt by simp
    next
      case False
      then have "0 < c" using c(1) by simp
      from fill_ok_count [OF "2.prems"(1) lt this c(2)] obtain q where q: "snd (sparseAdd p dst c) = q"
        "fill_ok q (dst + 1) (if c > MaxInt64 - t then MaxInt64 else i64 (t + c))"
        "count_at q = (count_at p)(dst := c)" "p_geom q = p_geom p" by blast
      have "sparse_fill (fill_buffer (c # cs)) dst t p =
          sparse_fill (fill_buffer cs) (dst + 1) (if c > MaxInt64 - t then MaxInt64 else i64 (t + c)) q"
        unfolding E using lt i1 F(5,9) \<open>0 < c\<close> q(1) by simp
      from that [OF this q(2-4)] show thesis .
    qed
    from "2.IH" [OF refl refl, unfolded rest, OF q(2)] "2.prems" q(4) obtain q' where
      "sparse_fill (fill_buffer cs) (dst + 1) t' q = Inr q'" "packed_ok q'" "p_geom q' = p_geom q"
      "count_at q' = written q (dst + 1) cs" by auto
    with q written_cons [OF q(3) "2.prems"(1)] show ?thesis by auto
  qed
qed

text \<open>A sparse histogram is determined by its count function.\<close>

lemma packed_ext:
  assumes "packed_wf p" "packed_wf q" "count_at p = count_at q"
  shows "p_idx p = p_idx q" "slots p = slots q"
proof -
  have "set (p_idx p) = set (p_idx q)"
    using count_at_bounds(2) [OF assms(1)] count_at_bounds(2) [OF assms(2)] assms(3) by auto
  then show i: "p_idx p = p_idx q"
    using packed_wfD(2) [OF assms(1)] packed_wfD(2) [OF assms(2)] by (intro strict_sorted_equal) auto
  show "slots p = slots q"
    using packed_wfD(4) [OF assms(1)] packed_wfD(4) [OF assms(2)] count_at_nth [OF assms(1)] count_at_nth [OF assms(2)] i assms(3)
    by (intro nth_equalityI) auto
qed

lemma count_at_le:
  assumes "packed_wf p"
  shows "count_at p k \<le> MaxInt64"
proof (cases "k \<in> set (p_idx p)")
  case True
  then obtain i where i: "i < length (p_idx p)" "p_idx p ! i = k" by (auto simp: in_set_conv_nth)
  note D = packed_wfD [OF assms]
  have "slots p ! i \<le> packedWidthMax (p_width p)" using D(1,4) i(1) by (auto simp: holds_def)
  also have "\<dots> \<le> MaxInt64" by (simp add: packedWidthMax_def)
  finally show ?thesis using count_at_nth [OF assms i(1)] i(2) by simp
qed (simp add: count_at_miss [OF assms])

section \<open>The decoder of whole texts\<close>

lemma DecodePacked_eq:
  assumes "int (length enc) \<le> 2147483647"
  shows "DecodePacked lg inflate enc =
    (case decode_envelope enc of Inl e \<Rightarrow> Inl e | Inr z \<Rightarrow> decodePackedCompressed lg inflate z)"
proof (cases "DecodeString enc")
  case (Inr d)
  have l: "int (length d) \<le> 2147483647" using length_DecodeString [OF Inr] assms by simp
  have i: "i32 (int (length (drop 8 d))) = int (length (drop 8 d))" using l by (intro i32_id) simp_all
  show ?thesis
    using slice_contents(1) [OF _ _ _ l, of "i32 (be_val (take 4 (drop 4 d)))"]
    by (auto simp: DecodePacked_def decode_envelope_eq [OF Inr] Inr envelope_slices Let_def i simp del: length_drop)
qed (simp add: DecodePacked_def decode_envelope_def)

lemma fresh_fill_ok:
  assumes "geom_ok g"
  shows "fill_ok \<lparr>p_geom = g, p_idx = [], p_cnt = [], p_width = 1, p_size = 0, p_totalCount = 0, lastIndex = 0, lastPos = 0\<rparr> 0 0"
    and "slots \<lparr>p_geom = g, p_idx = [], p_cnt = [], p_width = 1, p_size = 0, p_totalCount = 0, lastIndex = 0, lastPos = 0\<rparr> = []"
    and "count_at \<lparr>p_geom = g, p_idx = [], p_cnt = [], p_width = 1, p_size = 0, p_totalCount = 0, lastIndex = 0, lastPos = 0\<rparr> k = 0"
  using assms countsLen_bound [OF assms]
  by (simp_all add: fill_ok_def packed_wf_def holds_def slots_def is_width_def count_at_def)

lemma decodePacked_parity:
  assumes lg: "log2_ok lg"
  shows "(\<exists>e. clean e \<and> decodePackedCompressed lg inflate z = Inl e \<and>
            (decodeCompressedFormat lg inflate z = Inl e \<or>
             (\<exists>i. decodeCompressedFormat lg inflate z = Inl (PayloadSumOverflow i)))) \<or>
         (\<exists>q. decodePackedCompressed lg inflate z = Inr q \<and> packed_ok q \<and>
            (if sum_list (slots q) \<le> MaxInt64 then decodeCompressedFormat lg inflate z = Inr (dense_of q)
             else (\<exists>i. decodeCompressedFormat lg inflate z = Inl (PayloadSumOverflow i))))"
proof (cases "decode_stream lg inflate z")
  case (Inl e)
  with decode_stream_sound [OF lg, of inflate z] show ?thesis
    by (auto simp: decodePackedCompressed_def decodeCompressedFormat_def)
next
  case (Inr r)
  with decode_stream_sound [OF lg, of inflate z] obtain g lo hi d rr payload where
    s: "decode_stream lg inflate z = Inr (g\<lparr>conversionRatio := rr\<rparr>, payload)" and g: "geometry_of lg lo hi d g" by auto
  let ?g = "g\<lparr>conversionRatio := rr\<rparr>"
  let ?p = "\<lparr>p_geom = ?g, p_idx = [], p_cnt = [], p_width = 1, p_size = 0, p_totalCount = 0, lastIndex = 0, lastPos = 0\<rparr>"
  have ok: "geom_ok ?g" "totalCount ?g = 0" using g by (simp_all add: geometry_of_def)
  have "dense_of (?p\<lparr>p_totalCount := 0\<rparr>) = ?g\<lparr>counts := replicate (nat (countsLen ?g)) 0\<rparr>"
    using NewPacked_ok(2) [OF ok] by simp
  then have "decodeCompressedFormat lg inflate z = fillCountsArrayFromSourceBuffer payload 0 (dense_of (?p\<lparr>p_totalCount := 0\<rparr>))"
    using countsLen_bound [OF ok(1)] by (simp add: decodeCompressedFormat_def s make_counts_def)
  moreover have "decodePackedCompressed lg inflate z = sparse_fill payload 0 0 ?p"
    by (simp add: decodePackedCompressed_def s fillSparseFromPayload_def)
  moreover have "sum_list (slots ?p) \<le> MaxInt64" by (simp add: fresh_fill_ok(2) [OF ok(1)])
  ultimately show ?thesis
    using sparse_fill_simulates [OF fresh_fill_ok(1) [OF ok(1)], of payload] by (simp only:)
qed

lemma DecodePacked_Encode_p:
  assumes lg: "log2_ok lg" and ok: "packed_ok p" and hg: "header_geometry lg (p_geom p)"
    and z: "zlib_ok deflate inflate" and e: "Encode_p deflate p = Inr enc" and len: "int (length enc) \<le> 2147483647"
  shows "\<exists>q. DecodePacked lg inflate enc = Inr q \<and> packed_ok q \<and> p_idx q = p_idx p \<and> slots q = slots p \<and>
    p_totalCount q = p_totalCount p \<and>
    p_geom q = (cleared (p_geom p))\<lparr>conversionRatio := getIntegerToDoubleValueConversionRatio (p_geom p)\<rparr>"
proof -
  have wf: "packed_wf p" and g: "geom_ok (p_geom p)" using ok by (auto simp: packed_ok_def packed_wf_def)
  let ?cs = "take (counts_limit (dense_of p)) (counts (dense_of p))" and ?r = "getIntegerToDoubleValueConversionRatio (p_geom p)"
  define payload where "payload = fill_buffer ?cs"
  define hd_bytes where "hd_bytes = be_bytes 4 encodingCookie @ be_bytes 4 (i32 (int (length payload))) @
      be_bytes 4 0 @ be_bytes 4 (i32 (significantFigures (p_geom p))) @
      be_bytes 8 (lowestDiscernibleValue (p_geom p)) @ be_bytes 8 (highestTrackableValue (p_geom p)) @ be_bytes 8 (uint ?r)"
  define zs where "zs = deflate (hd_bytes @ payload)"
  have enc: "enc = EncodeToString (be_bytes 4 compressedEncodingCookie @ be_bytes 4 (i32 (int (length zs))) @ zs)"
    using e by (simp add: Encode_p_def Let_def be_bytes_i32 fillBufferFromSparse_eq [OF wf] zs_def hd_bytes_def payload_def)
  have "8 + length zs \<le> length enc" unfolding enc by (rule order_trans [OF _ length_EncodeToString]) simp
  with len have env: "decode_envelope enc = Inr zs" unfolding enc by (intro envelope_roundtrip) simp
  note L = counts_limit [OF dense_of_pos [OF wf]]
  have n: "int (length (counts (dense_of p))) = countsLen (p_geom p)" using countsLen_bound [OF g] by (simp add: nth_dense_of)
  have pl: "int (length payload) \<le> 9 * countsLen (p_geom p)"
    using length_fill_buffer [of ?cs] L(1) n by (simp add: payload_def)
  have iz: "inflate zs = Some (hd_bytes @ payload, Eof)" using z by (simp add: zlib_ok_def zs_def)
  note ds = decode_stream_roundtrip [where inflate = inflate and z = zs, OF lg hg iz pl hd_bytes_def]
  let ?g = "(cleared (p_geom p))\<lparr>conversionRatio := ?r\<rparr>"
  let ?p = "\<lparr>p_geom = ?g, p_idx = [], p_cnt = [], p_width = 1, p_size = 0, p_totalCount = 0, lastIndex = 0, lastPos = 0\<rparr>"
  have gg: "geom_ok ?g" "countsLen ?g = countsLen (p_geom p)" using g by (simp_all add: cleared_def)
  have cs: "\<forall>c \<in> set ?cs. 0 \<le> c \<and> c \<le> MaxInt64"
    using count_at_bounds(1) [OF wf] count_at_le [OF wf] by (auto simp: dense_of_def dest!: in_set_takeD)
  from sparse_fill_roundtrip [OF fresh_fill_ok(1) [OF gg(1)] cs] L(1) n gg(2) obtain q where
    q: "sparse_fill payload 0 0 ?p = Inr q" "packed_ok q" "p_geom q = ?g" "count_at q = written ?p 0 ?cs"
    by (auto simp: payload_def)
  have "written ?p 0 ?cs k = count_at p k" for k
  proof (cases "0 \<le> k \<and> k < countsLen (p_geom p)")
    case True
    then have "counts (dense_of p) ! nat k = count_at p k" "nat k < length (counts (dense_of p))"
      using n by (simp_all add: nth_dense_of)
    with True L(1) L(2) [of "nat k"] show ?thesis by (auto simp: written_def fresh_fill_ok(3) [OF gg(1)] nat_less_iff)
  next
    case False
    then show ?thesis using count_at_outside [OF wf, of k] L(1) n by (auto simp: written_def fresh_fill_ok(3) [OF gg(1)])
  qed
  then have "count_at q = count_at p" using q(4) by auto
  with packed_ext [of q p] q(2) wf have "p_idx q = p_idx p" "slots q = slots p" by (auto simp: packed_ok_def)
  moreover have "DecodePacked lg inflate enc = Inr q"
    by (simp add: DecodePacked_eq [OF len] env decodePackedCompressed_def ds fillSparseFromPayload_def q(1))
  ultimately show ?thesis using q(2,3) ok by (auto simp: packed_ok_def)
qed

section \<open>Properties\<close>

text \<open>A decoded histogram whose counts exceed the total it can report.\<close>

definition sample_saturated :: packed where
  "sample_saturated = \<lparr>p_geom = sample_geometry, p_idx = [5, 51],
     p_cnt = le_bytes 8 MaxInt64 @ le_bytes 8 9, p_width = 8, p_size = 2,
     p_totalCount = MaxInt64, lastIndex = 0, lastPos = 0\<rparr>"

lemma sample_saturated_ok: "packed_ok sample_saturated" "slots sample_saturated = [MaxInt64, 9]"
proof -
  show s: "slots sample_saturated = [MaxInt64, 9]" by code_simp
  moreover have "p_cnt sample_saturated = pack (slot_bytes (p_width sample_saturated)) [MaxInt64, 9]" by code_simp
  ultimately show "packed_ok sample_saturated"
    unfolding packed_ok_def packed_wf_def holds_def s
    by (simp add: sample_saturated_def sample_geometry_ok is_width_def packedWidthMax_def) (simp add: sample_geometry_def)
qed

lemma sample_header: "header_geometry floor_log2 sample_geometry"
  using newGeometry_cases [OF log2_ok_floor_log2, of 1 100 1 1 1] sample_geometry_new
  by (simp add: clampGeometryArgs_def header_geometry_def cleared_def) (simp add: sample_geometry_def)

lemma Encode_p_total:
  assumes "packed_wf p"
  obtains bs where "length bs \<le> 40 + 9 * nat (countsLen (p_geom p))"
    "Encode_p deflate p = Inr (EncodeToString (be_bytes 4 compressedEncodingCookie @ be_bytes 4 (int (length (deflate bs))) @ deflate bs))"
proof
  let ?p = "fill_buffer (take (counts_limit (dense_of p)) (counts (dense_of p)))"
  let ?bs = "be_bytes 4 encodingCookie @ be_bytes 4 (int (length ?p)) @
      be_bytes 4 0 @ be_bytes 4 (i32 (significantFigures (p_geom p))) @
      be_bytes 8 (lowestDiscernibleValue (p_geom p)) @ be_bytes 8 (highestTrackableValue (p_geom p)) @
      be_bytes 8 (uint (getIntegerToDoubleValueConversionRatio (p_geom p))) @ ?p"
  show "length ?bs \<le> 40 + 9 * nat (countsLen (p_geom p))"
    using length_fill_buffer [of "take (counts_limit (dense_of p)) (counts (dense_of p))"]
      counts_limit(1) [OF dense_of_pos [OF assms]] by (simp add: nth_dense_of)
  show "Encode_p deflate p = Inr (EncodeToString (be_bytes 4 compressedEncodingCookie @
      be_bytes 4 (int (length (deflate ?bs))) @ deflate ?bs))"
    by (simp add: Encode_p_def Let_def fillBufferFromSparse_eq [OF assms])
qed

text \<open>C20: The sparse encoder, which streams the payload from the populated buckets with a cursor,
  writes byte for byte the text of the dense encoder on the histogram it stands for, whatever the
  compressor.\<close>

theorem packed_encode_parity:
  assumes "packed_ok p" "sum_list (slots p) \<le> MaxInt64"
  shows "Encode_p deflate p = Encode deflate (dense_of p) V2CompressedEncodingCookieBase"
  by (rule Encode_p_eq [OF assms])

theorem packed_encode_parity_witness:
  "Encode_p (\<lambda>bs. bs) sample_packed = Encode (\<lambda>bs. bs) (dense_of sample_packed) V2CompressedEncodingCookieBase"
  by (rule packed_encode_parity) (simp_all add: sample_packed_ok)

text \<open>C21: The sparse decoder agrees with the dense decoder on every input (of a size whose length
  both report alike). It returns the same error, or the sparse form of the same histogram; only
  where the dense decoder refuses counts that sum past the \<open>int64\<close> range does it go on, and then
  it ends with the counts kept and the total saturated, or with an error found later.\<close>

theorem DecodePacked_parity:
  assumes "log2_ok lg" "int (length enc) \<le> 2147483647"
  shows "case DecodePacked lg inflate enc of
           Inl e \<Rightarrow> clean e \<and> (Decode lg inflate enc = Inl e \<or> (\<exists>i. Decode lg inflate enc = Inl (PayloadSumOverflow i)))
         | Inr q \<Rightarrow> packed_ok q \<and>
             (if sum_list (slots q) \<le> MaxInt64 then Decode lg inflate enc = Inr (dense_of q)
              else p_totalCount q = MaxInt64 \<and> (\<exists>i. Decode lg inflate enc = Inl (PayloadSumOverflow i)))"
proof (cases "decode_envelope enc")
  case (Inl e)
  then show ?thesis using decode_envelope_clean [OF assms(2)] by (simp add: DecodePacked_eq [OF assms(2)] Decode_def)
next
  case (Inr z)
  then have "DecodePacked lg inflate enc = decodePackedCompressed lg inflate z" "Decode lg inflate enc = decodeCompressedFormat lg inflate z"
    by (simp_all add: DecodePacked_eq [OF assms(2)] Decode_def)
  with decodePacked_parity [OF assms(1), of inflate z] show ?thesis by (auto simp: packed_ok_def)
qed

text \<open>C22: Writing and reading a sparse histogram gives back its buckets, counts, total and
  geometry, also when the total is saturated; the text is always produced.\<close>

theorem packed_roundtrip:
  assumes "log2_ok lg" "packed_ok p" "header_geometry lg (p_geom p)" "zlib_ok deflate inflate"
  shows "\<exists>enc. Encode_p deflate p = Inr enc \<and>
           (int (length enc) \<le> 2147483647 \<longrightarrow>
            (\<exists>q. DecodePacked lg inflate enc = Inr q \<and> packed_ok q \<and> p_idx q = p_idx p \<and> slots q = slots p \<and>
              p_totalCount q = p_totalCount p \<and>
              p_geom q = (cleared (p_geom p))\<lparr>conversionRatio := getIntegerToDoubleValueConversionRatio (p_geom p)\<rparr>))"
proof -
  obtain enc where e: "Encode_p deflate p = Inr enc" by (simp add: Encode_p_def Let_def)
  with DecodePacked_Encode_p [OF assms e] show ?thesis by blast
qed

theorem packed_roundtrip_witness:
  "\<exists>enc q. Encode_p (\<lambda>bs. bs) sample_saturated = Inr enc \<and> DecodePacked floor_log2 (\<lambda>bs. Some (bs, Eof)) enc = Inr q \<and>
     slots q = [MaxInt64, 9] \<and> p_totalCount q = MaxInt64"
proof -
  have g: "p_geom sample_saturated = sample_geometry" and l: "countsLen sample_geometry = 64"
    and t: "p_totalCount sample_saturated = MaxInt64"
    by (simp_all add: sample_saturated_def sample_geometry_def)
  have z: "zlib_ok (\<lambda>bs. bs) (\<lambda>bs. Some (bs, Eof))" by (simp add: zlib_ok_def)
  have wf: "packed_wf sample_saturated" using sample_saturated_ok(1) by (simp add: packed_ok_def)
  obtain bs where b: "length bs \<le> 40 + 9 * nat (countsLen (p_geom sample_saturated))"
    "Encode_p (\<lambda>bs. bs) sample_saturated = Inr (EncodeToString (be_bytes 4 compressedEncodingCookie @ be_bytes 4 (int (length bs)) @ bs))"
    by (rule Encode_p_total [OF wf])
  have "length (EncodeToString (be_bytes 4 compressedEncodingCookie @ be_bytes 4 (int (length bs)) @ bs)) \<le> 4 * (8 + length bs)"
    by (rule order_trans [OF length_EncodeToString_le]) simp
  with b packed_roundtrip [OF log2_ok_floor_log2 sample_saturated_ok(1) sample_header [folded g] z] show ?thesis
    by (auto simp: g l t sample_saturated_ok(2))
qed

theorem DecodePacked_parity_witness:
  "DecodePacked floor_log2 (\<lambda>bs. None) [65, 65, 65, 65] = Inl (TooShort 3) \<and>
   Decode floor_log2 (\<lambda>bs. None) [65, 65, 65, 65] = Inl (TooShort 3)"
proof -
  have "DecodePacked floor_log2 (\<lambda>bs. None) [65, 65, 65, 65] = Inl (TooShort 3)" by code_simp
  moreover have "\<nexists>i. Decode floor_log2 (\<lambda>bs. None) [65, 65, 65, 65] = Inl (PayloadSumOverflow i)"
    by (auto simp: Decode_def decode_envelope_def decodeCompressedFormat_def decode_stream_def DecodeString_def Let_def
      split: option.splits if_splits sum.splits)
  ultimately show ?thesis
    using DecodePacked_parity [OF log2_ok_floor_log2, of "[65, 65, 65, 65]" "\<lambda>bs. None"] by auto
qed

end
