(* ===== verification/Window.thy ===== *)
theory Window
  imports Hist_Spec
begin

text \<open>
  The windowed histogram of \<open>window.go\<close>: a ring of \<open>n\<close> dense histograms, one of which receives
  new values, and a histogram into which the ring is merged.

  The pointer \<open>Current\<close> always points into the ring, so it is the position of its target;
  \<open>record_current\<close> is a caller's \<open>w.Current.RecordValues(v, n)\<close>, which changes that element of
  the ring.
\<close>

section \<open>Definitions\<close>

record windowed =
  w_idx :: int
  w_h :: "histogram list"
  w_m :: histogram
  Current :: nat

definition Rotate :: "windowed \<Rightarrow> error + windowed" where
  "Rotate w =
     (let idx = i64 (w_idx w + 1); len = int (length (w_h w))
      in if len = 0 then Inl (Panic DivideByZero)
         else let k = go_rem idx len
              in if k < 0 then Inl (Panic (IndexOutOfRange k len))
                 else Inr (w\<lparr>w_idx := idx, Current := nat k, w_h := (w_h w)[nat k := Reset (w_h w ! nat k)]\<rparr>))"

definition NewWindowed :: "(int \<Rightarrow> int) \<Rightarrow> int \<Rightarrow> int \<Rightarrow> int \<Rightarrow> int \<Rightarrow> error + windowed" where
  "NewWindowed lg n minValue maxValue sigfigs =
     (if n < 0 then Inl (Panic (NegativeLength n))
      else case New lg minValue maxValue sigfigs of
             Inl e \<Rightarrow> Inl e
           | Inr h \<Rightarrow> Rotate \<lparr>w_idx = - 1, w_h = replicate (nat n) h, w_m = h, Current = 0\<rparr>)"

fun merge_ring :: "histogram \<Rightarrow> histogram list \<Rightarrow> error + histogram" where
  "merge_ring m [] = Inr m"
| "merge_ring m (h # hs) = (case Merge m h of Inl e \<Rightarrow> Inl e | Inr (dropped, m') \<Rightarrow> merge_ring m' hs)"

definition Merge_w :: "windowed \<Rightarrow> error + histogram \<times> windowed" where
  "Merge_w w =
     (case merge_ring (Reset (w_m w)) (w_h w) of
        Inl e \<Rightarrow> Inl e
      | Inr m \<Rightarrow> Inr (m, w\<lparr>w_m := m\<rparr>))"

definition record_current :: "windowed \<Rightarrow> int \<Rightarrow> int \<Rightarrow> error option \<times> windowed" where
  "record_current w v n =
     (case RecordValues (w_h w ! Current w) v n of
        (e, h) \<Rightarrow> (e, w\<lparr>w_h := (w_h w)[Current w := h]\<rparr>))"

section \<open>The runs of a window\<close>

text \<open>A caller makes a window, records, rotates and merges in any order. The second component is
  the specification: the values recorded in each period between two rotations, latest first.\<close>

inductive window_run :: "(int \<Rightarrow> int) \<Rightarrow> int \<Rightarrow> int \<Rightarrow> int \<Rightarrow> int \<Rightarrow> windowed \<Rightarrow> int multiset list \<Rightarrow> bool"
  for lg n lo hi d where
  started: "NewWindowed lg n lo hi d = Inr w \<Longrightarrow> window_run lg n lo hi d w [{#}]"
| recorded: "window_run lg n lo hi d w (b # bs) \<Longrightarrow> v \<le> MaxInt64 \<Longrightarrow> record_current w v k = (None, w') \<Longrightarrow>
    window_run lg n lo hi d w' ((b + replicate_mset (nat k) v) # bs)"
| refused: "window_run lg n lo hi d w bs \<Longrightarrow> v \<le> MaxInt64 \<Longrightarrow> record_current w v k = (Some e, w') \<Longrightarrow>
    window_run lg n lo hi d w' bs"
| rotated: "window_run lg n lo hi d w bs \<Longrightarrow> int (length bs) \<le> MaxInt64 \<Longrightarrow> Rotate w = Inr w' \<Longrightarrow>
    window_run lg n lo hi d w' ({#} # bs)"
| merged: "window_run lg n lo hi d w bs \<Longrightarrow> Merge_w w = Inr (m, w') \<Longrightarrow> window_run lg n lo hi d w' bs"

text \<open>The slot that holds period \<open>j\<close>, counted from the latest, when \<open>l\<close> periods have begun.\<close>

definition slot_of :: "nat \<Rightarrow> nat \<Rightarrow> nat \<Rightarrow> nat" where
  "slot_of n l j = (l + n - 1 - j) mod n"

definition window_ok :: "windowed \<Rightarrow> int multiset list \<Rightarrow> bool" where
  "window_ok w bs \<longleftrightarrow>
     w_h w \<noteq> [] \<and> bs \<noteq> [] \<and> w_idx w = int (length bs) - 1 \<and>
     Current w = (length bs - 1) mod length (w_h w) \<and> hist_ok (w_m w) \<and>
     (\<forall>h \<in> set (w_h w). same_geom (w_m w) h) \<and>
     (\<forall>j < length (w_h w). represents (w_h w ! slot_of (length (w_h w)) (length bs) j)
        ((bs @ replicate (length (w_h w)) {#}) ! j))"

lemma slot_of_less: "0 < n \<Longrightarrow> slot_of n l j < n"
  by (simp add: slot_of_def)

lemma slot_of_inj:
  assumes "i < n" "j < n" "0 < l" "slot_of n l i = slot_of n l j"
  shows "i = j"
proof -
  have e: "(l + n - 1 - i) mod n = (l + n - 1 - j) mod n" using assms(4) by (simp add: slot_of_def)
  show ?thesis
  proof (rule ccontr)
    assume "i \<noteq> j"
    then consider "i < j" | "j < i" by linarith
    then show False
    proof cases
      case 1
      have "n dvd (l + n - 1 - i) - (l + n - 1 - j)" using e mod_eq_dvd_iff_nat [of "l + n - 1 - j" "l + n - 1 - i" n] 1 by simp
      moreover have "(l + n - 1 - i) - (l + n - 1 - j) = j - i" using 1 assms by simp
      ultimately show False using 1 assms by (auto dest: dvd_imp_le)
    next
      case 2
      have "n dvd (l + n - 1 - j) - (l + n - 1 - i)" using e mod_eq_dvd_iff_nat [of "l + n - 1 - i" "l + n - 1 - j" n] 2 by simp
      moreover have "(l + n - 1 - j) - (l + n - 1 - i) = i - j" using 2 assms by simp
      ultimately show False using 2 assms by (auto dest: dvd_imp_le)
    qed
  qed
qed

lemma slot_of_0: "0 < l \<Longrightarrow> 0 < n \<Longrightarrow> slot_of n l 0 = (l - 1) mod n"
proof -
  assume "0 < l" "0 < n"
  then have "l + n - 1 - 0 = (l - 1) + n" by simp
  then show ?thesis by (simp only: slot_of_def mod_add_self2)
qed

lemma slot_of_Suc: "Suc j < n \<Longrightarrow> slot_of n (Suc l) (Suc j) = slot_of n l j"
  by (simp add: slot_of_def)

lemma slot_of_range:
  assumes "0 < n" "0 < l"
  shows "bij_betw (slot_of n l) {..<n} {..<n}"
proof -
  have inj: "inj_on (slot_of n l) {..<n}" using slot_of_inj [of _ n _ l] assms by (auto intro!: inj_onI)
  moreover have "slot_of n l ` {..<n} \<subseteq> {..<n}" using slot_of_less assms by auto
  ultimately show ?thesis by (simp add: bij_betw_def card_image card_subset_eq)
qed

section \<open>Every run keeps the ring in step\<close>

lemma same_geom_Reset: "same_geom (Reset h) h"
  by (simp add: same_geom_def Reset_def)

lemma same_geom_trans: "same_geom a b \<Longrightarrow> same_geom b c \<Longrightarrow> same_geom a c"
  by (simp add: same_geom_def)

lemma same_geom_sym: "same_geom a b \<Longrightarrow> same_geom b a"
  by (simp add: same_geom_def)

lemma window_ok_slot:
  assumes "window_ok w bs"
  shows "represents (w_h w ! Current w) (hd bs)" "Current w < length (w_h w)" "Current w = slot_of (length (w_h w)) (length bs) 0"
proof -
  have n: "0 < length (w_h w)" "0 < length bs" using assms by (auto simp: window_ok_def)
  show c: "Current w = slot_of (length (w_h w)) (length bs) 0"
    using assms n by (simp add: window_ok_def slot_of_0)
  then show "Current w < length (w_h w)" using slot_of_less [OF n(1)] by simp
  have "(bs @ replicate (length (w_h w)) {#}) ! 0 = hd bs" using n(2) by (cases bs) simp_all
  then show "represents (w_h w ! Current w) (hd bs)" using assms n(1) c unfolding window_ok_def by metis
qed

lemma window_okD:
  "window_ok w bs \<Longrightarrow> j < length (w_h w) \<Longrightarrow>
   represents (w_h w ! slot_of (length (w_h w)) (length bs) j) ((bs @ replicate (length (w_h w)) {#}) ! j)"
  by (simp add: window_ok_def)

lemma window_ok_hist: "window_ok w bs \<Longrightarrow> h \<in> set (w_h w) \<Longrightarrow> hist_ok h"
proof -
  assume w: "window_ok w bs" and h: "h \<in> set (w_h w)"
  let ?n = "length (w_h w)" and ?l = "length bs"
  have n: "0 < ?n" "0 < ?l" using w by (auto simp: window_ok_def)
  from h obtain i where i: "i < ?n" "w_h w ! i = h" by (auto simp: in_set_conv_nth)
  from slot_of_range [OF n] i(1) obtain j where "j < ?n" "slot_of ?n ?l j = i"
    unfolding bij_betw_def by (metis (no_types, lifting) imageE lessThan_iff)
  with w i show "hist_ok h" unfolding window_ok_def by (metis represents_ok)
qed

text \<open>Replacing the current histogram changes the latest period only.\<close>

lemma window_ok_update:
  assumes w: "window_ok w (b # bs)" and r: "represents h b'" and s: "same_geom (w_m w) h"
  shows "window_ok (w\<lparr>w_h := (w_h w)[Current w := h]\<rparr>) (b' # bs)"
proof -
  let ?n = "length (w_h w)" and ?l = "Suc (length bs)"
  note S = window_ok_slot [OF w]
  have "represents ((w_h w)[Current w := h] ! slot_of ?n ?l j) (((b' # bs) @ replicate ?n {#}) ! j)" if j: "j < ?n" for j
  proof (cases j)
    case 0
    then show ?thesis using S r by simp
  next
    case (Suc i)
    then have "slot_of ?n ?l j \<noteq> Current w" using S(2,3) slot_of_inj [OF j, of 0 ?l] Suc by fastforce
    then show ?thesis using window_okD [OF w j] Suc by simp
  qed
  moreover have "\<forall>x \<in> set ((w_h w)[Current w := h]). same_geom (w_m w) x"
    using w s set_update_subset_insert [of "w_h w" "Current w" h] by (fastforce simp: window_ok_def)
  ultimately show ?thesis using w by (simp add: window_ok_def)
qed

lemma record_current_ok:
  assumes w: "window_ok w (b # bs)" and v: "v \<le> MaxInt64"
  shows "record_current w v k = (None, w') \<Longrightarrow> window_ok w' ((b + replicate_mset (nat k) v) # bs)"
    and "record_current w v k = (Some e, w') \<Longrightarrow> w' = w"
proof -
  note S = window_ok_slot [OF w, unfolded list.sel]
  have h: "hist_ok (w_h w ! Current w)" using S(1) by (rule represents_ok)
  have g: "same_geom (w_m w) (w_h w ! Current w)" using w S(2) by (simp add: window_ok_def)
  show "window_ok w' ((b + replicate_mset (nat k) v) # bs)" if rc: "record_current w v k = (None, w')"
  proof -
    obtain h' where h': "RecordValues (w_h w ! Current w) v k = (None, h')" "w' = w\<lparr>w_h := (w_h w)[Current w := h']\<rparr>"
      using rc by (cases "RecordValues (w_h w ! Current w) v k") (auto simp: record_current_def)
    have "config h' = config (w_h w ! Current w)"
      using h'(1) by (auto simp: RecordValues_cases [OF h v] split: if_splits)
    then have "same_geom (w_m w) h'" using same_geom_trans [OF g] same_geom_sym config_same_geom by blast
    then show ?thesis unfolding h'(2) by (intro window_ok_update [OF w represents_record(1) [OF S(1) v h'(1)]])
  qed
  show "w' = w" if "record_current w v k = (Some e, w')"
    using that by (auto simp: record_current_def RecordValues_cases [OF h v] split: if_splits)
qed

lemma Rotate_ok:
  assumes w: "window_ok w bs" and l: "int (length bs) \<le> MaxInt64"
  obtains w' where "Rotate w = Inr w'" "window_ok w' ({#} # bs)" "length (w_h w') = length (w_h w)"
proof -
  let ?n = "length (w_h w)" and ?l = "length bs"
  have n: "0 < ?n" and i: "w_idx w = int ?l - 1" using w by (auto simp: window_ok_def)
  have "i64 (w_idx w + 1) = int ?l" using l i by (simp add: i64_id)
  moreover have "go_rem (int ?l) (int ?n) = int (?l mod ?n)" using n by (simp add: zmod_int)
  ultimately have R: "Rotate w = Inr (w\<lparr>w_idx := int ?l, Current := ?l mod ?n,
      w_h := (w_h w)[?l mod ?n := Reset (w_h w ! (?l mod ?n))]\<rparr>)" (is "_ = Inr ?w")
    using n by (simp add: Rotate_def)
  let ?r = "Reset (w_h w ! (?l mod ?n))"
  have mem: "w_h w ! (?l mod ?n) \<in> set (w_h w)" using n by simp
  have r: "represents ?r {#}" using window_ok_hist [OF w mem] by (rule Reset_represents)
  have g: "same_geom (w_m w) ?r" using w mem same_geom_trans same_geom_sym [OF same_geom_Reset] unfolding window_ok_def by blast
  have "represents ((w_h w)[?l mod ?n := ?r] ! slot_of ?n (Suc ?l) j) ((({#} # bs) @ replicate ?n {#}) ! j)" if j: "j < ?n" for j
  proof (cases j)
    case 0
    then show ?thesis using r n slot_of_0 [of "Suc ?l" ?n] by simp
  next
    case (Suc i)
    then have "slot_of ?n (Suc ?l) j \<noteq> ?l mod ?n"
      using slot_of_0 [OF _ n, of "Suc ?l"] slot_of_inj [OF j n, of "Suc ?l"] by fastforce
    then show ?thesis using window_okD [OF w, of i] j Suc slot_of_Suc [of i ?n ?l] by simp
  qed
  moreover have "\<forall>x \<in> set ((w_h w)[?l mod ?n := ?r]). same_geom (w_m w) x"
    using w g set_update_subset_insert [of "w_h w" "?l mod ?n" ?r] by (fastforce simp: window_ok_def)
  ultimately have "window_ok ?w ({#} # bs)" using w n by (simp add: window_ok_def)
  from that [OF R this] show thesis by simp
qed

lemma NewWindowed_cases:
  assumes lg: "log2_ok lg" and lo: "lo \<le> MaxInt64" and hi: "hi \<le> MaxInt64" and c: "clampGeometryArgs lo d = (lo', d')"
  shows "n < 0 \<Longrightarrow> NewWindowed lg n lo hi d = Inl (Panic (NegativeLength n))"
    and "0 \<le> n \<Longrightarrow> New lg lo hi d = Inl e \<Longrightarrow> NewWindowed lg n lo hi d = Inl e"
    and "n = 0 \<Longrightarrow> New lg lo hi d = Inr h \<Longrightarrow> NewWindowed lg n lo hi d = Inl (Panic DivideByZero)"
    and "0 < n \<Longrightarrow> New lg lo hi d = Inr h \<Longrightarrow>
      \<exists>w. NewWindowed lg n lo hi d = Inr w \<and> window_ok w [{#}] \<and> length (w_h w) = nat n \<and> same_geom (w_m w) h"
proof -
  show "n < 0 \<Longrightarrow> NewWindowed lg n lo hi d = Inl (Panic (NegativeLength n))"
    "0 \<le> n \<Longrightarrow> New lg lo hi d = Inl e \<Longrightarrow> NewWindowed lg n lo hi d = Inl e"
    "n = 0 \<Longrightarrow> New lg lo hi d = Inr h \<Longrightarrow> NewWindowed lg n lo hi d = Inl (Panic DivideByZero)"
    by (simp_all add: NewWindowed_def Rotate_def Let_def)
  assume n: "0 < n" and h: "New lg lo hi d = Inr h"
  let ?hs = "(replicate (nat n) h)[0 := Reset h]"
  let ?w = "\<lparr>w_idx = 0, w_h = ?hs, w_m = h, Current = 0\<rparr>"
  have r: "represents h {#}" using New_cases [OF assms] h by auto
  have ok: "hist_ok h" using r by (rule represents_ok)
  have "NewWindowed lg n lo hi d = Inr ?w"
    using n h by (simp add: NewWindowed_def Rotate_def Let_def i64_def nth_replicate)
  moreover have S: "\<forall>x \<in> set ?hs. represents x {#} \<and> same_geom h x"
    using r Reset_represents [OF ok] same_geom_sym [OF same_geom_Reset] set_update_subset_insert [of "replicate (nat n) h" 0 "Reset h"]
    by (fastforce simp: same_geom_def)
  moreover have "represents (?hs ! slot_of (nat n) 1 j) (([{#}] @ replicate (nat n) {#}) ! j)" if "j < nat n" for j
  proof -
    have "([{#}] @ replicate (nat n) {#}) ! j = ({#} :: int multiset)" using that by (cases j) simp_all
    moreover have "?hs ! slot_of (nat n) 1 j \<in> set ?hs" using n slot_of_less [of "nat n" 1 j] by (intro nth_mem) simp
    ultimately show ?thesis using S by simp
  qed
  ultimately show "\<exists>w. NewWindowed lg n lo hi d = Inr w \<and> window_ok w [{#}] \<and> length (w_h w) = nat n \<and> same_geom (w_m w) h"
    using n ok by (intro exI [of _ ?w]) (simp add: window_ok_def same_geom_def)
qed

section \<open>Merging the ring\<close>

lemma merge_ring_spec:
  assumes "represents m M" "list_all2 represents hs bs" "\<forall>h \<in> set hs. same_geom m h"
    "size M + size (sum_list bs) \<le> 9223372036854775807"
  shows "\<exists>m'. merge_ring m hs = Inr m' \<and> represents m' (M + sum_list bs) \<and> config m' = config m"
  using assms
proof (induction hs arbitrary: m M bs)
  case Nil
  then show ?case by simp
next
  case (Cons h hs)
  then obtain b bs' where b: "bs = b # bs'" "represents h b" "list_all2 represents hs bs'" by (auto simp: list_all2_Cons1)
  have "totalCount m + totalCount h \<le> MaxInt64"
    using represents_total [OF Cons.prems(1)] represents_total [OF b(2)] Cons.prems(4) b(1) by simp
  then obtain m' where m': "Merge m h = Inr (0, m')" "represents m' (M + b)" "config m' = config m"
    using Merge_same_geom [OF Cons.prems(1) b(2)] Cons.prems(3) by auto
  have "same_geom m' x" if "x \<in> set hs" for x
    using config_same_geom [OF m'(3)] same_geom_trans [of m' m x] Cons.prems(3) that by simp
  with Cons.IH [OF m'(2) b(3)] m' Cons.prems(4) b(1) show ?case by (simp add: add.assoc)
qed

lemma sum_ring:
  fixes xs :: "'a multiset list"
  assumes "0 < n" "0 < l" "length xs = n" "\<And>j. j < n \<Longrightarrow> xs ! slot_of n l j = ys ! j"
  shows "sum_list xs = (\<Sum>j < n. ys ! j)"
proof -
  have "sum_list xs = (\<Sum>i < n. xs ! i)" using assms(3) by (simp add: sum_list_sum_nth atLeast0LessThan)
  also have "\<dots> = (\<Sum>j < n. xs ! slot_of n l j)" using sum.reindex_bij_betw [OF slot_of_range [OF assms(1,2)], of "(!) xs"] by simp
  finally show ?thesis using assms(4) by simp
qed

lemma sum_padded:
  fixes bs :: "'a multiset list"
  shows "(\<Sum>j < n. (bs @ replicate n {#}) ! j) = sum_list (take n bs)"
proof -
  have "sum_list (take n (bs @ replicate n {#})) = (\<Sum>j < n. (bs @ replicate n {#}) ! j)"
    by (simp add: sum_list_sum_nth atLeast0LessThan del: take_append)
  moreover have "sum_list (replicate k ({#} :: 'a multiset)) = {#}" for k by (induction k) simp_all
  ultimately show ?thesis by simp
qed

lemma Merge_w_ok:
  assumes w: "window_ok w bs" and fit: "size (sum_list (take (length (w_h w)) bs)) \<le> 9223372036854775807"
  obtains m where "Merge_w w = Inr (m, w\<lparr>w_m := m\<rparr>)" "represents m (sum_list (take (length (w_h w)) bs))"
    "window_ok (w\<lparr>w_m := m\<rparr>) bs" "same_geom m (w_m w)"
proof -
  let ?n = "length (w_h w)" and ?l = "length bs"
  have n: "0 < ?n" "0 < ?l" using w by (auto simp: window_ok_def)
  define inv where "inv = the_inv_into {..<?n} (slot_of ?n ?l)"
  define cs where "cs = map (\<lambda>i. (bs @ replicate ?n {#}) ! inv i) [0..<?n]"
  note B = slot_of_range [OF n]
  have inv: "inv (slot_of ?n ?l j) = j" if "j < ?n" for j
    using that B by (simp add: inv_def bij_betw_def the_inv_into_f_f)
  have cs: "cs ! slot_of ?n ?l j = (bs @ replicate ?n {#}) ! j" if "j < ?n" for j
    using that inv slot_of_less [OF n(1)] by (simp add: cs_def)
  have "represents (w_h w ! i) (cs ! i)" if i: "i < ?n" for i
  proof -
    from B i obtain j where j: "j < ?n" "slot_of ?n ?l j = i" unfolding bij_betw_def by (metis (no_types, lifting) imageE lessThan_iff)
    with w cs show ?thesis unfolding window_ok_def by metis
  qed
  then have "list_all2 represents (w_h w) cs" by (simp add: list_all2_conv_all_nth cs_def)
  moreover have sum: "sum_list cs = sum_list (take ?n bs)"
    using sum_ring [OF n, of cs "bs @ replicate ?n {#}"] cs by (simp add: cs_def sum_padded)
  moreover have g: "\<forall>h \<in> set (w_h w). same_geom (Reset (w_m w)) h"
    using w same_geom_trans [OF same_geom_Reset] by (auto simp: window_ok_def)
  moreover have "represents (Reset (w_m w)) {#}" using w by (intro Reset_represents) (simp add: window_ok_def)
  ultimately obtain m where m: "merge_ring (Reset (w_m w)) (w_h w) = Inr m" "represents m (sum_list (take ?n bs))"
    "config m = config (Reset (w_m w))" using merge_ring_spec [of "Reset (w_m w)" "{#}" "w_h w" cs] fit by auto
  have s: "same_geom m (w_m w)" using config_same_geom [OF m(3)] same_geom_Reset same_geom_trans by blast
  have "window_ok (w\<lparr>w_m := m\<rparr>) bs"
    using w s same_geom_trans represents_ok [OF m(2)] by (fastforce simp: window_ok_def)
  with m s show thesis by (intro that) (simp_all add: Merge_w_def)
qed

text \<open>Also when counts have to be dropped the merge ends with a histogram.\<close>

lemma merge_ring_total:
  assumes "represents m M" "\<forall>h \<in> set hs. hist_ok h"
  shows "\<exists>m' M'. merge_ring m hs = Inr m' \<and> represents m' M' \<and> config m' = config m"
  using assms
proof (induction hs arbitrary: m M)
  case (Cons h hs)
  then obtain dr m' M' where "Merge m h = Inr (dr, m')" "represents m' M'" "config m' = config m"
    by (metis Merge_spec list.set_intros(1))
  with Cons.IH [of m' M'] Cons.prems(2) show ?case by simp
qed auto

lemma Merge_w_total:
  assumes w: "window_ok w bs"
  obtains m where "Merge_w w = Inr (m, w\<lparr>w_m := m\<rparr>)" "window_ok (w\<lparr>w_m := m\<rparr>) bs" "same_geom m (w_m w)"
proof -
  have "represents (Reset (w_m w)) {#}" using w by (intro Reset_represents) (simp add: window_ok_def)
  with merge_ring_total [of "Reset (w_m w)" "{#}" "w_h w"] window_ok_hist [OF w] obtain m M where
    m: "merge_ring (Reset (w_m w)) (w_h w) = Inr m" "represents m M" "config m = config (Reset (w_m w))" by blast
  have s: "same_geom m (w_m w)" using config_same_geom [OF m(3)] same_geom_Reset same_geom_trans by blast
  have "window_ok (w\<lparr>w_m := m\<rparr>) bs"
    using w s same_geom_trans represents_ok [OF m(2)] by (fastforce simp: window_ok_def)
  with m s show thesis by (intro that) (simp_all add: Merge_w_def)
qed

lemma window_run_ok:
  assumes lg: "log2_ok lg" and lo: "lo \<le> MaxInt64" and hi: "hi \<le> MaxInt64"
    and run: "window_run lg n lo hi d w bs"
  shows "window_ok w bs \<and> length (w_h w) = nat n \<and> int (length bs) \<le> MaxInt64 + 1"
  using run
proof (induction rule: window_run.induct)
  case (started w)
  obtain lo' d' where c: "clampGeometryArgs lo d = (lo', d')" by fastforce
  note N = NewWindowed_cases [OF lg lo hi c, of n]
  obtain h where "New lg lo hi d = Inr h" "0 < n"
    using started N(1) N(2) N(3) by (cases "New lg lo hi d"; cases "n < 0"; cases "n = 0") auto
  with N(4) started show ?case by auto
next
  case (recorded w b bs v k w')
  then show ?case using record_current_ok(1) [of w b bs v k w']
    by (auto simp: record_current_def split: prod.splits)
next
  case (refused w bs v k e w')
  then obtain b bs' where "bs = b # bs'" by (cases bs) (auto simp: window_ok_def)
  with refused record_current_ok(2) [of w b bs' v k e w'] show ?case by simp
next
  case (rotated w bs w')
  then show ?case using Rotate_ok [of w bs] by (metis Inr_inject length_Cons of_nat_Suc add.commute add_right_mono)
next
  case (merged w bs m w')
  then show ?case using Merge_w_total [of w bs] by (metis Inr_inject prod.inject windowed.ext_inject windowed.surjective windowed.update_convs(3))
qed

section \<open>Properties\<close>

text \<open>C24: Whatever a caller does with a window of \<open>n\<close> histograms, the merged histogram holds
  exactly the values recorded in the last \<open>n\<close> periods, the current one included, as long as
  their number fits in the total; earlier periods are forgotten, and what a previous merge left
  behind has no influence.\<close>

theorem window_merges_last_periods:
  assumes "log2_ok lg" "lo \<le> MaxInt64" "hi \<le> MaxInt64" "window_run lg n lo hi d w bs"
    "size (sum_list (take (nat n) bs)) \<le> 9223372036854775807"
  shows "\<exists>m. Merge_w w = Inr (m, w\<lparr>w_m := m\<rparr>) \<and> represents m (sum_list (take (nat n) bs)) \<and>
             represents (w_h w ! Current w) (hd bs)"
proof -
  note W = window_run_ok [OF assms(1-4)]
  then have w: "window_ok w bs" and n: "length (w_h w) = nat n" by simp_all
  show ?thesis
    by (rule Merge_w_ok [OF w]) (use assms(5) n window_ok_slot(1) [OF w] in auto)
qed

definition sample_window :: "windowed list" where
  "sample_window =
     (let w0 = projr (NewWindowed floor_log2 2 1 100 1);
          w1 = snd (record_current w0 77 1);
          w2 = projr (Rotate w1);
          w3 = snd (record_current w2 5 1);
          w4 = projr (Rotate w3);
          w5 = snd (record_current w4 6 1)
      in [w0, w1, w2, w3, w4, w5])"

lemma sample_window_run: "window_run floor_log2 2 1 100 1 (sample_window ! 5) [{#6#}, {#5#}, {#77#}]"
proof -
  let ?R = "window_run floor_log2 2 1 100 1"
  have e: "NewWindowed floor_log2 2 1 100 1 = Inr (sample_window ! 0)"
    "record_current (sample_window ! 0) 77 1 = (None, sample_window ! 1)"
    "Rotate (sample_window ! 1) = Inr (sample_window ! 2)"
    "record_current (sample_window ! 2) 5 1 = (None, sample_window ! 3)"
    "Rotate (sample_window ! 3) = Inr (sample_window ! 4)"
    "record_current (sample_window ! 4) 6 1 = (None, sample_window ! 5)" by code_simp+
  have "?R (sample_window ! 0) [{#}]" using e(1) by (rule window_run.started)
  from window_run.recorded [OF this _ e(2)] have "?R (sample_window ! 1) [{#77#}]" by simp
  from window_run.rotated [OF this _ e(3)] have "?R (sample_window ! 2) [{#}, {#77#}]" by simp
  from window_run.recorded [OF this _ e(4)] have "?R (sample_window ! 3) [{#5#}, {#77#}]" by simp
  from window_run.rotated [OF this _ e(5)] have "?R (sample_window ! 4) [{#}, {#5#}, {#77#}]" by simp
  from window_run.recorded [OF this _ e(6)] show ?thesis by simp
qed

theorem window_merges_last_periods_witness:
  "\<exists>m. Merge_w (sample_window ! 5) = Inr (m, (sample_window ! 5)\<lparr>w_m := m\<rparr>) \<and> represents m {#5, 6#}"
  using window_merges_last_periods [OF log2_ok_floor_log2 _ _ sample_window_run] by (auto simp: numeral_2_eq_2)

text \<open>C25: No operation of a window ever fails. The constructor panics only for a negative
  or zero number of histograms, or where \<open>New\<close> panics; in every reachable state, rotating (until the
  64-bit period counter runs out) and merging return, and rotating empties the new current
  histogram.\<close>

theorem window_never_stuck:
  assumes "log2_ok lg" "lo \<le> MaxInt64" "hi \<le> MaxInt64" "window_run lg n lo hi d w bs" "int (length bs) \<le> MaxInt64"
  shows "(\<exists>w'. Rotate w = Inr w' \<and> window_run lg n lo hi d w' ({#} # bs) \<and> represents (w_h w' ! Current w') {#}) \<and>
         (\<exists>m w'. Merge_w w = Inr (m, w') \<and> window_run lg n lo hi d w' bs) \<and>
         (\<forall>k. (\<exists>w'. NewWindowed lg k lo hi d = Inr w') \<longleftrightarrow> 0 < k)"
proof -
  have w: "window_ok w bs" using window_run_ok [OF assms(1-4)] by simp
  obtain lo' d' where c: "clampGeometryArgs lo d = (lo', d')" by fastforce
  note N = NewWindowed_cases [OF assms(1-3) c]
  obtain w' where r: "Rotate w = Inr w'" "window_ok w' ({#} # bs)" by (rule Rotate_ok [OF w assms(5)])
  obtain m where m: "Merge_w w = Inr (m, w\<lparr>w_m := m\<rparr>)" by (rule Merge_w_total [OF w])
  obtain h where h: "New lg lo hi d = Inr h"
  proof (cases "New lg lo hi d")
    case (Inl e)
    have "\<exists>w0. NewWindowed lg n lo hi d = Inr w0" using assms(4) by (induction rule: window_run.induct) auto
    with Inl N(1,2) show thesis by (cases "n < 0") auto
  qed auto
  have "(\<exists>w'. NewWindowed lg k lo hi d = Inr w') \<longleftrightarrow> 0 < k" for k
    using N(1) [of k] N(3) [of k h, OF _ h] N(4) [of k h, OF _ h] by (cases "k < 0"; cases "k = 0") auto
  moreover have "window_run lg n lo hi d w' ({#} # bs)" by (rule window_run.rotated [OF assms(4,5) r(1)])
  moreover have "represents (w_h w' ! Current w') {#}" using window_ok_slot(1) [OF r(2)] by simp
  moreover have "window_run lg n lo hi d (w\<lparr>w_m := m\<rparr>) bs" by (rule window_run.merged [OF assms(4) m])
  ultimately show ?thesis using r(1) m by blast
qed

theorem window_never_stuck_witness:
  "\<exists>w' m. Rotate (sample_window ! 5) = Inr w' \<and> represents (w_h w' ! Current w') {#} \<and>
     Merge_w (sample_window ! 5) = Inr (m, (sample_window ! 5)\<lparr>w_m := m\<rparr>)"
proof -
  from window_never_stuck [OF log2_ok_floor_log2 _ _ sample_window_run] obtain w' m x where
    "Rotate (sample_window ! 5) = Inr w'" "represents (w_h w' ! Current w') {#}" "Merge_w (sample_window ! 5) = Inr (m, x)" by auto
  then show ?thesis by (auto simp: Merge_w_def split: sum.splits)
qed

end
