(* ===== verification/Float64.thy ===== *)
theory Float64
  imports Complex_Main Go_Prelude
begin

text \<open>
  The part of Go's \<open>float64\<close> that the queries use: IEEE 754 binary64 with rounding to nearest,
  ties to even. A value is not a number, an infinity with its sign, or the rational number it
  stands for. The two zeros are one value: what the sources compute depends on the sign of a
  zero only where they divide or print with a scale of the caller that is negative or zero. The language allows \<open>x * y + z\<close> to be computed with one rounding instead of two; \<open>muladd\<close>
  has the choice of the compiler as a parameter.
\<close>

section \<open>Rounding\<close>

text \<open>The exponent of the binade of a positive number.\<close>

definition ilog2 :: "rat \<Rightarrow> int" where
  "ilog2 x =
     (let (n, d) = quotient_of x; k = bits_len n - bits_len d
      in if 2 powi k \<le> x then k else k - 1)"

definition round_even :: "rat \<Rightarrow> int" where
  "round_even y =
     (let f = \<lfloor>y\<rfloor>; r = y - of_int f
      in if r < 1 / 2 then f else if r > 1 / 2 then f + 1 else if even f then f else f + 1)"

definition quantum :: "rat \<Rightarrow> rat" where
  "quantum x = 2 powi (max (ilog2 x) (- 1022) - 52)"

definition round_pos :: "rat \<Rightarrow> rat" where
  "round_pos x = of_int (round_even (x / quantum x)) * quantum x"

definition round64 :: "rat \<Rightarrow> rat" where
  "round64 x = (if x = 0 then 0 else if x > 0 then round_pos x else - round_pos (- x))"

section \<open>Values and operations\<close>

datatype f64 = NaN | Inf bool | Fin rat

definition max_float :: rat where
  "max_float = 2 ^ 1024"

definition of_rat64 :: "rat \<Rightarrow> f64" where
  "of_rat64 x =
     (let y = round64 x
      in if y \<ge> max_float then Inf False else if y \<le> - max_float then Inf True else Fin y)"

definition of_int64 :: "int \<Rightarrow> f64" where
  "of_int64 k = of_rat64 (of_int k)"

fun fadd :: "f64 \<Rightarrow> f64 \<Rightarrow> f64" where
  "fadd (Fin x) (Fin y) = of_rat64 (x + y)"
| "fadd (Inf s) (Inf t) = (if s = t then Inf s else NaN)"
| "fadd (Inf s) (Fin _) = Inf s"
| "fadd (Fin _) (Inf s) = Inf s"
| "fadd _ _ = NaN"

fun fmul :: "f64 \<Rightarrow> f64 \<Rightarrow> f64" where
  "fmul (Fin x) (Fin y) = of_rat64 (x * y)"
| "fmul (Inf s) (Inf t) = Inf (s \<noteq> t)"
| "fmul (Inf s) (Fin y) = (if y = 0 then NaN else Inf (s \<noteq> (y < 0)))"
| "fmul (Fin x) (Inf t) = (if x = 0 then NaN else Inf ((x < 0) \<noteq> t))"
| "fmul _ _ = NaN"

text \<open>Division by a finite nonzero number, the only kind the sources need.\<close>

fun fdiv :: "f64 \<Rightarrow> rat \<Rightarrow> f64" where
  "fdiv (Fin x) d = of_rat64 (x / d)"
| "fdiv (Inf s) d = Inf (s \<noteq> (d < 0))"
| "fdiv NaN d = NaN"

text \<open>Division in general; a divisor that is zero counts as the positive zero.\<close>

fun fdivide :: "f64 \<Rightarrow> f64 \<Rightarrow> f64" where
  "fdivide (Fin x) (Fin d) = (if d \<noteq> 0 then of_rat64 (x / d) else if x = 0 then NaN else Inf (x < 0))"
| "fdivide (Fin x) (Inf t) = Fin 0"
| "fdivide (Inf s) (Fin d) = Inf (s \<noteq> (d < 0))"
| "fdivide _ _ = NaN"

fun fneg :: "f64 \<Rightarrow> f64" where
  "fneg NaN = NaN"
| "fneg (Inf s) = Inf (\<not> s)"
| "fneg (Fin x) = Fin (- x)"

definition fsub :: "f64 \<Rightarrow> f64 \<Rightarrow> f64" where
  "fsub x y = fadd x (fneg y)"

text \<open>\<open>math.MaxFloat64\<close>.\<close>

definition max_finite :: rat where
  "max_finite = (2 ^ 53 - 1) * 2 ^ 971"

fun muladd :: "bool \<Rightarrow> f64 \<Rightarrow> f64 \<Rightarrow> f64 \<Rightarrow> f64" where
  "muladd True (Fin a) (Fin b) (Fin c) = of_rat64 (a * b + c)"
| "muladd fused x y z = fadd (fmul x y) z"

text \<open>The comparisons are false as soon as an operand is not a number.\<close>

fun fless :: "f64 \<Rightarrow> f64 \<Rightarrow> bool" where
  "fless (Fin x) (Fin y) = (x < y)"
| "fless (Inf s) (Inf t) = (s \<and> \<not> t)"
| "fless (Inf s) (Fin _) = s"
| "fless (Fin _) (Inf t) = (\<not> t)"
| "fless _ _ = False"

fun feq :: "f64 \<Rightarrow> f64 \<Rightarrow> bool" where
  "feq NaN _ = False"
| "feq _ NaN = False"
| "feq x y = (x = y)"

definition fle :: "f64 \<Rightarrow> f64 \<Rightarrow> bool" where
  "fle x y \<longleftrightarrow> fless x y \<or> feq x y"

text \<open>Conversion to \<open>int64\<close>: the fraction is discarded. The result for a value out of range is left
  to the implementation; it is the one of amd64 here, and the sources convert values in range only.\<close>

definition trunc64 :: "rat \<Rightarrow> int" where
  "trunc64 x = (if x < 0 then \<lceil>x\<rceil> else \<lfloor>x\<rfloor>)"

definition to_int64 :: "f64 \<Rightarrow> int" where
  "to_int64 x =
     (case x of
        Fin r \<Rightarrow> if MinInt64 \<le> trunc64 r \<and> trunc64 r \<le> MaxInt64 then trunc64 r else MinInt64
      | _ \<Rightarrow> MinInt64)"

text \<open>The order of \<open>sort.Float64s\<close>: values that are not numbers come first.\<close>

instantiation f64 :: linorder
begin

definition less_eq_f64 :: "f64 \<Rightarrow> f64 \<Rightarrow> bool" where
  "less_eq_f64 x y \<longleftrightarrow> x = NaN \<or> fle x y"

definition less_f64 :: "f64 \<Rightarrow> f64 \<Rightarrow> bool" where
  "less_f64 x y \<longleftrightarrow> fless x y \<or> x = NaN \<and> y \<noteq> NaN"

instance
proof
  fix x y z :: f64
  show "x < y \<longleftrightarrow> x \<le> y \<and> \<not> y \<le> x" "x \<le> x" "x \<le> y \<or> y \<le> x" "x \<le> y \<Longrightarrow> y \<le> x \<Longrightarrow> x = y"
    by (cases x; cases y; auto simp: less_eq_f64_def less_f64_def fle_def)+
  show "x \<le> y \<Longrightarrow> y \<le> z \<Longrightarrow> x \<le> z"
    by (cases x; cases y; cases z) (auto simp: less_eq_f64_def fle_def)
qed

end

section \<open>Facts about rounding\<close>

lemma powi_mono: "i \<le> j \<Longrightarrow> (2::rat) powi i \<le> 2 powi j"
  by (rule power_int_increasing) simp_all

lemma powi_pos [simp]: "0 < (2::rat) powi i"
  by simp

lemma ilog2_bounds:
  assumes "0 < x"
  shows "2 powi (ilog2 x) \<le> x" and "x < 2 powi (ilog2 x + 1)"
proof -
  obtain n d where q: "quotient_of x = (n, d)" by fastforce
  have d: "0 < d" and x: "x = of_int n / of_int d"
    using quotient_of_denom_pos [OF q] quotient_of_div [OF q] by simp_all
  then have n: "0 < n" using assms by (simp add: zero_less_divide_iff)
  define a where "a = nat (bits_len n)" define b where "b = nat (bits_len d)"
  have ab: "int a = bits_len n" "int b = bits_len d" by (simp_all add: a_def b_def)
  have a1: "1 \<le> a" "1 \<le> b" using bits_len_pos [OF n] bits_len_pos [OF d] ab bits_len_nonneg [of "n div 2"] bits_len_nonneg [of "d div 2"] by linarith+
  have nb: "2 ^ (a - 1) \<le> n" "n < 2 ^ a" and db: "2 ^ (b - 1) \<le> d" "d < 2 ^ b"
    using bits_len_less [of n] bits_len_ge [of n "a - 1"] bits_len_less [of d] bits_len_ge [of d "b - 1"] n d a1 ab
    by (simp_all add: a_def b_def of_nat_diff)
  have a2: "int a - 1 = int (a - 1)" "int b - 1 = int (b - 1)" using a1 by simp_all
  have N: "(2::rat) powi (int a - 1) \<le> of_int n" "(of_int n :: rat) < 2 powi int a"
    and D: "(2::rat) powi (int b - 1) \<le> of_int d" "(of_int d :: rat) < 2 powi int b"
    using iffD2 [OF of_int_le_iff [where 'a = rat] nb(1)] iffD2 [OF of_int_less_iff [where 'a = rat] nb(2)]
      iffD2 [OF of_int_le_iff [where 'a = rat] db(1)] iffD2 [OF of_int_less_iff [where 'a = rat] db(2)]
    by (simp_all add: a2 power_int_of_nat)
  define k where "k = int a - int b"
  have e: "(2::rat) powi (k + 1) * 2 powi (int b - 1) = 2 powi int a" "(2::rat) powi (k - 1) * 2 powi int b = 2 powi (int a - 1)"
    using power_int_add [of "2::rat" "k + 1" "int b - 1"] power_int_add [of "2::rat" "k - 1" "int b"]
    by (simp_all add: k_def del: power_int_of_nat)
  have "of_int n < (2::rat) powi (k + 1) * of_int d"
    using N(2) D(1) unfolding e(1) [symmetric] by (meson less_le_trans mult_left_mono powi_pos less_imp_le)
  then have hi: "x < 2 powi (k + 1)" using d by (simp add: x divide_less_eq)
  have "(2::rat) powi (k - 1) * of_int d \<le> of_int n"
    using N(1) D(2) unfolding e(2) [symmetric] by (meson order_trans mult_left_mono powi_pos less_imp_le)
  then have lo: "2 powi (k - 1) \<le> x" using d by (simp add: x le_divide_eq)
  have "ilog2 x = (if 2 powi k \<le> x then k else k - 1)" by (simp add: ilog2_def q k_def ab Let_def)
  then show "2 powi (ilog2 x) \<le> x" "x < 2 powi (ilog2 x + 1)" using lo hi by (simp_all split: if_splits)
qed

lemma ilog2_unique:
  assumes "0 < x" "2 powi e \<le> x" "x < 2 powi (e + 1)"
  shows "ilog2 x = e"
proof (rule ccontr)
  assume "ilog2 x \<noteq> e"
  then consider "ilog2 x + 1 \<le> e" | "e + 1 \<le> ilog2 x" by linarith
  then show False
    using ilog2_bounds [OF assms(1)] assms(2,3) powi_mono [of "ilog2 x + 1" e] powi_mono [of "e + 1" "ilog2 x"] by cases auto
qed

lemma ilog2_mono: "0 < x \<Longrightarrow> x \<le> y \<Longrightarrow> ilog2 x \<le> ilog2 y"
proof (rule ccontr)
  assume a: "0 < x" "x \<le> y" and n: "\<not> ilog2 x \<le> ilog2 y"
  have "y < 2 powi (ilog2 y + 1)" using a ilog2_bounds(2) [of y] by simp
  also have "\<dots> \<le> 2 powi (ilog2 x)" using n by (intro powi_mono) simp
  also have "\<dots> \<le> x" using a ilog2_bounds(1) by simp
  finally show False using a by simp
qed

lemma round_even_mono:
  assumes "y \<le> z"
  shows "round_even y \<le> round_even z"
proof -
  have f: "\<lfloor>y\<rfloor> \<le> \<lfloor>z\<rfloor>" using assms by (rule floor_mono)
  have ub: "round_even w \<le> \<lfloor>w\<rfloor> + 1" and lb: "\<lfloor>w\<rfloor> \<le> round_even w" for w by (simp_all add: round_even_def Let_def)
  show ?thesis
  proof (cases "\<lfloor>y\<rfloor> = \<lfloor>z\<rfloor>")
    case True
    then show ?thesis using assms by (auto simp: round_even_def Let_def)
  next
    case False
    then show ?thesis using f ub [of y] lb [of z] by linarith
  qed
qed

lemma round_even_int [simp]: "round_even (of_int k) = k"
  by (simp add: round_even_def)

lemma round_even_error: "\<bar>of_int (round_even y) - y\<bar> \<le> 1 / 2"
  by (simp add: round_even_def Let_def abs_if) linarith

lemma quantum_pos [simp]: "0 < quantum x" "0 \<le> quantum x" "quantum x \<noteq> 0"
  by (simp_all add: quantum_def)

text \<open>The numbers of one binade are rounded to multiples of one quantum, within the binade and
  its upper end.\<close>

lemma round_pos_bounds:
  assumes "0 < x"
  shows "round_pos x \<le> 2 powi (max (ilog2 x) (- 1022) + 1)" and "- 1022 \<le> ilog2 x \<Longrightarrow> 2 powi (ilog2 x) \<le> round_pos x"
    and "0 \<le> round_pos x"
proof -
  let ?m = "max (ilog2 x) (- 1022)"
  have q: "2 powi (?m + 1) / quantum x = of_int (2 ^ 53)" "- 1022 \<le> ilog2 x \<Longrightarrow> 2 powi (ilog2 x) / quantum x = of_int (2 ^ 52)"
    by (simp_all add: quantum_def max_def flip: power_int_diff)
  note qm = q(1) [unfolded nonzero_divide_eq_eq [OF quantum_pos(3)]] q(2) [unfolded nonzero_divide_eq_eq [OF quantum_pos(3)]]
  have "x < 2 powi (?m + 1)"
    using ilog2_bounds(2) [OF assms] powi_mono [of "ilog2 x + 1" "?m + 1"] by simp
  then have "x / quantum x \<le> of_int (2 ^ 53)" unfolding q(1) [symmetric] by (intro divide_right_mono) simp_all
  then have "round_even (x / quantum x) \<le> 2 ^ 53" using round_even_mono round_even_int by metis
  then have "of_int (round_even (x / quantum x)) * quantum x \<le> of_int (2 ^ 53) * quantum x"
    by (intro mult_right_mono) (simp_all only: of_int_le_iff quantum_pos)
  then show "round_pos x \<le> 2 powi (?m + 1)" unfolding round_pos_def qm(1) .
  show "2 powi (ilog2 x) \<le> round_pos x" if r: "- 1022 \<le> ilog2 x"
  proof -
    have "of_int (2 ^ 52) \<le> x / quantum x" unfolding q(2) [OF r, symmetric]
      using ilog2_bounds(1) [OF assms] by (intro divide_right_mono) simp_all
    then have "2 ^ 52 \<le> round_even (x / quantum x)" using round_even_mono round_even_int by metis
    then have "of_int (2 ^ 52) * quantum x \<le> of_int (round_even (x / quantum x)) * quantum x"
      by (intro mult_right_mono) (simp_all only: of_int_le_iff quantum_pos)
    then show ?thesis unfolding round_pos_def qm(2) [OF r] .
  qed
  have "0 \<le> round_even (x / quantum x)" using round_even_mono [of 0 "x / quantum x"] round_even_int [of 0] assms by simp
  then show "0 \<le> round_pos x" by (simp add: round_pos_def less_imp_le)
qed

lemma round_pos_mono:
  assumes "0 < x" "x \<le> y"
  shows "round_pos x \<le> round_pos y"
proof -
  let ?m = "max (ilog2 x) (- 1022)" and ?n = "max (ilog2 y) (- 1022)"
  have le: "?m \<le> ?n" using ilog2_mono [OF assms] by simp
  show ?thesis
  proof (cases "?m = ?n")
    case True
    then have "quantum x = quantum y" by (simp add: quantum_def)
    then show ?thesis using round_even_mono [of "x / quantum y" "y / quantum y"] assms(2)
      by (simp add: round_pos_def divide_right_mono mult_right_mono)
  next
    case False
    then have n: "?m + 1 \<le> ilog2 y" "- 1022 \<le> ilog2 y" using le by simp_all
    have "round_pos x \<le> 2 powi (?m + 1)" using assms by (simp add: round_pos_bounds)
    also have "\<dots> \<le> 2 powi (ilog2 y)" using n by (simp add: powi_mono)
    also have "\<dots> \<le> round_pos y" using assms n by (simp add: round_pos_bounds)
    finally show ?thesis .
  qed
qed

lemma round64_mono:
  assumes "x \<le> y"
  shows "round64 x \<le> round64 y"
proof -
  consider "0 < x" | "x \<le> 0" "0 \<le> y" | "y < 0" by linarith
  then show ?thesis
  proof cases
    case 1
    then show ?thesis using assms round_pos_mono [of x y] by (simp add: round64_def)
  next
    case 2
    then show ?thesis using round_pos_bounds(3) [of "- x"] round_pos_bounds(3) [of y] by (auto simp: round64_def)
  next
    case 3
    then show ?thesis using assms round_pos_mono [of "- y" "- x"] by (simp add: round64_def)
  qed
qed

text \<open>The numbers that are kept by rounding: the floating-point numbers, with an unbounded
  exponent.\<close>

definition dyadic :: "rat \<Rightarrow> bool" where
  "dyadic x \<longleftrightarrow> (\<exists>k e. x = of_int k * 2 powi e \<and> \<bar>k\<bar> \<le> 2 ^ 53 \<and> - 1074 \<le> e)"

lemma dyadicI: "x = of_int k * 2 powi e \<Longrightarrow> \<bar>k\<bar> \<le> 2 ^ 53 \<Longrightarrow> - 1074 \<le> e \<Longrightarrow> dyadic x"
  by (auto simp: dyadic_def)

lemma dyadic_minus [simp]: "dyadic (- x) \<longleftrightarrow> dyadic x"
proof -
  have "dyadic (- x)" if d: "dyadic x" for x
  proof -
    obtain k e where "x = of_int k * 2 powi e" "\<bar>k\<bar> \<le> 2 ^ 53" "- 1074 \<le> e" using d by (auto simp: dyadic_def)
    then show ?thesis by (intro dyadicI [of _ "- k" e]) simp_all
  qed
  from this [of x] this [of "- x"] show ?thesis by auto
qed

lemma dyadic_of_int: "\<bar>k\<bar> \<le> 2 ^ 53 \<Longrightarrow> dyadic (of_int k)"
  by (rule dyadicI [of _ k 0]) simp_all

lemma dyadic_power: "dyadic (2 ^ n)"
  by (rule dyadicI [of _ 1 "int n"]) simp_all

lemma dyadic_round_pos: "0 < x \<Longrightarrow> dyadic (round_pos x)"
proof -
  assume x: "0 < x"
  have "x < 2 powi (max (ilog2 x) (- 1022) + 1)"
    using ilog2_bounds(2) [OF x] powi_mono [of "ilog2 x + 1" "max (ilog2 x) (- 1022) + 1"] by simp
  also have "\<dots> = of_int (2 ^ 53) * quantum x" by (simp add: quantum_def power_int_add power_int_diff)
  finally have "x / quantum x \<le> of_int (2 ^ 53)" by (simp add: divide_le_eq)
  then have "round_even (x / quantum x) \<le> 2 ^ 53" using round_even_mono round_even_int by metis
  moreover have "0 \<le> round_even (x / quantum x)"
    using round_even_mono [of 0 "x / quantum x"] round_even_int [of 0] x by simp
  ultimately show ?thesis
    by (intro dyadicI [of _ "round_even (x / quantum x)" "max (ilog2 x) (- 1022) - 52"]) (simp_all add: round_pos_def quantum_def)
qed

lemma dyadic_round64: "dyadic (round64 x)"
  using dyadic_round_pos [of x] dyadic_round_pos [of "- x"] dyadic_of_int [of 0]
  by (simp add: round64_def not_less_iff_gr_or_eq)

lemma round_pos_exact:
  assumes "0 < x" "dyadic x"
  shows "round_pos x = x"
proof -
  obtain k e where k: "x = of_int k * 2 powi e" "\<bar>k\<bar> \<le> 2 ^ 53" "- 1074 \<le> e" using assms(2) by (auto simp: dyadic_def)
  let ?m = "max (ilog2 x) (- 1022)"
  have "\<exists>j. x / quantum x = of_int j"
  proof (cases "?m - 52 \<le> e")
    case True
    then have "2 powi e / quantum x = of_int (2 ^ nat (e - (?m - 52)))"
      using power_int_diff [of "2::rat" e "?m - 52"] power_int_of_nat [of "2::rat" "nat (e - (?m - 52))"]
      by (simp add: quantum_def del: power_int_of_nat)
    moreover have "x / quantum x = of_int k * (2 powi e / quantum x)" by (subst (1) k(1)) simp
    ultimately have "x / quantum x = of_int (k * 2 ^ nat (e - (?m - 52)))" by simp
    then show ?thesis by blast
  next
    case False
    then have m: "?m = ilog2 x" "53 + e \<le> ilog2 x" using k(3) by simp_all
    have "k \<le> 2 ^ 53" using k(2) by simp
    then have "of_int k \<le> (of_int (2 ^ 53) :: rat)" by (simp only: of_int_le_iff)
    then have "x \<le> of_int (2 ^ 53) * 2 powi e" unfolding k(1) by (rule mult_right_mono) simp
    also have "\<dots> = 2 powi (53 + e)" by (simp add: power_int_add)
    also have "\<dots> \<le> 2 powi (ilog2 x)" by (rule powi_mono) (rule m(2))
    finally have "x = 2 powi (ilog2 x)" using ilog2_bounds(1) [OF assms(1)] by simp
    then have "x / quantum x = 2 powi ilog2 x / 2 powi (ilog2 x - 52)" using m(1) by (simp add: quantum_def)
    then have "x / quantum x = of_int (2 ^ 52)" by (simp flip: power_int_diff)
    then show ?thesis by blast
  qed
  then obtain j where j: "x / quantum x = of_int j" ..
  note xj = j [unfolded nonzero_divide_eq_eq [OF quantum_pos(3)]]
  show ?thesis unfolding round_pos_def j round_even_int by (rule xj [symmetric])
qed

lemma round64_exact: "dyadic x \<Longrightarrow> round64 x = x"
  using round_pos_exact [of x] round_pos_exact [of "- x"] by (simp add: round64_def)

lemma round64_idem [simp]: "round64 (round64 x) = round64 x"
  by (simp add: round64_exact dyadic_round64)

text \<open>The error of a rounding, from the size of the argument.\<close>

lemma round64_error:
  assumes "\<bar>x\<bar> < 2 powi j" "- 1021 \<le> j"
  shows "\<bar>round64 x - x\<bar> \<le> 2 powi (j - 54)"
proof -
  have pos: "\<bar>round_pos y - y\<bar> \<le> 2 powi (j - 54)" if y: "0 < y" "y < 2 powi j" for y
  proof -
    have "\<not> 2 powi j \<le> (2::rat) powi ilog2 y" using y ilog2_bounds(1) [OF y(1)] by simp
    then have "ilog2 y < j" using powi_mono not_le by metis
    then have q: "quantum y \<le> 2 powi (j - 53)" unfolding quantum_def using assms(2) by (intro powi_mono) simp
    have "round_pos y - y = (of_int (round_even (y / quantum y)) - y / quantum y) * quantum y"
      by (simp add: round_pos_def algebra_simps)
    then have "\<bar>round_pos y - y\<bar> = \<bar>of_int (round_even (y / quantum y)) - y / quantum y\<bar> * quantum y" by (simp add: abs_mult)
    also have "\<dots> \<le> 1 / 2 * 2 powi (j - 53)" using round_even_error q by (intro mult_mono) simp_all
    also have "\<dots> = 2 powi (j - 54)" using power_int_add [of "2::rat" "j - 54" 1] by simp
    finally show ?thesis .
  qed
  show ?thesis
    using pos [of x] pos [of "- x"] assms(1) by (auto simp: round64_def abs_if split: if_splits)
qed

section \<open>Facts about the operations\<close>

lemma of_rat64_small:
  assumes "\<bar>x\<bar> \<le> 2 ^ 1023"
  shows "of_rat64 x = Fin (round64 x)"
proof -
  have "x \<le> 2 ^ 1023" "- (2 ^ 1023) \<le> x" using assms by (simp_all only: abs_le_iff) linarith
  then have "round64 x \<le> 2 ^ 1023" "- (2 ^ 1023) \<le> round64 x"
    using round64_mono [of x "2 ^ 1023"] round64_mono [of "- (2 ^ 1023)" x] dyadic_power [of 1023]
    by (simp_all only: round64_exact dyadic_minus)
  moreover have "(2::rat) ^ 1023 < max_float" unfolding max_float_def by (rule power_strict_increasing) simp_all
  ultimately show ?thesis unfolding of_rat64_def Let_def by auto
qed

lemma fle_simps [simp]:
  "fle (Fin x) (Fin y) = (x \<le> y)" "fle (Inf s) (Inf t) = (s \<or> \<not> t)" "fle (Inf s) (Fin y) = s"
  "fle (Fin x) (Inf t) = (\<not> t)" "\<not> fle NaN z" "\<not> fle z NaN"
  by (auto simp: fle_def) (cases z; simp)+

lemma fle_refl: "fle x x \<longleftrightarrow> x \<noteq> NaN"
  by (cases x) simp_all

lemma fle_trans: "fle x y \<Longrightarrow> fle y z \<Longrightarrow> fle x z"
  by (cases x; cases y; cases z) auto

lemma max_float_pos: "0 < max_float"
  unfolding max_float_def by (rule zero_less_power) simp

lemma of_rat64_mono: "x \<le> y \<Longrightarrow> fle (of_rat64 x) (of_rat64 y)"
  using round64_mono [of x y] max_float_pos by (auto simp: of_rat64_def Let_def)

lemma of_rat64_ends [simp]: "fle (of_rat64 x) (Inf False)" "fle (Inf True) (of_rat64 x)"
  by (simp_all add: of_rat64_def Let_def)

lemma fdiv_mono: "fle x y \<Longrightarrow> 0 < d \<Longrightarrow> fle (fdiv x d) (fdiv y d)"
  by (cases x; cases y) (auto simp: of_rat64_mono divide_right_mono)

text \<open>Addition and multiplication by a finite positive number, fused or not.\<close>

lemma fmul_mono: "fle x y \<Longrightarrow> 0 < c \<Longrightarrow> fle (fmul x (Fin c)) (fmul y (Fin c))"
  by (cases x; cases y) (auto simp: of_rat64_mono mult_right_mono)

lemma fadd_mono: "fle x y \<Longrightarrow> fle (fadd x (Fin c)) (fadd y (Fin c))"
  by (cases x; cases y) (auto simp: of_rat64_mono)

lemma muladd_mono:
  assumes "fle x y" "0 < c"
  shows "fle (muladd fused x (Fin c) (Fin d)) (muladd fused y (Fin c) (Fin d))"
proof (cases fused)
  case False
  then show ?thesis using assms by (simp add: fadd_mono fmul_mono)
next
  case True
  then show ?thesis using assms
    by (cases x; cases y) (auto simp: of_rat64_mono mult_right_mono)
qed

text \<open>Numbers of the size of an integer.\<close>

lemma of_rat64_fin: "\<bar>x\<bar> \<le> 2 ^ 64 \<Longrightarrow> of_rat64 x = Fin (round64 x)"
proof (rule of_rat64_small)
  assume "\<bar>x\<bar> \<le> 2 ^ 64"
  also have "(2::rat) ^ 64 \<le> 2 ^ 1023" by (rule power_increasing) simp_all
  finally show "\<bar>x\<bar> \<le> 2 ^ 1023" .
qed

lemma round64_0: "round64 0 = 0"
  by (simp add: round64_def)

lemma round64_nonneg: "0 \<le> x \<Longrightarrow> 0 \<le> round64 x"
  using round64_mono [of 0 x] by (simp add: round64_0)

lemma round64_err:
  assumes "\<bar>x\<bar> < 2 ^ n" "n \<le> 54"
  shows "\<bar>round64 x - x\<bar> \<le> 1 / 2 ^ (54 - n)"
proof -
  have "\<bar>round64 x - x\<bar> \<le> 2 powi (int n - 54)" using assms(1) by (intro round64_error) simp_all
  also have "(2::rat) powi (int n - 54) = 1 / 2 ^ (54 - n)"
    using assms(2) by (simp add: power_int_def power_one_over nat_diff_distrib)
  finally show ?thesis .
qed

lemma of_int64_exact: "\<bar>k\<bar> \<le> 2 ^ 53 \<Longrightarrow> of_int64 k = Fin (of_int k)"
proof -
  assume k: "\<bar>k\<bar> \<le> 2 ^ 53"
  then have "\<bar>of_int k :: rat\<bar> \<le> 2 ^ 64" by (simp add: abs_le_iff)
  then show ?thesis using round64_exact [OF dyadic_of_int [OF k]] by (simp add: of_int64_def of_rat64_fin)
qed

lemma round64_le: "dyadic y \<Longrightarrow> x \<le> y \<Longrightarrow> round64 x \<le> y"
  using round64_mono [of x y] by (simp add: round64_exact)

lemma round64_ge: "dyadic y \<Longrightarrow> y \<le> x \<Longrightarrow> y \<le> round64 x"
  using round64_mono [of y x] by (simp add: round64_exact)

lemma of_rat64_cases: "0 \<le> x \<Longrightarrow> of_rat64 x = Fin (round64 x) \<or> of_rat64 x = Inf False"
  using round64_nonneg [of x] max_float_pos by (auto simp: of_rat64_def Let_def)

end
