(* ===== verification/Percentile.thy ===== *)
theory Percentile
  imports Hist_Spec Float64 "HOL-Library.AList"
begin

text \<open>
  The percentile queries of the dense histogram (\<open>hdr.go\<close>): the rank of a percentile, computed in
  \<open>float64\<close>, and the scans that find the bucket at which the cumulative count reaches a rank. The
  scans add up blocks of eight counters and walk only the blocks that can reach a target.

  The parameter \<open>fused\<close> says whether the compiler fuses the multiplication and the addition of the
  rank into one rounding, which the language leaves open.
\<close>

section \<open>The rank\<close>

definition percentileRank :: "bool \<Rightarrow> f64 \<Rightarrow> int \<Rightarrow> int" where
  "percentileRank fused percentile totalC =
     (let percentile' = (if fless (Fin 100) percentile then Fin 100 else percentile);
          rank = muladd fused (fdiv percentile' 100) (of_int64 totalC) (Fin (1 / 2))
      in if \<not> fle (Fin 1) rank then 1
         else if fle (of_int64 totalC) rank then totalC
         else to_int64 rank)"

section \<open>One percentile\<close>

definition scanBlock :: nat where
  "scanBlock = 8"

text \<open>A walk over single counters: the position at which the sum reaches the target, if it does, and
  the sum.\<close>

fun scan_elems :: "int list \<Rightarrow> nat \<Rightarrow> int \<Rightarrow> int \<Rightarrow> nat option \<times> int" where
  "scan_elems [] i toIdx target = (None, toIdx)"
| "scan_elems (c # cs) i toIdx target =
     (let toIdx' = i64 (toIdx + c)
      in if toIdx' \<ge> target then (Some i, toIdx')
         else scan_elems cs (Suc i) toIdx' target)"

function scan_blocks :: "int list \<Rightarrow> nat \<Rightarrow> int \<Rightarrow> int \<Rightarrow> nat option" where
  "scan_blocks cs i toIdx target =
     (if scanBlock \<le> length cs
      then let blk = take scanBlock cs; s = i64 (sum_list blk)
           in if i64 (toIdx + s) \<ge> target
              then case scan_elems blk i toIdx target of
                     (Some k, _) \<Rightarrow> Some k
                   | (None, c) \<Rightarrow> scan_blocks (drop scanBlock cs) (i + scanBlock) (i64 (c + s)) target
              else scan_blocks (drop scanBlock cs) (i + scanBlock) (i64 (toIdx + s)) target
      else fst (scan_elems cs i toIdx target))"
  by pat_completeness auto
termination by (relation "measure (\<lambda>(cs, i, c, t). length cs)") (auto simp: scanBlock_def)

declare scan_blocks.simps [simp del]

definition getValueFromIdxUpToCount :: "histogram \<Rightarrow> int \<Rightarrow> int" where
  "getValueFromIdxUpToCount h countAtPercentile =
     (case scan_blocks (counts h) 0 0 countAtPercentile of
        Some i \<Rightarrow> valueFromFlatIndex h (i32 (int i))
      | None \<Rightarrow> 0)"

text \<open>Both histograms clamp a percentile before they compute its rank; a value that is not a number
  passes.\<close>

definition clamp_percentile :: "f64 \<Rightarrow> f64" where
  "clamp_percentile percentile =
     (if fless (Fin 100) percentile then Fin 100 else if fless percentile (Fin 0) then Fin 0 else percentile)"

definition ValueAtPercentile :: "bool \<Rightarrow> histogram \<Rightarrow> f64 \<Rightarrow> int" where
  "ValueAtPercentile fused h percentile =
     (if totalCount h = 0 then 0
      else let percentile' = clamp_percentile percentile;
               countAtPercentile = percentileRank fused percentile' (totalCount h);
               valueFromIdx = getValueFromIdxUpToCount h countAtPercentile
           in if feq percentile' (Fin 0) then lowestEquivalentValue h valueFromIdx
              else highestEquivalentValue h valueFromIdx)"

definition ValueAtQuantile :: "bool \<Rightarrow> histogram \<Rightarrow> f64 \<Rightarrow> int" where
  "ValueAtQuantile fused h q = ValueAtPercentile fused h q"

section \<open>Many percentiles in one pass\<close>

text \<open>
  \<open>scanTargets\<close> overwrites its slice from the front: after \<open>pos\<close> targets are resolved, the slice is
  \<open>dn @ pend\<close> with \<open>dn\<close> the \<open>pos\<close> resolved positions and \<open>pend\<close> the targets left, the first of which
  is \<open>next\<close>. The scan returns when no target is left.
\<close>

fun drain :: "int \<Rightarrow> nat \<Rightarrow> int list \<Rightarrow> int list \<Rightarrow> int list \<times> int list" where
  "drain tot i dn [] = (dn, [])"
| "drain tot i dn (t # pend) =
     (if tot \<ge> t then drain tot i (dn @ [int i]) pend else (dn, t # pend))"

fun targets_elems :: "int list \<Rightarrow> nat \<Rightarrow> int \<Rightarrow> int list \<Rightarrow> int list \<Rightarrow> int \<times> int list \<times> int list" where
  "targets_elems [] i tot dn pend = (tot, dn, pend)"
| "targets_elems (c # cs) i tot dn pend =
     (let tot' = i64 (tot + c)
      in case drain tot' i dn pend of
           (dn', []) \<Rightarrow> (tot', dn', [])
         | (dn', pend') \<Rightarrow> targets_elems cs (Suc i) tot' dn' pend')"

function targets_blocks :: "int list \<Rightarrow> nat \<Rightarrow> int \<Rightarrow> int list \<Rightarrow> int list \<Rightarrow> int list \<times> int list" where
  "targets_blocks cs i tot dn pend =
     (if scanBlock \<le> length cs
      then let blk = take scanBlock cs; s = i64 (sum_list blk)
           in if i64 (tot + s) < hd pend
              then targets_blocks (drop scanBlock cs) (i + scanBlock) (i64 (tot + s)) dn pend
              else case targets_elems blk i tot dn pend of
                     (tot', dn', []) \<Rightarrow> (dn', [])
                   | (tot', dn', pend') \<Rightarrow> targets_blocks (drop scanBlock cs) (i + scanBlock) tot' dn' pend'
      else snd (targets_elems cs i tot dn pend))"
  by pat_completeness auto
termination by (relation "measure (\<lambda>(cs, i, t, dn, pend). length cs)") (auto simp: scanBlock_def)

declare targets_blocks.simps [simp del]

text \<open>The slice after the call and the number of resolved targets.\<close>

definition scanTargets :: "histogram \<Rightarrow> int list \<Rightarrow> int list \<times> nat" where
  "scanTargets h targets =
     (if targets = [] then ([], 0)
      else case targets_blocks (counts h) 0 0 [] targets of
             (dn, pend) \<Rightarrow> (dn @ pend, length dn))"

text \<open>The value reported for a percentile, from the flat index its target was resolved to.\<close>

definition value_reported :: "histogram \<Rightarrow> f64 \<Rightarrow> int \<Rightarrow> int" where
  "value_reported h percentile idx =
     (let value = valueFromFlatIndex h (i32 idx)
      in if fle percentile (Fin 0) then lowestEquivalentValue h value else highestEquivalentValue h value)"

text \<open>A Go map from \<open>float64\<close>: a key that is not a number is equal to no key, so an assignment to it
  adds an entry and a lookup never finds it.\<close>

definition map_put :: "f64 \<Rightarrow> int \<Rightarrow> (f64 \<times> int) list \<Rightarrow> (f64 \<times> int) list" where
  "map_put k v m = (if k = NaN then m @ [(k, v)] else AList.update k v m)"

definition map_get :: "(f64 \<times> int) list \<Rightarrow> f64 \<Rightarrow> int option" where
  "map_get m k = (if k = NaN then None else map_of m k)"

text \<open>The map, and the caller's slice, which the call sorts.\<close>

definition ValueAtPercentiles :: "bool \<Rightarrow> histogram \<Rightarrow> f64 list \<Rightarrow> (f64 \<times> int) list \<times> f64 list" where
  "ValueAtPercentiles fused h percentiles =
     (let ps = sort percentiles;
          values = foldl (\<lambda>m p. map_put p 0 m) [] ps;
          countAtPercentiles = map (\<lambda>p. percentileRank fused p (totalCount h)) ps
      in if totalCount h = 0 then (values, ps)
         else let (targets, resolved) = scanTargets h countAtPercentiles
              in (foldl (\<lambda>m k. map_put (ps ! k) (value_reported h (ps ! k) (targets ! k)) m) values [0..<resolved], ps))"

fun ascending :: "int list \<Rightarrow> bool" where
  "ascending (a # b # ts) = (a \<le> b \<and> ascending (b # ts))"
| "ascending _ = True"

definition ValueAtPercentilesSlice :: "bool \<Rightarrow> histogram \<Rightarrow> f64 list \<Rightarrow> int list" where
  "ValueAtPercentilesSlice fused h percentiles =
     (let n = length percentiles; result = replicate n 0
      in if n = 0 \<or> totalCount h = 0 then result
         else let targets = map (\<lambda>p. percentileRank fused p (totalCount h)) percentiles
              in if ascending targets
                 then let (targets', resolved) = scanTargets h targets
                      in foldl (\<lambda>r i. r[i := value_reported h (percentiles ! i) (targets' ! i)]) result [0..<resolved]
                 else let order = sort_key (\<lambda>i. targets ! i) [0..<n];
                          (targets', resolved) = scanTargets h (sort targets)
                      in foldl (\<lambda>r k. r[order ! k := value_reported h (percentiles ! (order ! k)) (targets' ! k)])
                           result [0..<resolved])"

end
