(* ===== verification/Packed_Percentile.thy ===== *)
theory Packed_Percentile
  imports Packed Percentile
begin

text \<open>
  The percentile queries of the sparse histogram (\<open>packed.go\<close>): a scan of the packed counts, by
  blocks of eight for the narrow widths and with a saturating sum for width eight, and a single pass for many
  percentiles.
\<close>

section \<open>Definitions\<close>

definition countAtPercentile :: "bool \<Rightarrow> packed \<Rightarrow> f64 \<Rightarrow> int" where
  "countAtPercentile fused p percentile = percentileRank fused percentile (p_totalCount p)"

definition packedScanBlock :: nat where
  "packedScanBlock = 8"

text \<open>The counts of a block: the sub-slice of the bytes, read at the width.\<close>

definition block_counts :: "packed \<Rightarrow> nat \<Rightarrow> int list" where
  "block_counts p i =
     (let w = slot_bytes (p_width p); b = take (w * packedScanBlock) (drop (i * w) (p_cnt p))
      in map (\<lambda>j. le_val (take w (drop (w * j) b))) [0..<packedScanBlock])"

text \<open>The blocked loops of the three narrow widths: the position that reaches the target, or where
  the tail begins, with the running count.\<close>

function packed_blocks :: "packed \<Rightarrow> nat \<Rightarrow> int \<Rightarrow> int \<Rightarrow> nat + nat \<times> int" where
  "packed_blocks p i running target =
     (if int (i + packedScanBlock) \<le> p_size p
      then let blk = block_counts p i; s = i64 (sum_list blk)
           in if i64 (running + s) \<ge> target
              then case scan_elems blk i running target of
                     (Some k, _) \<Rightarrow> Inl k
                   | (None, r) \<Rightarrow> packed_blocks p (i + packedScanBlock) (i64 (r + s)) target
              else packed_blocks p (i + packedScanBlock) (i64 (running + s)) target
      else Inr (i, running))"
  by pat_completeness auto
termination
  by (relation "measure (\<lambda>(p, i, r, t). nat (p_size p - int i))") (auto simp: packedScanBlock_def)

declare packed_blocks.simps [simp del]

definition saturating_add :: "int \<Rightarrow> int \<Rightarrow> int" where
  "saturating_add running c = (if c > i64 (MaxInt64 - running) then MaxInt64 else i64 (running + c))"

function packed_tail :: "packed \<Rightarrow> nat \<Rightarrow> int \<Rightarrow> int \<Rightarrow> nat option" where
  "packed_tail p i running target =
     (if int i < p_size p
      then let running' = saturating_add running (slotGet p (int i))
           in if running' \<ge> target then Some i else packed_tail p (Suc i) running' target
      else None)"
  by pat_completeness auto
termination by (relation "measure (\<lambda>(p, i, r, t). nat (p_size p - int i))") auto

declare packed_tail.simps [simp del]

definition valueFromIdxAtCount :: "packed \<Rightarrow> int \<Rightarrow> int" where
  "valueFromIdxAtCount p target =
     (case (if p_width p = 1 \<or> p_width p = 2 \<or> p_width p = 4 then packed_blocks p 0 0 target else Inr (0, 0)) of
        Inl k \<Rightarrow> valueFromFlatIndex (p_geom p) (p_idx p ! k)
      | Inr (i, running) \<Rightarrow>
          (case packed_tail p i running target of
             Some k \<Rightarrow> valueFromFlatIndex (p_geom p) (p_idx p ! k)
           | None \<Rightarrow> 0))"

definition ValueAtPercentile_p :: "bool \<Rightarrow> packed \<Rightarrow> f64 \<Rightarrow> int" where
  "ValueAtPercentile_p fused p percentile =
     (if p_totalCount p = 0 then 0
      else let percentile' = clamp_percentile percentile;
               vfi = valueFromIdxAtCount p (countAtPercentile fused p percentile')
           in if feq percentile' (Fin 0) then lowestEquivalentValue (p_geom p) vfi else highestEquivalent p vfi)"

record ptarget =
  orig :: nat
  isZero :: bool
  target :: int

text \<open>The closure \<open>emit\<close>: the targets at the front of the pending ones that the running count has
  reached are answered.\<close>

fun emit :: "packed \<Rightarrow> int \<Rightarrow> int \<Rightarrow> ptarget list \<Rightarrow> int list \<Rightarrow> ptarget list \<times> int list" where
  "emit p vfi running [] out = ([], out)"
| "emit p vfi running (t # pend) out =
     (if running \<ge> target t
      then emit p vfi running pend
             (out[orig t := if isZero t then lowestEquivalentValue (p_geom p) vfi else highestEquivalent p vfi])
      else (t # pend, out))"

text \<open>One bucket: its count has been added to the running count.\<close>

definition visit :: "packed \<Rightarrow> nat \<Rightarrow> int \<Rightarrow> ptarget list \<Rightarrow> int list \<Rightarrow> ptarget list \<times> int list" where
  "visit p i running pend out =
     (if running \<ge> target (hd pend)
      then emit p (valueFromFlatIndex (p_geom p) (p_idx p ! i)) running pend out else (pend, out))"

fun slice_elems :: "packed \<Rightarrow> int list \<Rightarrow> nat \<Rightarrow> int \<Rightarrow> ptarget list \<Rightarrow> int list \<Rightarrow> int \<times> ptarget list \<times> int list" where
  "slice_elems p [] i running pend out = (running, pend, out)"
| "slice_elems p (c # cs) i running pend out =
     (let running' = i64 (running + c)
      in case visit p i running' pend out of
           ([], out') \<Rightarrow> (running', [], out')
         | (pend', out') \<Rightarrow> slice_elems p cs (Suc i) running' pend' out')"

function slice_blocks :: "packed \<Rightarrow> nat \<Rightarrow> int \<Rightarrow> ptarget list \<Rightarrow> int list \<Rightarrow> nat \<times> int \<times> ptarget list \<times> int list" where
  "slice_blocks p i running pend out =
     (if pend \<noteq> [] \<and> int (i + packedScanBlock) \<le> p_size p
      then let blk = block_counts p i; s = i64 (sum_list blk)
           in if i64 (running + s) < target (hd pend)
              then slice_blocks p (i + packedScanBlock) (i64 (running + s)) pend out
              else case slice_elems p blk i running pend out of
                     (running', pend', out') \<Rightarrow> slice_blocks p (i + packedScanBlock) running' pend' out'
      else (i, running, pend, out))"
  by pat_completeness auto
termination
  by (relation "measure (\<lambda>(p, i, r, t, out). nat (p_size p - int i))") (auto simp: packedScanBlock_def)

declare slice_blocks.simps [simp del]

function slice_tail :: "packed \<Rightarrow> nat \<Rightarrow> int \<Rightarrow> ptarget list \<Rightarrow> int list \<Rightarrow> int list" where
  "slice_tail p i running pend out =
     (if pend \<noteq> [] \<and> int i < p_size p
      then let running' = saturating_add running (slotGet p (int i))
           in case visit p i running' pend out of (pend', out') \<Rightarrow> slice_tail p (Suc i) running' pend' out'
      else out)"
  by pat_completeness auto
termination by (relation "measure (\<lambda>(p, i, r, t, out). nat (p_size p - int i))") auto

declare slice_tail.simps [simp del]

text \<open>\<open>sort.Slice\<close> gives some arrangement that is sorted by the target; it need not be stable. The
  parameter \<open>arrange\<close> is the arrangement it chooses.\<close>

definition ValueAtPercentilesSlice_p :: "(ptarget list \<Rightarrow> ptarget list) \<Rightarrow> bool \<Rightarrow> packed \<Rightarrow> f64 list \<Rightarrow> int list" where
  "ValueAtPercentilesSlice_p arrange fused p percentiles =
     (let n = length percentiles; out = replicate n 0
      in if n = 0 \<or> p_totalCount p = 0 then out
         else let order = arrange (map (\<lambda>i. let pc = clamp_percentile (percentiles ! i)
                                           in \<lparr>orig = i, isZero = feq pc (Fin 0), target = countAtPercentile fused p pc\<rparr>)
                                    [0..<n])
              in if p_width p = 1 \<or> p_width p = 2 \<or> p_width p = 4
                 then case slice_blocks p 0 0 order out of
                        (i, running, pend, out') \<Rightarrow> slice_tail p i running pend out'
                 else slice_tail p 0 0 order out)"

end
