(* ===== verification/Percentile_Rank.thy ===== *)
theory Percentile_Rank
  imports Percentile
begin

text \<open>
  The rank of a percentile: for every percentile, finite or not, and every positive total it is a
  rank of the total; it is monotone in the percentile, and up to \<open>2 ^ 50\<close> recorded values it is
  within one of the exact share of the total. The bounds rest on the monotonicity of rounding and on the numbers it
  keeps (\<open>dyadic\<close>), not on an analysis of the error.
\<close>

section \<open>The rank\<close>

lemma muladd_dyadic: "muladd fused x (Fin c) (Fin d) = Fin r \<Longrightarrow> dyadic r"
proof -
  have of: "of_rat64 y = Fin r \<Longrightarrow> dyadic r" for y
    by (auto simp: of_rat64_def Let_def dyadic_round64 split: if_splits)
  have add: "fadd z (Fin d) = Fin r \<Longrightarrow> dyadic r" for z using of by (cases z) auto
  show "muladd fused x (Fin c) (Fin d) = Fin r \<Longrightarrow> dyadic r"
    using of add by (cases fused; cases x) auto
qed

text \<open>The total as a floating-point number.\<close>

definition ftotal :: "int \<Rightarrow> rat" where
  "ftotal t = round64 (of_int t)"

lemma ftotal:
  assumes "1 \<le> t" "t \<le> MaxInt64"
  shows "of_int64 t = Fin (ftotal t)" and "1 \<le> ftotal t" and "ftotal t \<le> 2 ^ 63" and "dyadic (ftotal t)"
proof -
  have t: "(1::rat) \<le> of_int t" "(of_int t :: rat) \<le> 2 ^ 63" using assms by simp_all
  then have "(of_int t :: rat) \<le> 2 ^ 1023" using power_increasing [of 63 1023 "2::rat"] by (simp del: of_int_le_iff)
  then show "of_int64 t = Fin (ftotal t)" using t unfolding of_int64_def ftotal_def by (intro of_rat64_small) (simp only: abs_of_nonneg)
  show "1 \<le> ftotal t" using round64_mono [OF t(1)] round64_exact [OF dyadic_of_int [of 1]] by (simp add: ftotal_def)
  show "ftotal t \<le> 2 ^ 63" using round64_mono [OF t(2)] round64_exact [OF dyadic_power [of 63]] by (simp add: ftotal_def)
  show "dyadic (ftotal t)" by (simp add: ftotal_def dyadic_round64)
qed

text \<open>The value of \<open>rank\<close> before it is bounded, and the bounding.\<close>

definition raw_rank :: "bool \<Rightarrow> f64 \<Rightarrow> int \<Rightarrow> f64" where
  "raw_rank fused p t = muladd fused (fdiv (if fless (Fin 100) p then Fin 100 else p) 100) (Fin (ftotal t)) (Fin (1 / 2))"

definition bound_rank :: "int \<Rightarrow> f64 \<Rightarrow> int" where
  "bound_rank t r = (if \<not> fle (Fin 1) r then 1 else if fle (Fin (ftotal t)) r then t else to_int64 r)"

lemma percentileRank_eq:
  assumes "1 \<le> t" "t \<le> MaxInt64"
  shows "percentileRank fused p t = bound_rank t (raw_rank fused p t)"
  by (simp add: percentileRank_def bound_rank_def raw_rank_def Let_def ftotal(1) [OF assms])

definition computed :: "f64 \<Rightarrow> bool" where
  "computed R \<longleftrightarrow> (\<forall>r. R = Fin r \<longrightarrow> dyadic r)"

lemma raw_rank_dyadic: "computed (raw_rank fused p t)"
  unfolding raw_rank_def computed_def by (auto intro: muladd_dyadic)

lemma bound_rank_cases:
  assumes t: "1 \<le> t" "t \<le> MaxInt64" and d: "computed R"
  obtains (low) "\<not> fle (Fin 1) R" "bound_rank t R = 1"
    | (high) "fle (Fin (ftotal t)) R" "bound_rank t R = t"
    | (mid) r where "R = Fin r" "1 \<le> r" "r < ftotal t" "r < of_int t" "bound_rank t R = \<lfloor>r\<rfloor>"
proof -
  consider "\<not> fle (Fin 1) R" | "fle (Fin 1) R" "fle (Fin (ftotal t)) R" | r where "R = Fin r" "1 \<le> r" "r < ftotal t"
    by (cases R; cases "fle (Fin 1) R"; cases "fle (Fin (ftotal t)) R") auto
  then show ?thesis
  proof cases
    case 1
    then show ?thesis by (intro low) (simp_all add: bound_rank_def)
  next
    case 2
    then show ?thesis by (intro high) (simp_all add: bound_rank_def)
  next
    case (3 r)
    have "\<not> of_int t \<le> r"
      using round64_mono [of "of_int t" r] round64_exact [of r] d 3 by (auto simp: ftotal_def computed_def)
    then have r: "r < of_int t" by simp
    then have "\<lfloor>r\<rfloor> < t" by (simp add: floor_less_iff)
    moreover have tr: "trunc64 r = \<lfloor>r\<rfloor>" "1 \<le> \<lfloor>r\<rfloor>" using 3(2) by (simp_all add: trunc64_def)
    ultimately have "MinInt64 \<le> trunc64 r" "trunc64 r \<le> MaxInt64" using t by linarith+
    then have "to_int64 R = trunc64 r" by (simp add: to_int64_def 3(1))
    then have "to_int64 R = \<lfloor>r\<rfloor>" by (simp only: tr)
    with 3 r show ?thesis by (intro mid [of r]) (simp_all add: bound_rank_def not_le)
  qed
qed

lemma bound_rank_range:
  assumes "1 \<le> t" "t \<le> MaxInt64" "computed R"
  shows "1 \<le> bound_rank t R" and "bound_rank t R \<le> t"
proof -
  have "1 \<le> bound_rank t R \<and> bound_rank t R \<le> t"
    by (rule bound_rank_cases [OF assms]) (use assms(1) in \<open>auto simp: floor_le_iff\<close>)
  then show "1 \<le> bound_rank t R" "bound_rank t R \<le> t" by simp_all
qed

lemma bound_rank_mono:
  assumes t: "1 \<le> t" "t \<le> MaxInt64" and d: "computed R" "computed S"
    and le: "fle R S"
  shows "bound_rank t R \<le> bound_rank t S"
proof (rule bound_rank_cases [OF t d(1)])
  assume "bound_rank t R = 1"
  then show ?thesis using bound_rank_range(1) [OF t d(2)] by simp
next
  assume h: "fle (Fin (ftotal t)) R" "bound_rank t R = t"
  then have "fle (Fin (ftotal t)) S" "fle (Fin 1) S" using le fle_trans ftotal(2) [OF t] fle_simps(1) by metis+
  then show ?thesis using h by (simp add: bound_rank_def)
next
  fix r assume m: "R = Fin r" "1 \<le> r" "r < of_int t" "bound_rank t R = \<lfloor>r\<rfloor>"
  show ?thesis
  proof (rule bound_rank_cases [OF t d(2)])
    assume "\<not> fle (Fin 1) S"
    then show ?thesis using le m(1,2) fle_trans fle_simps(1) by metis
  next
    assume "bound_rank t S = t"
    then show ?thesis using m(3,4) by (simp add: floor_le_iff)
  next
    fix s assume "S = Fin s" "bound_rank t S = \<lfloor>s\<rfloor>"
    then show ?thesis using le m by (simp add: floor_mono)
  qed
qed

lemma rank_range:
  assumes "1 \<le> t" "t \<le> MaxInt64"
  shows "1 \<le> percentileRank fused p t" and "percentileRank fused p t \<le> t"
  using bound_rank_range [OF assms raw_rank_dyadic] by (simp_all add: percentileRank_eq [OF assms])

lemma rank_mono:
  assumes t: "1 \<le> t" "t \<le> MaxInt64" and le: "p \<le> q"
  shows "percentileRank fused p t \<le> percentileRank fused q t"
proof (cases "p = NaN")
  case True
  then have "percentileRank fused p t = 1"
    by (cases fused) (simp_all add: percentileRank_eq [OF t] raw_rank_def bound_rank_def)
  then show ?thesis using rank_range(1) [OF t] by simp
next
  case False
  then have "fle p q" using le by (simp add: less_eq_f64_def)
  then have "fle (if fless (Fin 100) p then Fin 100 else p) (if fless (Fin 100) q then Fin 100 else q)"
    by (cases p; cases q) auto
  then have "fle (raw_rank fused p t) (raw_rank fused q t)"
    unfolding raw_rank_def using ftotal(2) [OF t] by (intro muladd_mono fdiv_mono) simp_all
  then show ?thesis unfolding percentileRank_eq [OF t] by (rule bound_rank_mono [OF t raw_rank_dyadic raw_rank_dyadic])
qed

lemma rank_100:
  assumes t: "1 \<le> t" "t \<le> MaxInt64" and p: "fle (Fin 100) p"
  shows "percentileRank fused p t = t"
proof -
  note F = ftotal [OF t]
  have one: "of_rat64 1 = Fin 1" using of_rat64_fin [of 1] round64_exact [OF dyadic_of_int [of 1]] by simp
  have tot: "of_rat64 (ftotal t) = Fin (ftotal t)" using F by (subst of_rat64_fin) (simp_all add: round64_exact)
  have sum: "of_rat64 (ftotal t + 1 / 2) = Fin (round64 (ftotal t + 1 / 2))" using F(2,3) by (intro of_rat64_fin) simp
  have c: "(if fless (Fin 100) p then Fin 100 else p) = Fin 100" using p by (cases p) auto
  have "raw_rank fused p t = Fin (round64 (ftotal t + 1 / 2))"
    unfolding raw_rank_def c by (cases fused) (simp_all add: one tot sum)
  moreover have "ftotal t \<le> round64 (ftotal t + 1 / 2)"
    using round64_mono [of "ftotal t" "ftotal t + 1 / 2"] round64_exact [OF F(4)] by simp
  ultimately show ?thesis using F(2) by (simp add: percentileRank_eq [OF t] bound_rank_def)
qed

lemma round64_half: "round64 (1 / 2) = 1 / 2"
  by (rule round64_exact, rule dyadicI [of _ 1 "- 1"]) simp_all

lemma rank_0:
  assumes t: "1 \<le> t" "t \<le> MaxInt64" and p: "\<not> fless (Fin 0) p"
  shows "percentileRank fused p t = 1"
proof -
  have "p \<le> Fin 0" using p by (cases p) (auto simp: less_eq_f64_def)
  moreover have "percentileRank fused (Fin 0) t = 1"
    using of_rat64_fin [of 0] of_rat64_fin [of "1 / 2"]
    by (cases fused) (simp_all add: percentileRank_eq [OF t] bound_rank_def raw_rank_def round64_half round64_0)
  ultimately show ?thesis using rank_mono [OF t, of p "Fin 0" fused] rank_range(1) [OF t, of fused p] by simp
qed

lemma ftotal_exact: "1 \<le> t \<Longrightarrow> t \<le> 2 ^ 53 \<Longrightarrow> ftotal t = of_int t"
  unfolding ftotal_def by (intro round64_exact dyadic_of_int) simp

lemma round64_bounds:
  assumes "0 \<le> x" "x \<le> of_int k" "\<bar>k\<bar> \<le> 2 ^ 53"
  shows "0 \<le> round64 x" and "round64 x \<le> of_int k"
  using round64_mono [OF assms(1)] round64_mono [OF assms(2)] round64_exact [OF dyadic_of_int [OF assms(3)]]
  by (simp_all add: round64_0)

lemma round64_near:
  assumes "0 \<le> x" "x < 2 ^ 51"
  shows "\<bar>round64 x - x\<bar> \<le> 1 / 8"
  using round64_error [of x 51] assms by (simp add: power_int_def power3_eq_cube)

text \<open>Up to \<open>2 ^ 50\<close> recorded values, the unbounded rank is within 3/8 of the exact one.\<close>

lemma raw_rank_near:
  assumes t: "1 \<le> t" "t \<le> 2 ^ 50" and p: "0 \<le> p" "p \<le> 100"
  obtains r where "raw_rank fused (Fin p) t = Fin r" "\<bar>r - (p * of_int t / 100 + 1 / 2)\<bar> \<le> 3 / 8"
proof -
  define T where "T = (of_int t :: rat)"
  have T: "1 \<le> T" "T \<le> 2 ^ 50" using t by (simp_all add: T_def)
  define a where "a = round64 (p / 100)"
  have a: "0 \<le> a" "a \<le> 1" using round64_bounds [of "p / 100" 1] p by (simp_all add: a_def)
  have "\<bar>a - p / 100\<bar> \<le> 2 powi (1 - 54)" unfolding a_def using p by (intro round64_error) simp_all
  also have "(2::rat) powi (1 - 54) = 1 / 2 ^ 53" by (simp add: power_int_def power_one_over)
  finally have "\<bar>a - p / 100\<bar> * T \<le> 1 / 2 ^ 53 * 2 ^ 50" using T by (intro mult_mono) simp_all
  moreover have "\<bar>a - p / 100\<bar> * T = \<bar>a * T - p * T / 100\<bar>"
    using T by (simp add: abs_mult_pos left_diff_distrib)
  ultimately have e: "\<bar>a * T - p * T / 100\<bar> \<le> 1 / 8" by simp
  have "a * T \<le> 1 * 2 ^ 50" using a T by (intro mult_mono) simp_all
  then have aT: "0 \<le> a * T" "a * T \<le> of_int (2 ^ 50)" using a T by simp_all
  define y where "y = round64 (a * T)"
  have y: "0 \<le> y" "y \<le> 2 ^ 50" "\<bar>y - a * T\<bar> \<le> 1 / 8"
    using round64_bounds [OF aT] round64_near [of "a * T"] aT by (simp_all add: y_def)
  have fin: "of_rat64 (p / 100) = Fin a" "of_rat64 (a * T) = Fin y"
    "of_rat64 (y + 1 / 2) = Fin (round64 (y + 1 / 2))" "of_rat64 (a * T + 1 / 2) = Fin (round64 (a * T + 1 / 2))"
    unfolding a_def [symmetric] y_def [symmetric] using p aT y
    by (subst of_rat64_fin; simp add: a_def y_def)+
  have c: "(if fless (Fin 100) (Fin p) then Fin 100 else Fin p) = Fin p" using p by simp
  have raw: "raw_rank fused (Fin p) t = Fin (if fused then round64 (a * T + 1 / 2) else round64 (y + 1 / 2))"
    unfolding raw_rank_def c using ftotal_exact [of t] t by (cases fused) (simp_all add: fin flip: T_def)
  have "\<bar>round64 (a * T + 1 / 2) - (a * T + 1 / 2)\<bar> \<le> 1 / 8" "\<bar>round64 (y + 1 / 2) - (y + 1 / 2)\<bar> \<le> 1 / 8"
    using aT y by (intro round64_near; simp)+
  then have "\<bar>round64 (a * T + 1 / 2) - (p * T / 100 + 1 / 2)\<bar> \<le> 3 / 8"
    "\<bar>round64 (y + 1 / 2) - (p * T / 100 + 1 / 2)\<bar> \<le> 3 / 8" using y(3) e by linarith+
  then show ?thesis by (intro that [OF raw], unfold T_def [symmetric]) (cases fused; simp)
qed

lemma rank_near:
  assumes t: "1 \<le> t" "t \<le> 2 ^ 50" and p: "0 \<le> p" "p \<le> 100"
  shows "\<bar>of_int (percentileRank fused (Fin p) t) - p * of_int t / 100\<bar> \<le> (1 :: rat)"
proof -
  have t': "t \<le> MaxInt64" using t by simp
  obtain r where r: "raw_rank fused (Fin p) t = Fin r" "\<bar>r - (p * of_int t / 100 + 1 / 2)\<bar> \<le> 3 / 8"
    by (rule raw_rank_near [OF assms])
  define x where "x = p * of_int t / 100"
  have "p * of_int t \<le> 100 * of_int t" using p t by (intro mult_right_mono) simp_all
  then have x: "0 \<le> x" "x \<le> of_int t" using p t by (simp_all add: x_def)
  have d: "x - 7 / 8 \<le> r - 1" "r \<le> x + 7 / 8" using r(2) unfolding x_def [symmetric] by linarith+
  show ?thesis unfolding percentileRank_eq [OF t(1) t'] r(1) x_def [symmetric]
  proof (rule bound_rank_cases [OF t(1) t', of "Fin r"])
    show "computed (Fin r)" using raw_rank_dyadic [of fused "Fin p" t] r by simp
    show "\<not> fle (Fin 1) (Fin r) \<Longrightarrow> bound_rank t (Fin r) = 1 \<Longrightarrow> \<bar>of_int (bound_rank t (Fin r)) - x\<bar> \<le> 1"
      using d x by simp
    show "fle (Fin (ftotal t)) (Fin r) \<Longrightarrow> bound_rank t (Fin r) = t \<Longrightarrow> \<bar>of_int (bound_rank t (Fin r)) - x\<bar> \<le> 1"
      using d x t ftotal_exact [of t] by simp
    fix s assume "Fin r = Fin s" "bound_rank t (Fin r) = \<lfloor>s\<rfloor>"
    then have b: "bound_rank t (Fin r) = \<lfloor>r\<rfloor>" by simp
    show "\<bar>of_int (bound_rank t (Fin r)) - x\<bar> \<le> 1"
      unfolding b using d of_int_floor_le [of r] floor_correct [of r] by linarith
  qed
qed

lemma rank_clamp:
  assumes t: "1 \<le> t" "t \<le> MaxInt64"
  shows "percentileRank fused (clamp_percentile p) t = percentileRank fused p t"
proof -
  consider "fless (Fin 100) p" | "fless p (Fin 0)" "\<not> fless (Fin 100) p" | "clamp_percentile p = p"
    by (cases "fless (Fin 100) p"; cases "fless p (Fin 0)") (simp_all add: clamp_percentile_def)
  then show ?thesis
  proof cases
    case 1
    then have "fle (Fin 100) p" by (cases p) auto
    then show ?thesis using 1 rank_100 [OF t] by (simp add: clamp_percentile_def)
  next
    case 2
    then have "\<not> fless (Fin 0) p" by (cases p) auto
    then show ?thesis using 2 rank_0 [OF t] by (simp add: clamp_percentile_def)
  qed simp
qed

lemma feq_clamp: "feq (clamp_percentile p) (Fin 0) = fle p (Fin 0)"
  by (cases p) (auto simp: clamp_percentile_def)

section \<open>Properties\<close>

text \<open>C26: The rank of a percentile is a rank of the total: for every percentile, infinite or not a
  number included, and every total that fits, it is between 1 and the total. It is monotone in the
  percentile, in the order that has the values that are not numbers first; percentiles from 100
  on have the last rank, and percentiles up to 0 and values that are not numbers the first.\<close>

theorem percentileRank_correct:
  assumes "1 \<le> t" "t \<le> MaxInt64"
  shows "1 \<le> percentileRank fused p t \<and> percentileRank fused p t \<le> t \<and>
         (p \<le> q \<longrightarrow> percentileRank fused p t \<le> percentileRank fused q t) \<and>
         (fle (Fin 100) p \<longrightarrow> percentileRank fused p t = t) \<and>
         (\<not> fless (Fin 0) p \<longrightarrow> percentileRank fused p t = 1)"
  by (intro conjI impI rank_range [OF assms] rank_mono [OF assms] rank_100 [OF assms] rank_0 [OF assms])

theorem percentileRank_correct_witness:
  "1 \<le> percentileRank True (Fin 50) 1000 \<and> percentileRank True (Fin 50) 1000 \<le> 1000 \<and>
   percentileRank True (Fin 50) 1000 \<le> percentileRank True (Fin (999 / 10)) 1000 \<and>
   percentileRank False (Inf False) 1000 = 1000 \<and> percentileRank False NaN 1000 = 1"
proof (intro conjI)
  have t: "(1::int) \<le> 1000" "(1000::int) \<le> MaxInt64" by simp_all
  note c = percentileRank_correct [OF t]
  show "1 \<le> percentileRank True (Fin 50) 1000" using c by blast
  show "percentileRank True (Fin 50) 1000 \<le> 1000" using c by blast
  have "Fin 50 \<le> Fin (999 / 10)" by (simp add: less_eq_f64_def)
  then show "percentileRank True (Fin 50) 1000 \<le> percentileRank True (Fin (999 / 10)) 1000" using c by blast
  have "fle (Fin 100) (Inf False)" "\<not> fless (Fin 0) NaN" by simp_all
  then show "percentileRank False (Inf False) 1000 = 1000" "percentileRank False NaN 1000 = 1" using c by blast+
qed

text \<open>C27: Up to \<open>2 ^ 50\<close> recorded values the rank is within one of the exact share of the total, with
  the roundings of a separate or a fused multiplication and addition.\<close>

theorem percentileRank_accurate:
  assumes "1 \<le> t" "t \<le> 2 ^ 50" "0 \<le> p" "p \<le> 100"
  shows "\<bar>of_int (percentileRank fused (Fin p) t) - p * of_int t / 100\<bar> \<le> 1"
  using assms by (rule rank_near)

theorem percentileRank_accurate_witness:
  "\<bar>of_int (percentileRank False (Fin (999 / 10)) 1000000) - (999000 :: rat)\<bar> \<le> 1"
  using percentileRank_accurate [of 1000000 "999 / 10" False] by simp

end
