(* ===== verification/Percentile_Spec.thy ===== *)
theory Percentile_Spec
  imports Percentile_Rank Packed_Spec
begin

text \<open>
  Correctness of the percentile queries of the dense histogram. The blocked scans find the first
  position at which the cumulative count reaches a target (\<open>first_reach\<close>); on a histogram that
  represents a multiset this is the bucket of the value with that rank (\<open>kth_smallest\<close>). The queries
  for many percentiles, in one pass over sorted targets, give what the query for one gives.
\<close>

section \<open>The scans\<close>

text \<open>The position at which the cumulative count first reaches a target.\<close>

definition first_reach :: "int list \<Rightarrow> int \<Rightarrow> nat" where
  "first_reach cs t = (LEAST k. t \<le> sum_list (take (Suc k) cs))"

text \<open>The counts of a histogram: non-negative, with a sum that fits.\<close>

definition countable_sum :: "int list \<Rightarrow> bool" where
  "countable_sum cs \<longleftrightarrow> (\<forall>c \<in> set cs. 0 \<le> c) \<and> sum_list cs \<le> MaxInt64"

lemma prefix_sum_mono:
  assumes "\<forall>c \<in> set cs. 0 \<le> (c::int)" "i \<le> j"
  shows "sum_list (take i cs) \<le> sum_list (take j cs)"
proof -
  have "sum_list (take i (take j cs)) \<le> sum_list (take j cs)"
    using assms(1) by (intro prefix_sum_le) (auto dest: in_set_takeD)
  then show ?thesis using assms(2) by (simp add: min_absorb1)
qed

lemma first_reach_at:
  assumes "\<forall>x \<in> set (pre @ c # post). 0 \<le> x" "sum_list pre < t" "t \<le> sum_list pre + c"
  shows "first_reach (pre @ c # post) t = length pre"
  unfolding first_reach_def
proof (rule Least_equality)
  show "t \<le> sum_list (take (Suc (length pre)) (pre @ c # post))" using assms(3) by simp
  fix k assume k: "t \<le> sum_list (take (Suc k) (pre @ c # post))"
  show "length pre \<le> k"
  proof (rule ccontr)
    assume "\<not> length pre \<le> k"
    then have "sum_list (take (Suc k) (pre @ c # post)) \<le> sum_list (take (length pre) (pre @ c # post))"
      using assms(1) by (intro prefix_sum_mono) simp_all
    then show False using k assms(2) by simp
  qed
qed

lemma countable_sum_parts:
  assumes "countable_sum (pre @ cs @ post)"
  shows "0 \<le> sum_list pre" "0 \<le> sum_list cs" "0 \<le> sum_list post" "sum_list pre + sum_list cs \<le> MaxInt64"
    "i64 (sum_list pre + sum_list cs) = sum_list pre + sum_list cs" "i64 (sum_list cs) = sum_list cs"
proof -
  show p: "0 \<le> sum_list pre" "0 \<le> sum_list cs" "0 \<le> sum_list post"
    using assms by (auto simp: countable_sum_def intro: sum_list_nonneg_int)
  show s: "sum_list pre + sum_list cs \<le> MaxInt64" using assms p by (simp add: countable_sum_def)
  show "i64 (sum_list pre + sum_list cs) = sum_list pre + sum_list cs" "i64 (sum_list cs) = sum_list cs"
    using p s by (simp_all add: width_simps)
qed

lemma scan_elems_reach:
  assumes "countable_sum (pre @ cs @ post)" "sum_list pre < t"
  shows "scan_elems cs (length pre) (sum_list pre) t =
           (if t \<le> sum_list pre + sum_list cs
            then (Some (first_reach (pre @ cs @ post) t), sum_list (take (Suc (first_reach (pre @ cs @ post) t)) (pre @ cs @ post)))
            else (None, sum_list pre + sum_list cs))"
  using assms
proof (induction cs arbitrary: pre)
  case (Cons c cs)
  have w: "i64 (sum_list pre + c) = sum_list pre + c"
    using countable_sum_parts(5) [of pre "[c]" "cs @ post"] Cons.prems by simp
  show ?case
  proof (cases "t \<le> sum_list pre + c")
    case True
    then have "first_reach (pre @ (c # cs) @ post) t = length pre"
      using first_reach_at [of pre c "cs @ post"] Cons.prems by (auto simp: countable_sum_def)
    moreover have "0 \<le> sum_list cs" using countable_sum_parts(2) [of "pre @ [c]" cs post] Cons.prems by simp
    ultimately show ?thesis using True w by simp
  next
    case False
    then show ?thesis using Cons.IH [of "pre @ [c]"] Cons.prems w by (simp add: add.assoc)
  qed
qed simp

lemma scan_blocks_reach:
  assumes "countable_sum (pre @ cs)" "sum_list pre < t" "t \<le> sum_list (pre @ cs)"
  shows "scan_blocks cs (length pre) (sum_list pre) t = Some (first_reach (pre @ cs) t)"
  using assms
proof (induction cs arbitrary: pre rule: length_induct)
  case (1 cs)
  let ?b = "take scanBlock cs" and ?d = "drop scanBlock cs"
  show ?case
  proof (cases "scanBlock \<le> length cs")
    case True
    have split: "pre @ cs = pre @ ?b @ ?d" "pre @ cs = (pre @ ?b) @ ?d" by simp_all
    note parts = countable_sum_parts [of pre ?b ?d, folded split(1), OF "1.prems"(1)]
    have s: "i64 (sum_list ?b) = sum_list ?b" "i64 (sum_list pre + sum_list ?b) = sum_list (pre @ ?b)"
      using parts by simp_all
    show ?thesis
    proof (cases "t \<le> sum_list (pre @ ?b)")
      case reach: True
      then show ?thesis
        using True s scan_elems_reach [of pre ?b ?d t] "1.prems" by (subst scan_blocks.simps) (simp add: Let_def)
    next
      case False
      have "length (pre @ ?b) = length pre + scanBlock" using True by simp
      moreover have "scan_blocks ?d (length (pre @ ?b)) (sum_list (pre @ ?b)) t = Some (first_reach ((pre @ ?b) @ ?d) t)"
        using "1.IH" [rule_format, of ?d "pre @ ?b"] "1.prems" False True
        unfolding split(2) [symmetric] by (simp add: scanBlock_def)
      ultimately show ?thesis using True False s unfolding split(2) [symmetric]
        by (subst scan_blocks.simps) (simp add: Let_def)
    qed
  next
    case False
    then show ?thesis
      using scan_elems_reach [of pre cs "[]" t] "1.prems" by (subst scan_blocks.simps) simp
  qed
qed

section \<open>Ranks of a multiset\<close>

definition kth_smallest :: "int multiset \<Rightarrow> int \<Rightarrow> int" where
  "kth_smallest M r = sorted_list_of_multiset M ! nat (r - 1)"

lemma length_sorted_list_of_multiset [simp]: "length (sorted_list_of_multiset M) = size M"
  by (metis mset_sorted_list_of_multiset size_mset)

lemma kth_smallest_mem: "1 \<le> r \<Longrightarrow> r \<le> int (size M) \<Longrightarrow> kth_smallest M r \<in># M"
proof -
  assume r: "1 \<le> r" "r \<le> int (size M)"
  have "nat (r - 1) < length (sorted_list_of_multiset M)" using r by simp
  then have "kth_smallest M r \<in> set (sorted_list_of_multiset M)" unfolding kth_smallest_def by (rule nth_mem)
  then show ?thesis by simp
qed

text \<open>In a sorted list, a predicate that smaller elements inherit holds for at least \<open>Suc k\<close> of them if and
  only if it holds for the one at position \<open>k\<close>.\<close>

lemma sorted_count_iff:
  assumes "sorted xs" "k < length xs" "\<And>x y. x \<in> set xs \<Longrightarrow> y \<in> set xs \<Longrightarrow> x \<le> y \<Longrightarrow> P y \<Longrightarrow> P x"
  shows "Suc k \<le> length (filter P xs) \<longleftrightarrow> P (xs ! k)"
  using assms
proof (induction xs arbitrary: k)
  case (Cons x xs)
  show ?case
  proof (cases "P x")
    case True
    show ?thesis
    proof (cases k)
      case (Suc j)
      have "Suc j \<le> length (filter P xs) \<longleftrightarrow> P (xs ! j)"
      proof (rule Cons.IH)
        show "P y" if "y \<in> set xs" "z \<in> set xs" "y \<le> z" "P z" for y z
          using Cons.prems(3) [of y z] that by simp
      qed (use Cons.prems(1,2) Suc in simp_all)
      then show ?thesis using True Suc by simp
    qed (simp add: True)
  next
    case False
    have none: "\<not> P y" if "y \<in> set xs" for y using Cons.prems(1,3) that False by auto
    then have "filter P xs = []" by (simp add: filter_empty_conv)
    moreover have "\<not> P ((x # xs) ! k)" using none False Cons.prems(2) by (cases k) auto
    ultimately show ?thesis using False by simp
  qed
qed simp

lemma prefix_count:
  assumes r: "represents h M" and k: "k \<le> length (counts h)"
  shows "sum_list (take k (counts h)) = int (size {#v \<in># M. countsIndexFor h v < int k#})"
  using k
proof (induction k)
  case 0
  have "{#v \<in># M. countsIndexFor h v < 0#} = {#}"
    using r in_array_index(1) [of h]
    by (subst filter_mset_cong [OF refl, of M _ "\<lambda>_. False"]) (auto simp: represents_def not_less)
  then show ?case by simp
next
  case (Suc k)
  have "{#v \<in># M. countsIndexFor h v < int (Suc k)#} =
        {#v \<in># M. countsIndexFor h v < int k#} + {#v \<in># M. countsIndexFor h v = int k#}"
    by (auto simp: multiset_eq_iff)
  moreover have "counts h ! k = int (size {#v \<in># M. countsIndexFor h v = int k#})"
    using r Suc.prems by (simp add: represents_def)
  ultimately show ?case using Suc by (simp add: take_Suc_conv_app_nth)
qed

lemma represents_countable: "represents h M \<Longrightarrow> countable_sum (counts h)"
  by (simp add: represents_def hist_ok_def countable_sum_def)

lemma first_reach_rank:
  assumes r: "represents h M" and k: "1 \<le> r" "r \<le> int (size M)"
  shows "first_reach (counts h) r = nat (countsIndexFor h (kth_smallest M r))"
proof -
  from r have h: "hist_ok h" and g: "geom_ok h" and A: "\<And>v. v \<in># M \<Longrightarrow> in_array h v"
    by (auto simp: represents_def hist_ok_def)
  let ?xs = "sorted_list_of_multiset M" and ?v = "kth_smallest M r"
  have v: "in_array h ?v" by (rule A [OF kth_smallest_mem [OF k]])
  have iff: "r \<le> sum_list (take (Suc j) (counts h)) \<longleftrightarrow> countsIndexFor h ?v \<le> int j" if j: "j < length (counts h)" for j
  proof -
    have "size {#v \<in># M. countsIndexFor h v < int (Suc j)#} = length (filter (\<lambda>v. countsIndexFor h v < int (Suc j)) ?xs)"
      by (metis mset_filter mset_sorted_list_of_multiset size_mset)
    moreover have "Suc (nat (r - 1)) \<le> length (filter (\<lambda>v. countsIndexFor h v < int (Suc j)) ?xs) \<longleftrightarrow>
      countsIndexFor h (?xs ! nat (r - 1)) < int (Suc j)"
      using k countsIndexFor_mono [OF g] A
      by (intro sorted_count_iff) (auto simp: in_array_def intro: le_less_trans)
    ultimately show ?thesis
      using prefix_count [OF r, of "Suc j"] j k by (simp add: kth_smallest_def) linarith
  qed
  note vi = in_array_index [OF h v]
  show ?thesis unfolding first_reach_def
  proof (rule Least_equality)
    show "r \<le> sum_list (take (Suc (nat (countsIndexFor h ?v))) (counts h))" using iff vi by simp
    fix j assume j: "r \<le> sum_list (take (Suc j) (counts h))"
    show "nat (countsIndexFor h ?v) \<le> j"
    proof (cases "j < length (counts h)")
      case True
      then show ?thesis using iff j by simp
    next
      case False
      then show ?thesis using vi by linarith
    qed
  qed
qed

section \<open>One percentile\<close>

text \<open>The value the specification gives for a percentile: the recorded value of its rank, up to
  equivalence.\<close>

definition percentile_of :: "bool \<Rightarrow> histogram \<Rightarrow> int multiset \<Rightarrow> f64 \<Rightarrow> int" where
  "percentile_of fused h M p =
     (if M = {#} then 0
      else let v = kth_smallest M (percentileRank fused p (int (size M)))
           in if fle p (Fin 0) then lowestEquivalentValue h v else highestEquivalentValue h v)"

lemma represents_size: "represents h M \<Longrightarrow> int (size M) \<le> MaxInt64"
  using represents_total [of h M] represents_ok [of h M] by (simp add: hist_ok_def)

lemma rank_in_size:
  assumes "represents h M" "M \<noteq> {#}"
  shows "1 \<le> percentileRank fused p (int (size M))" "percentileRank fused p (int (size M)) \<le> int (size M)"
proof -
  have "1 \<le> int (size M)" using assms(2) by (cases M) auto
  then show "1 \<le> percentileRank fused p (int (size M))" "percentileRank fused p (int (size M)) \<le> int (size M)"
    using rank_range represents_size [OF assms(1)] by simp_all
qed

lemma i32_index: "hist_ok h \<Longrightarrow> in_array h v \<Longrightarrow> i32 (countsIndexFor h v) = countsIndexFor h v"
  using countsLen_bound [of h] in_array_index [of h v] by (intro i32_id) (auto simp: hist_ok_def)

text \<open>A target resolved to its flat index reports the specified value.\<close>

lemma value_reported_rank:
  assumes r: "represents h M" and M: "M \<noteq> {#}"
  shows "value_reported h p (int (first_reach (counts h) (percentileRank fused p (totalCount h)))) = percentile_of fused h M p"
proof -
  let ?v = "kth_smallest M (percentileRank fused p (int (size M)))"
  have h: "hist_ok h" using r by (rule represents_ok)
  have v: "in_array h ?v" using r kth_smallest_mem [OF rank_in_size [OF r M]] by (simp add: represents_def)
  show ?thesis
    using first_reach_rank [OF r rank_in_size [OF r M], of fused p] in_array_index(1) [OF h v] M
    by (simp add: represents_total [OF r] value_reported_def percentile_of_def i32_index [OF h v] index_value_equivalent [OF h v] Let_def)
qed

lemma hist_total_range: "hist_ok h \<Longrightarrow> totalCount h \<noteq> 0 \<Longrightarrow> 1 \<le> totalCount h \<and> totalCount h \<le> MaxInt64"
  using sum_list_nonneg_int [of "counts h"] by (auto simp: hist_ok_def)

lemma ValueAtPercentile_reach:
  assumes h: "hist_ok h" and n: "totalCount h \<noteq> 0"
  shows "ValueAtPercentile fused h p = value_reported h p (int (first_reach (counts h) (percentileRank fused p (totalCount h))))"
proof -
  note t = hist_total_range [OF h n, THEN conjunct1] hist_total_range [OF h n, THEN conjunct2]
  have "scan_blocks (counts h) 0 0 (percentileRank fused p (totalCount h)) =
      Some (first_reach (counts h) (percentileRank fused p (totalCount h)))"
    using scan_blocks_reach [of "[]" "counts h" "percentileRank fused p (totalCount h)"] rank_range [OF t, of fused p] h
    by (simp add: hist_ok_def countable_sum_def)
  then show ?thesis
    using n by (simp add: ValueAtPercentile_def value_reported_def getValueFromIdxUpToCount_def rank_clamp [OF t] feq_clamp Let_def)
qed

lemma ValueAtPercentile_eq:
  assumes r: "represents h M"
  shows "ValueAtPercentile fused h p = percentile_of fused h M p"
proof (cases "M = {#}")
  case True
  then show ?thesis using represents_total [OF r] by (simp add: ValueAtPercentile_def percentile_of_def)
next
  case False
  then have "totalCount h \<noteq> 0" by (simp add: represents_total [OF r])
  then show ?thesis
    using ValueAtPercentile_reach [OF represents_ok [OF r]] value_reported_rank [OF r False] by simp
qed

section \<open>Many targets in one pass\<close>

lemma takeWhile_split:
  assumes "a \<le> (b :: int)"
  shows "takeWhile (\<lambda>t. t \<le> b) ts = takeWhile (\<lambda>t. t \<le> a) ts @ takeWhile (\<lambda>t. t \<le> b) (dropWhile (\<lambda>t. t \<le> a) ts)"
    and "dropWhile (\<lambda>t. t \<le> b) ts = dropWhile (\<lambda>t. t \<le> b) (dropWhile (\<lambda>t. t \<le> a) ts)"
  using assms by (induction ts) auto

lemma dropWhile_above: "sorted ts \<Longrightarrow> t \<in> set (dropWhile (\<lambda>t. t \<le> a) ts) \<Longrightarrow> (a :: int) < t"
  by (induction ts) (auto split: if_splits)

lemma drain_eq:
  "drain a i dn ts = (dn @ map (\<lambda>_. int i) (takeWhile (\<lambda>t. t \<le> a) ts), dropWhile (\<lambda>t. t \<le> a) ts)"
  by (induction ts arbitrary: dn) auto

lemma takeWhile_none: "\<forall>t \<in> set ts. (a :: int) < t \<Longrightarrow> takeWhile (\<lambda>t. t \<le> a) ts = [] \<and> dropWhile (\<lambda>t. t \<le> a) ts = ts"
  by (cases ts) auto

lemma targets_elems_reach:
  assumes "countable_sum (pre @ cs @ post)" "sorted pend" "\<forall>t \<in> set pend. sum_list pre < t"
  shows "\<exists>T. targets_elems cs (length pre) (sum_list pre) dn pend =
           (T, dn @ map (\<lambda>t. int (first_reach (pre @ cs @ post) t)) (takeWhile (\<lambda>t. t \<le> sum_list pre + sum_list cs) pend),
            dropWhile (\<lambda>t. t \<le> sum_list pre + sum_list cs) pend) \<and>
         (dropWhile (\<lambda>t. t \<le> sum_list pre + sum_list cs) pend \<noteq> [] \<longrightarrow> T = sum_list pre + sum_list cs)"
  using assms
proof (induction cs arbitrary: pre dn pend)
  case Nil
  then show ?case using takeWhile_none [of pend "sum_list pre"] by simp
next
  case (Cons c cs)
  let ?a = "sum_list pre + c" and ?b = "sum_list pre + sum_list (c # cs)" and ?fs = "pre @ (c # cs) @ post"
  let ?hit = "takeWhile (\<lambda>t. t \<le> ?a) pend" and ?rest = "dropWhile (\<lambda>t. t \<le> ?a) pend"
  have w: "i64 ?a = ?a" using countable_sum_parts(5) [of pre "[c]" "cs @ post"] Cons.prems by simp
  have ab: "?a \<le> ?b" using countable_sum_parts(2) [of "pre @ [c]" cs post] Cons.prems by simp
  have "map (\<lambda>_. int (length pre)) ?hit = map (\<lambda>t. int (first_reach ?fs t)) ?hit"
  proof (rule map_cong [OF refl])
    fix t assume "t \<in> set ?hit"
    then have "t \<le> ?a" "t \<in> set pend" by (auto dest: set_takeWhileD)
    then show "int (length pre) = int (first_reach ?fs t)"
      using first_reach_at [of pre c "cs @ post" t] Cons.prems by (auto simp: countable_sum_def)
  qed
  then have d: "drain ?a (length pre) dn pend = (dn @ map (\<lambda>t. int (first_reach ?fs t)) ?hit, ?rest)"
    by (simp add: drain_eq)
  note split = takeWhile_split [OF ab, of pend]
  have step: "targets_elems (c # cs) (length pre) (sum_list pre) dn pend =
      (case (dn @ map (\<lambda>t. int (first_reach ?fs t)) ?hit, ?rest) of
         (dn', []) \<Rightarrow> (?a, dn', [])
       | (dn', pend') \<Rightarrow> targets_elems cs (Suc (length pre)) ?a dn' pend')"
    by (simp only: targets_elems.simps Let_def w d)
  show ?case
  proof (cases ?rest)
    case Nil
    then have e: "takeWhile (\<lambda>t. t \<le> ?b) pend = ?hit" "dropWhile (\<lambda>t. t \<le> ?b) pend = []"
      using split by (simp_all only: takeWhile.simps dropWhile.simps append_Nil2)
    show ?thesis unfolding step Nil e by simp
  next
    case (Cons u us)
    have "\<forall>t \<in> set ?rest. sum_list (pre @ [c]) < t" using dropWhile_above [OF Cons.prems(2)] by simp
    moreover have "sorted ?rest" using Cons.prems(2) by (rule sorted_dropWhile)
    ultimately obtain T where
      "targets_elems cs (length (pre @ [c])) (sum_list (pre @ [c])) (dn @ map (\<lambda>t. int (first_reach ?fs t)) ?hit) ?rest =
        (T, (dn @ map (\<lambda>t. int (first_reach ?fs t)) ?hit) @ map (\<lambda>t. int (first_reach ?fs t)) (takeWhile (\<lambda>t. t \<le> ?b) ?rest),
         dropWhile (\<lambda>t. t \<le> ?b) ?rest)"
      "dropWhile (\<lambda>t. t \<le> ?b) ?rest \<noteq> [] \<longrightarrow> T = ?b"
      using Cons.IH [of "pre @ [c]" ?rest "dn @ map (\<lambda>t. int (first_reach ?fs t)) ?hit"] Cons.prems(1)
      by (auto simp: add.assoc)
    then show ?thesis unfolding step split Cons by simp
  qed
qed

lemma targets_blocks_reach:
  assumes "countable_sum (pre @ cs)" "sorted pend" "pend \<noteq> []"
    "\<forall>t \<in> set pend. sum_list pre < t \<and> t \<le> sum_list (pre @ cs)"
  shows "targets_blocks cs (length pre) (sum_list pre) dn pend = (dn @ map (\<lambda>t. int (first_reach (pre @ cs) t)) pend, [])"
  using assms
proof (induction cs arbitrary: pre dn pend rule: length_induct)
  case (1 cs)
  let ?b = "take scanBlock cs" and ?d = "drop scanBlock cs" and ?f = "\<lambda>t. int (first_reach (pre @ cs) t)"
  show ?case
  proof (cases "scanBlock \<le> length cs")
    case True
    have join: "pre @ ?b @ ?d = pre @ cs" "(pre @ ?b) @ ?d = pre @ cs" by simp_all
    let ?S = "sum_list (pre @ ?b)"
    note parts = countable_sum_parts [of pre ?b ?d, unfolded join(1), OF "1.prems"(1)]
    have s: "i64 (sum_list ?b) = sum_list ?b" "i64 (sum_list pre + sum_list ?b) = ?S" using parts by simp_all
    have len: "length pre + scanBlock = length (pre @ ?b)" "length ?d < length cs" using True by (simp_all add: scanBlock_def)
    have IH: "targets_blocks ?d (length (pre @ ?b)) ?S dn' ts = (dn' @ map ?f ts, [])"
      if "sorted ts" "ts \<noteq> []" "\<forall>t \<in> set ts. ?S < t \<and> t \<in> set pend" for dn' ts
      using "1.IH" [rule_format, of ?d "pre @ ?b" ts dn'] "1.prems"(1,4) len that by (simp only: join) blast
    obtain T where T: "targets_elems ?b (length pre) (sum_list pre) dn pend =
        (T, dn @ map ?f (takeWhile (\<lambda>t. t \<le> ?S) pend), dropWhile (\<lambda>t. t \<le> ?S) pend)"
      "dropWhile (\<lambda>t. t \<le> ?S) pend \<noteq> [] \<longrightarrow> T = ?S"
      using targets_elems_reach [of pre ?b ?d pend dn, unfolded join(1)] "1.prems" unfolding sum_list_append by blast
    show ?thesis
    proof (cases "?S < hd pend")
      case hd: True
      then have "\<forall>t \<in> set pend. ?S < t" using "1.prems"(2,3) by (cases pend) auto
      then have "targets_blocks ?d (length (pre @ ?b)) ?S dn pend = (dn @ map ?f pend, [])"
        using "1.prems"(2,3) by (intro IH) simp_all
      then show ?thesis using hd True by (subst targets_blocks.simps) (simp only: Let_def s if_True len)
    next
      case hd: False
      have unfold: "targets_blocks cs (length pre) (sum_list pre) dn pend =
          (case (T, dn @ map ?f (takeWhile (\<lambda>t. t \<le> ?S) pend), dropWhile (\<lambda>t. t \<le> ?S) pend) of
             (T, dn', []) \<Rightarrow> (dn', [])
           | (T, dn', pend') \<Rightarrow> targets_blocks ?d (length (pre @ ?b)) T dn' pend')"
        using True hd by (subst targets_blocks.simps) (simp only: Let_def s if_True if_False T len)
      note all = takeWhile_dropWhile_id [of "\<lambda>t. t \<le> ?S" pend]
      show ?thesis
      proof (cases "dropWhile (\<lambda>t. t \<le> ?S) pend")
        case Nil
        then have e: "takeWhile (\<lambda>t. t \<le> ?S) pend = pend" using all by (simp only: append_Nil2)
        show ?thesis unfolding unfold Nil e by simp
      next
        case (Cons u us)
        have "\<forall>t \<in> set (u # us). ?S < t \<and> t \<in> set pend"
          using dropWhile_above [OF "1.prems"(2), of _ ?S] set_dropWhileD [of _ "\<lambda>t. t \<le> ?S" pend] unfolding Cons by blast
        moreover have "sorted (u # us)" using sorted_dropWhile [OF "1.prems"(2), of "\<lambda>t. t \<le> ?S"] unfolding Cons .
        ultimately have "targets_blocks ?d (length (pre @ ?b)) ?S (dn @ map ?f (takeWhile (\<lambda>t. t \<le> ?S) pend)) (u # us) =
            ((dn @ map ?f (takeWhile (\<lambda>t. t \<le> ?S) pend)) @ map ?f (u # us), [])"
          by (intro IH) simp_all
        moreover have "map ?f (takeWhile (\<lambda>t. t \<le> ?S) pend) @ map ?f (u # us) = map ?f pend"
          by (simp only: Cons all flip: map_append) (simp only: all [unfolded Cons])
        moreover have "T = ?S" using T(2) unfolding Cons by simp
        ultimately show ?thesis unfolding unfold Cons by (simp only: prod.case list.case append_assoc)
      qed
    qed
  next
    case False
    have all: "takeWhile (\<lambda>t. t \<le> sum_list pre + sum_list cs) pend = pend"
      "dropWhile (\<lambda>t. t \<le> sum_list pre + sum_list cs) pend = []"
      using "1.prems"(4) by (simp_all add: takeWhile_eq_all_conv)
    obtain T where "targets_elems cs (length pre) (sum_list pre) dn pend = (T, dn @ map ?f pend, [])"
      using targets_elems_reach [of pre cs "[]" pend dn] "1.prems" unfolding all by auto
    then show ?thesis using False by (subst targets_blocks.simps) simp
  qed
qed

lemma scanTargets_eq:
  assumes r: "represents h M" and s: "sorted ts" and t: "\<forall>t \<in> set ts. 1 \<le> t \<and> t \<le> int (size M)"
  shows "scanTargets h ts = (map (\<lambda>t. int (first_reach (counts h) t)) ts, length ts)"
proof (cases "ts = []")
  case False
  have "sum_list (counts h) = int (size M)"
    using represents_total [OF r] represents_ok [OF r] by (simp add: hist_ok_def)
  then have "\<forall>t \<in> set ts. sum_list [] < t \<and> t \<le> sum_list ([] @ counts h)" using t by auto
  then have "targets_blocks (counts h) 0 0 [] ts = (map (\<lambda>t. int (first_reach (counts h) t)) ts, [])"
    using targets_blocks_reach [of "[]" "counts h" ts "[]"] represents_countable [OF r] s False by simp
  then show ?thesis using False by (simp add: scanTargets_def)
qed (simp add: scanTargets_def)

lemma ascending_sorted: "ascending ts = sorted ts"
  by (induction ts rule: ascending.induct) (auto intro: order_trans)

lemma foldl_update:
  "foldl (\<lambda>r i. r[i := F i]) r xs = map (\<lambda>i. if i \<in> set xs then F i else r ! i) [0..<length r]"
proof (induction xs arbitrary: r)
  case (Cons x xs)
  show ?case unfolding foldl.simps Cons.IH by (rule nth_equalityI) (auto simp: nth_list_update)
qed (simp add: map_nth)

lemma foldl_update_all:
  assumes "set xs = {..<length r}"
  shows "foldl (\<lambda>r i. r[i := F i]) r xs = map F [0..<length r]"
  unfolding foldl_update using assms by (intro map_cong) auto

lemma foldl_positions: "foldl (\<lambda>a k. f a (xs ! k)) z [0..<length xs] = foldl f z xs"
  using foldl_map [of f z "(!) xs" "[0..<length xs]"] by (simp add: map_nth)

lemma sort_map_key: "sort (map f xs) = map f (sort_key f xs)"
  by (intro properties_for_sort) simp_all

lemma ValueAtPercentilesSlice_eq:
  assumes r: "represents h M"
  shows "ValueAtPercentilesSlice fused h ps = map (percentile_of fused h M) ps"
proof (cases "ps = [] \<or> M = {#}")
  case True
  then show ?thesis using represents_total [OF r]
    by (auto simp: ValueAtPercentilesSlice_def percentile_of_def Let_def map_replicate_const intro: nth_equalityI)
next
  case False
  let ?n = "length ps" and ?rank = "\<lambda>p. percentileRank fused p (totalCount h)" and ?reach = "\<lambda>t. int (first_reach (counts h) t)"
  let ?F = "\<lambda>i. percentile_of fused h M (ps ! i)" and ?ts = "map (\<lambda>p. percentileRank fused p (totalCount h)) ps"
  have M: "M \<noteq> {#}" using False by simp
  have nz: "totalCount h \<noteq> 0" using M by (simp add: represents_total [OF r])
  have rng: "\<forall>t \<in> set ?ts. 1 \<le> t \<and> t \<le> int (size M)" using rank_in_size [OF r M] by (auto simp: represents_total [OF r])
  have val: "value_reported h (ps ! i) (?reach (?ts ! i)) = ?F i" if "i < ?n" for i
    using that value_reported_rank [OF r M] by simp
  have out: "map ?F [0..<?n] = map (percentile_of fused h M) ps"
    using map_nth [of ps] map_map [of "percentile_of fused h M" "(!) ps" "[0..<?n]"] by (simp add: comp_def)
  show ?thesis
  proof (cases "ascending ?ts")
    case asc: True
    have "foldl (\<lambda>r i. r[i := value_reported h (ps ! i) (map ?reach ?ts ! i)]) (replicate ?n 0) [0..<?n] =
      foldl (\<lambda>r i. r[i := ?F i]) (replicate ?n 0) [0..<?n]"
      using val by (intro foldl_cong) (auto simp del: map_map)
    also have "\<dots> = map ?F [0..<?n]" by (subst foldl_update_all) auto
    finally show ?thesis
      using False asc nz scanTargets_eq [OF r _ rng]
      by (simp add: ValueAtPercentilesSlice_def Let_def ascending_sorted out del: map_map)
  next
    case asc: False
    define ord where "ord = sort_key (\<lambda>i. ?ts ! i) [0..<?n]"
    have ord: "set ord = {..<?n}" "length ord = ?n" "mset ord = mset [0..<?n]" by (auto simp: ord_def)
    have "sort ?ts = sort (map ((!) ?ts) [0..<?n])" using map_nth [of ?ts] by simp
    then have st: "sort ?ts = map (\<lambda>i. ?ts ! i) ord" by (simp add: ord_def sort_map_key)
    have "foldl (\<lambda>r k. r[ord ! k := value_reported h (ps ! (ord ! k)) (map ?reach (sort ?ts) ! k)]) (replicate ?n 0) [0..<?n] =
      foldl (\<lambda>r k. r[ord ! k := ?F (ord ! k)]) (replicate ?n 0) [0..<length ord]"
      using val ord nth_mem [of _ ord] unfolding st by (intro foldl_cong) (auto simp del: nth_mem)
    also have "\<dots> = foldl (\<lambda>r i. r[i := ?F i]) (replicate ?n 0) ord"
      by (rule foldl_positions [of "\<lambda>r i. r[i := ?F i]"])
    also have "\<dots> = map ?F [0..<?n]" using ord by (subst foldl_update_all) auto
    finally show ?thesis
      using False asc nz scanTargets_eq [OF r sorted_sort, of ?ts] rng
      by (simp add: ValueAtPercentilesSlice_def Let_def out flip: ord_def del: map_map)
  qed
qed

lemma map_get_put: "map_get (map_put k v m) q = (if q = k \<and> k \<noteq> NaN then Some v else map_get m q)"
  by (auto simp: map_get_def map_put_def update_conv' map_add_def split: option.splits)

lemma map_get_foldl:
  "map_get (foldl (\<lambda>m p. map_put p (G p) m) m ps) q = (if q \<in> set ps \<and> q \<noteq> NaN then Some (G q) else map_get m q)"
  by (induction ps arbitrary: m) (auto simp: map_get_put)

lemma ValueAtPercentiles_eq:
  assumes r: "represents h M"
  shows "map_get (fst (ValueAtPercentiles fused h ps)) q =
      (if q \<in> set ps \<and> q \<noteq> NaN then Some (percentile_of fused h M q) else None)"
    and "snd (ValueAtPercentiles fused h ps) = sort ps"
proof -
  have none: "map_get [] q = None" by (simp add: map_get_def)
  let ?ps = "sort ps" and ?G = "percentile_of fused h M"
  let ?v = "foldl (\<lambda>m p. map_put p 0 m) [] ?ps"
  show "snd (ValueAtPercentiles fused h ps) = sort ps" by (simp add: ValueAtPercentiles_def Let_def split: prod.split)
  show "map_get (fst (ValueAtPercentiles fused h ps)) q = (if q \<in> set ps \<and> q \<noteq> NaN then Some (?G q) else None)"
  proof (cases "M = {#}")
    case True
    then show ?thesis using represents_total [OF r]
      by (simp add: ValueAtPercentiles_def Let_def map_get_foldl none percentile_of_def)
  next
    case False
    let ?reach = "\<lambda>t. int (first_reach (counts h) t)" and ?ts = "map (\<lambda>p. percentileRank fused p (totalCount h)) ?ps"
    have n: "1 \<le> totalCount h" "totalCount h \<le> MaxInt64"
      using represents_total [OF r] represents_size [OF r] False by (cases M; simp)+
    have "sorted ?ts" using rank_mono [OF n, of _ _ fused] by (intro sorted_map_mono mono_onI) simp_all
    moreover have "\<forall>t \<in> set ?ts. 1 \<le> t \<and> t \<le> int (size M)"
      using rank_in_size [OF r False] by (auto simp: represents_total [OF r])
    ultimately have st: "scanTargets h ?ts = (map ?reach ?ts, length ?ts)" by (rule scanTargets_eq [OF r])
    have "foldl (\<lambda>m k. map_put (?ps ! k) (value_reported h (?ps ! k) (map ?reach ?ts ! k)) m) ?v [0..<length ?ps] =
      foldl (\<lambda>m k. map_put (?ps ! k) (?G (?ps ! k)) m) ?v [0..<length ?ps]"
      using value_reported_rank [OF r False] by (intro foldl_cong) auto
    also have "\<dots> = foldl (\<lambda>m p. map_put p (?G p) m) ?v ?ps"
      by (rule foldl_positions [of "\<lambda>m p. map_put p (?G p) m"])
    finally have "fst (ValueAtPercentiles fused h ps) = foldl (\<lambda>m p. map_put p (?G p) m) ?v ?ps"
      using n unfolding ValueAtPercentiles_def Let_def st by simp
    then show ?thesis by (simp add: map_get_foldl none)
  qed
qed

section \<open>Properties\<close>

text \<open>C28: A percentile query returns the recorded value of that rank, up to equivalence. On a
  histogram that represents a nonempty multiset, the answer is the highest value equivalent to
  the element whose rank in ascending order is the rank of the percentile, and the lowest equivalent value for a
  percentile up to zero; on an empty histogram it is zero. \<open>ValueAtQuantile\<close> is the same query.\<close>

theorem ValueAtPercentile_correct:
  assumes "represents h M"
  shows "ValueAtPercentile fused h p =
           (if M = {#} then 0
            else let v = sorted_list_of_multiset M ! nat (percentileRank fused p (int (size M)) - 1)
                 in if fle p (Fin 0) then lowestEquivalentValue h v else highestEquivalentValue h v) \<and>
         ValueAtQuantile fused h p = ValueAtPercentile fused h p"
  using ValueAtPercentile_eq [OF assms, of fused p] by (simp add: percentile_of_def kth_smallest_def ValueAtQuantile_def Let_def)

theorem ValueAtPercentile_correct_witness:
  "ValueAtPercentile True sample_recorded (Fin 100) = 79 \<and> ValueAtPercentile True sample_recorded (Fin 0) = 5 \<and>
   ValueAtQuantile True sample_recorded (Fin 100) = 79"
proof -
  have "percentileRank True (Fin 100) 5 = 5" "percentileRank True (Fin 0) 5 = 1"
    by (simp_all add: rank_100 rank_0)
  moreover have "highestEquivalentValue sample_recorded 77 = 79" "lowestEquivalentValue sample_recorded 5 = 5" by code_simp+
  ultimately show ?thesis
    using ValueAtPercentile_correct [OF sample_recorded_represents, of True "Fin 100"]
      ValueAtPercentile_correct [OF sample_recorded_represents, of True "Fin 0"] by (simp add: Let_def)
qed

text \<open>C29: The queries for many percentiles agree with the query for one.
  \<open>ValueAtPercentilesSlice\<close> gives the answers in the order of the request, sorted or not, with duplicates.
  \<open>ValueAtPercentiles\<close> gives a map that has exactly the requested percentiles that are numbers as
  keys that can be looked up, each with its answer, and leaves the caller's slice sorted.\<close>

theorem percentile_variants_agree:
  assumes "represents h M"
  shows "ValueAtPercentilesSlice fused h ps = map (ValueAtPercentile fused h) ps \<and>
         map_get (fst (ValueAtPercentiles fused h ps)) q =
           (if q \<in> set ps \<and> q \<noteq> NaN then Some (ValueAtPercentile fused h q) else None) \<and>
         snd (ValueAtPercentiles fused h ps) = sort ps"
proof -
  have "ValueAtPercentile fused h = percentile_of fused h M" using ValueAtPercentile_eq [OF assms] by blast
  then show ?thesis using ValueAtPercentilesSlice_eq [OF assms] ValueAtPercentiles_eq [OF assms] by simp
qed

theorem percentile_variants_agree_witness:
  "ValueAtPercentilesSlice True sample_recorded [Fin 100, NaN, Fin 0] =
     [ValueAtPercentile True sample_recorded (Fin 100), ValueAtPercentile True sample_recorded NaN, ValueAtPercentile True sample_recorded (Fin 0)] \<and>
   map_get (fst (ValueAtPercentiles True sample_recorded [Fin 100, NaN, Fin 0])) (Fin 100) =
     Some (ValueAtPercentile True sample_recorded (Fin 100)) \<and>
   snd (ValueAtPercentiles True sample_recorded [Fin 100, NaN, Fin 0]) = [NaN, Fin 0, Fin 100]"
  using percentile_variants_agree [OF sample_recorded_represents, of True "[Fin 100, NaN, Fin 0]" "Fin 100"]
  by (simp add: less_eq_f64_def)

end
