(* ===== verification/Packed_Percentile_Spec.thy ===== *)
theory Packed_Percentile_Spec
  imports Packed_Percentile Percentile_Spec
begin

text \<open>
  Correctness of the percentile queries of the sparse histogram. Its scans find the same first
  position over the populated buckets, also when the counts of a decoded histogram add up to more
  than \<open>math.MaxInt64\<close>; the cumulative counts of the dense histogram are those of the populated
  buckets, so both histograms answer alike.
\<close>

section \<open>The scan for one target\<close>

lemma block_counts_eq:
  assumes wf: "packed_wf p" and i: "i + packedScanBlock \<le> length (slots p)"
  shows "block_counts p i = take packedScanBlock (drop i (slots p))"
proof -
  let ?w = "slot_bytes (p_width p)" and ?b = "take packedScanBlock (drop i (slots p))"
  have h: "holds p (slots p)" by (rule packed_wfD(1) [OF wf])
  have b: "take (?w * packedScanBlock) (drop (i * ?w) (p_cnt p)) = pack ?w ?b"
    using h take_pack [of packedScanBlock ?w "drop i (slots p)"] by (simp add: holds_def drop_pack mult.commute)
  have "le_val (take ?w (drop (?w * j) (pack ?w ?b))) = ?b ! j" if j: "j < packedScanBlock" for j
  proof -
    have l: "j < length ?b" using i j by simp
    have "?b ! j \<in> set (slots p)" using l nth_mem by (metis in_set_dropD in_set_takeD)
    then have "0 \<le> ?b ! j" "?b ! j \<le> packedWidthMax (p_width p)" "is_width (p_width p)" using h by (auto simp: holds_def)
    then have "?b ! j mod 256 ^ ?w = ?b ! j" using packedWidthMax_bounds [of "p_width p"] by auto
    then show ?thesis using pack_chunk [OF l, of ?w] by (simp add: mult.commute le_val_le_bytes)
  qed
  then show ?thesis unfolding block_counts_def Let_def b
    using i by (intro nth_equalityI) simp_all
qed

lemma slots_nonneg: "packed_wf p \<Longrightarrow> \<forall>c \<in> set (slots p). 0 \<le> c"
  by (auto simp: packed_wf_def)

lemma slots_small: "packed_wf p \<Longrightarrow> c \<in> set (slots p) \<Longrightarrow> c \<le> MaxInt64"
  using packed_wfD(1) [of p] packedWidthMax_bounds [of "p_width p"] by (auto simp: holds_def)

lemma sum_list_le: "\<forall>c \<in> set cs. c \<le> (b :: int) \<Longrightarrow> sum_list cs \<le> int (length cs) * b"
  by (induction cs) (auto simp: algebra_simps intro: add_mono)

text \<open>With a narrow width the sum cannot overflow.\<close>

lemma narrow_sum:
  assumes wf: "packed_wf p" and w: "p_width p = 1 \<or> p_width p = 2 \<or> p_width p = 4"
  shows "countable_sum (slots p)"
proof -
  have "\<forall>c \<in> set (slots p). c \<le> 4294967295"
    using packed_wfD(1) [OF wf] w by (auto simp: holds_def packedWidthMax_def)
  then have "sum_list (slots p) \<le> int (length (slots p)) * 4294967295" by (rule sum_list_le)
  also have "\<dots> \<le> 2147483647 * 4294967295"
    using packed_length(2) [OF wf] packed_wfD(4) [OF wf] by simp
  finally show ?thesis using slots_nonneg [OF wf] by (simp add: countable_sum_def)
qed

lemma block_sums:
  assumes wf: "packed_wf p" and c: "countable_sum (slots p)" and i: "i + packedScanBlock \<le> length (slots p)"
  shows "block_counts p i = take packedScanBlock (drop i (slots p))"
    "i64 (sum_list (take packedScanBlock (drop i (slots p)))) = sum_list (take packedScanBlock (drop i (slots p)))"
    "i64 (sum_list (take i (slots p)) + sum_list (take packedScanBlock (drop i (slots p)))) = sum_list (take (i + packedScanBlock) (slots p))"
proof -
  let ?b = "take packedScanBlock (drop i (slots p))" and ?d = "drop (i + packedScanBlock) (slots p)"
  have join: "take i (slots p) @ ?b @ ?d = slots p" by (metis append_take_drop_id drop_drop add.commute)
  note parts = countable_sum_parts [of "take i (slots p)" ?b ?d, unfolded join, OF c]
  show "block_counts p i = ?b" by (rule block_counts_eq [OF wf i])
  show "i64 (sum_list ?b) = sum_list ?b" by (rule parts(6))
  show "i64 (sum_list (take i (slots p)) + sum_list ?b) = sum_list (take (i + packedScanBlock) (slots p))"
    using parts(5) by (simp add: take_add)
qed

lemma packed_blocks_reach:
  assumes wf: "packed_wf p" and c: "countable_sum (slots p)" and i: "i \<le> length (slots p)"
    and t: "sum_list (take i (slots p)) < t"
  shows "packed_blocks p i (sum_list (take i (slots p))) t = Inl (first_reach (slots p) t) \<or>
    (\<exists>j \<le> length (slots p). packed_blocks p i (sum_list (take i (slots p))) t = Inr (j, sum_list (take j (slots p))) \<and>
       sum_list (take j (slots p)) < t)"
  using i t
proof (induction "length (slots p) - i" arbitrary: i rule: less_induct)
  case less
  let ?cs = "slots p"
  have len: "p_size p = int (length ?cs)" using packed_wfD(4,5) [OF wf] by simp
  show ?case
  proof (cases "i + packedScanBlock \<le> length ?cs")
    case True
    let ?b = "take packedScanBlock (drop i ?cs)" and ?i = "i + packedScanBlock"
    have join: "take i ?cs @ ?b @ drop ?i ?cs = ?cs" by (metis append_take_drop_id drop_drop add.commute)
    have nxt: "sum_list (take i ?cs) + sum_list ?b = sum_list (take ?i ?cs)" by (simp add: take_add)
    note s = block_sums [OF wf c True]
    have step: "packed_blocks p i (sum_list (take i ?cs)) t =
       (if t \<le> sum_list (take ?i ?cs)
        then case scan_elems ?b i (sum_list (take i ?cs)) t of
               (Some k, _) \<Rightarrow> Inl k
             | (None, r) \<Rightarrow> packed_blocks p ?i (i64 (r + i64 (sum_list ?b))) t
        else packed_blocks p ?i (sum_list (take ?i ?cs)) t)"
      using True by (subst packed_blocks.simps) (simp add: Let_def len s)
    show ?thesis
    proof (cases "t \<le> sum_list (take ?i ?cs)")
      case reach: True
      have "length (take i ?cs) = i" using less.prems by simp
      then have "fst (scan_elems ?b i (sum_list (take i ?cs)) t) = Some (first_reach ?cs t)"
        using scan_elems_reach [of "take i ?cs" ?b "drop ?i ?cs" t, unfolded join nxt, OF c] less.prems reach by simp
      then have "packed_blocks p i (sum_list (take i ?cs)) t = Inl (first_reach ?cs t)"
        unfolding step using reach by (cases "scan_elems ?b i (sum_list (take i ?cs)) t") auto
      then show ?thesis ..
    next
      case False
      then show ?thesis unfolding step using less.hyps [of ?i] True by (simp add: packedScanBlock_def)
    qed
  next
    case False
    then show ?thesis using less.prems len by (subst (2) packed_blocks.simps) (auto simp: packed_blocks.simps)
  qed
qed

lemma saturating_add_eq:
  assumes "0 \<le> s" "0 \<le> c" "c \<le> MaxInt64"
  shows "saturating_add (min MaxInt64 s) c = min MaxInt64 (s + c)"
proof -
  have "i64 (MaxInt64 - min MaxInt64 s) = MaxInt64 - min MaxInt64 s" using assms by (intro i64_id) auto
  moreover have "c \<le> MaxInt64 - min MaxInt64 s \<Longrightarrow> i64 (min MaxInt64 s + c) = min MaxInt64 s + c" using assms by (intro i64_id) auto
  ultimately show ?thesis using assms by (auto simp: saturating_add_def)
qed

lemma saturating_slot:
  assumes wf: "packed_wf p" and i: "i < length (slots p)"
  shows "saturating_add (min MaxInt64 (sum_list (take i (slots p)))) (slotGet p (int i)) =
         min MaxInt64 (sum_list (take (Suc i) (slots p)))"
proof -
  have "0 \<le> sum_list (take i (slots p))"
    using slots_nonneg [OF wf] by (intro sum_list_nonneg_int) (auto dest: in_set_takeD)
  moreover have "0 \<le> slots p ! i" "slots p ! i \<le> MaxInt64" using slots_nonneg [OF wf] slots_small [OF wf] i nth_mem by blast+
  ultimately show ?thesis
    using slotGet_nth [OF packed_wfD(1) [OF wf] i] saturating_add_eq i by (simp add: take_Suc_conv_app_nth)
qed

lemma first_reach_pos:
  assumes "\<forall>x \<in> set cs. 0 \<le> x" "i < length cs" "sum_list (take i cs) < t" "t \<le> sum_list (take (Suc i) cs)"
  shows "first_reach cs t = i"
proof -
  have "cs = take i cs @ cs ! i # drop (Suc i) cs" using assms(2) by (rule id_take_nth_drop)
  moreover have "sum_list (take (Suc i) cs) = sum_list (take i cs) + cs ! i" using assms(2) by (simp add: take_Suc_conv_app_nth)
  ultimately show ?thesis
    using first_reach_at [of "take i cs" "cs ! i" "drop (Suc i) cs" t] assms by simp
qed

lemma packed_tail_reach:
  assumes wf: "packed_wf p" and t: "t \<le> MaxInt64" "t \<le> sum_list (slots p)"
    and i: "i \<le> length (slots p)" "sum_list (take i (slots p)) < t"
  shows "packed_tail p i (min MaxInt64 (sum_list (take i (slots p)))) t = Some (first_reach (slots p) t)"
  using i
proof (induction "length (slots p) - i" arbitrary: i rule: less_induct)
  case less
  let ?cs = "slots p"
  have len: "p_size p = int (length ?cs)" using packed_wfD(4,5) [OF wf] by simp
  have i: "i < length ?cs" using less.prems t(2) by (cases "i = length ?cs") auto
  show ?case
  proof (cases "t \<le> sum_list (take (Suc i) ?cs)")
    case True
    then have "first_reach ?cs t = i" using first_reach_pos [OF slots_nonneg [OF wf] i less.prems(2)] by simp
    then show ?thesis using True t(1) i len
      by (subst packed_tail.simps) (simp add: Let_def saturating_slot [OF wf i])
  next
    case False
    then show ?thesis using less.hyps [of "Suc i"] t(1) i len
      by (subst packed_tail.simps) (simp add: Let_def saturating_slot [OF wf i] min_le_iff_disj)
  qed
qed

lemma valueFromIdxAtCount_eq:
  assumes wf: "packed_wf p" and t: "1 \<le> t" "t \<le> MaxInt64" "t \<le> sum_list (slots p)"
  shows "valueFromIdxAtCount p t = valueFromFlatIndex (p_geom p) (p_idx p ! first_reach (slots p) t)"
proof (cases "p_width p = 1 \<or> p_width p = 2 \<or> p_width p = 4")
  case True
  note c = narrow_sum [OF wf True]
  from packed_blocks_reach [OF wf c, of 0 t] t
  consider "packed_blocks p 0 0 t = Inl (first_reach (slots p) t)"
    | j where "j \<le> length (slots p)" "packed_blocks p 0 0 t = Inr (j, sum_list (take j (slots p)))" "sum_list (take j (slots p)) < t"
    by auto
  then show ?thesis
  proof cases
    case (2 j)
    have "sum_list (take j (slots p)) = min MaxInt64 (sum_list (take j (slots p)))" using 2(3) t(2) by simp
    then show ?thesis using packed_tail_reach [OF wf t(2,3) 2(1,3)] 2(2) True unfolding valueFromIdxAtCount_def by simp
  qed (use True in \<open>simp add: valueFromIdxAtCount_def\<close>)
next
  case False
  then show ?thesis using packed_tail_reach [OF wf t(2,3), of 0] t by (simp add: valueFromIdxAtCount_def)
qed

section \<open>Against the dense histogram\<close>

lemma first_reach_bounds:
  assumes "\<forall>x \<in> set cs. 0 \<le> x" "1 \<le> t" "t \<le> sum_list cs"
  shows "first_reach cs t < length cs" and "sum_list (take (first_reach cs t) cs) < t"
    and "t \<le> sum_list (take (Suc (first_reach cs t)) cs)"
proof -
  let ?k = "first_reach cs t" and ?P = "\<lambda>k. t \<le> sum_list (take (Suc k) cs)"
  have ne: "cs \<noteq> []" using assms(2,3) by auto
  then have last: "?P (length cs - 1)" using assms(3) by simp
  then have "?k \<le> length cs - 1" unfolding first_reach_def by (rule Least_le)
  then show "?k < length cs" using ne by (simp add: le_less_trans)
  show "?P ?k" unfolding first_reach_def using last by (rule LeastI)
  show "sum_list (take ?k cs) < t"
  proof (cases ?k)
    case (Suc j)
    then have "\<not> ?P j" using not_less_Least [of j ?P] by (simp add: first_reach_def)
    then show ?thesis using Suc by simp
  qed (use assms(2) in simp)
qed

lemma below_0: "packed_wf p \<Longrightarrow> below (p_idx p) 0 = 0"
  by (cases "p_idx p") (auto simp: below_def packed_wf_def)

lemma below_nth:
  assumes s: "sorted_wrt (<) a" and k: "k < length a"
  shows "below a (a ! k) = k"
  using below_hit [OF s nth_mem [OF k]] s k by (metis nth_eq_iff_index_eq strict_sorted_iff)

lemma below_Suc:
  assumes s: "sorted_wrt (<) a"
  shows "below a (k + 1) = (if k \<in> set a then Suc (below a k) else below a k)"
proof -
  have le: "below a k \<le> below a (k + 1)" unfolding below_def by (induction a) auto
  show ?thesis
  proof (cases "k \<in> set a")
    case True
    note b = below_hit [OF s True]
    have "below a k < below a (k + 1)" using sorted_nth_less_iff [OF s b(1), of "k + 1"] b(2) by simp
    moreover have "\<not> Suc (below a k) < below a (k + 1)"
    proof
      assume l: "Suc (below a k) < below a (k + 1)"
      then have len: "Suc (below a k) < length a" using below_le [of a "k + 1"] by simp
      then have "a ! Suc (below a k) < k + 1" using sorted_nth_less_iff [OF s len, of "k + 1"] l by simp
      moreover have "k < a ! Suc (below a k)" using sorted_wrt_nth_less [OF s _ len, of "below a k"] b(2) by simp
      ultimately show False by simp
    qed
    ultimately show ?thesis using True by simp
  next
    case False
    have "\<not> below a k < below a (k + 1)"
    proof
      assume l: "below a k < below a (k + 1)"
      then have len: "below a k < length a" using below_le [of a "k + 1"] by simp
      then have "a ! below a k < k + 1" "\<not> a ! below a k < k" 
        using sorted_nth_less_iff [OF s len, of "k + 1"] sorted_nth_less_iff [OF s len, of k] l by simp_all
      then have "a ! below a k = k" by simp
      then show False using False nth_mem [OF len] by simp
    qed
    then show ?thesis using le False by simp
  qed
qed

text \<open>The cumulative counts of the dense histogram are those of the populated buckets below.\<close>

lemma dense_prefix:
  assumes wf: "packed_wf p" and k: "k \<le> nat (countsLen (p_geom p))"
  shows "sum_list (take k (counts (dense_of p))) = sum_list (take (below (p_idx p) (int k)) (slots p))"
  using k
proof (induction k)
  case 0
  then show ?case by (simp add: below_0 [OF wf])
next
  case (Suc k)
  note D = packed_wfD [OF wf]
  have c: "counts (dense_of p) ! k = count_at p (int k)" using Suc.prems by (simp add: nth_dense_of)
  have t: "sum_list (take (Suc k) (counts (dense_of p))) = sum_list (take k (counts (dense_of p))) + count_at p (int k)"
    using Suc.prems c by (simp add: take_Suc_conv_app_nth nth_dense_of(2))
  have b: "below (p_idx p) (int (Suc k)) = (if int k \<in> set (p_idx p) then Suc (below (p_idx p) (int k)) else below (p_idx p) (int k))"
    using below_Suc [OF D(2), of "int k"] by (simp add: add.commute)
  show ?case
  proof (cases "int k \<in> set (p_idx p)")
    case True
    note h = below_hit [OF D(2) True]
    have "count_at p (int k) = slots p ! below (p_idx p) (int k)" using count_at_nth [OF wf h(1)] h(2) by simp
    then show ?thesis using t b True Suc h(1) D(4) by (simp add: take_Suc_conv_app_nth)
  next
    case False
    then show ?thesis using t b Suc count_at_miss [OF wf False] by simp
  qed
qed

lemma first_reach_dense:
  assumes wf: "packed_wf p" and t: "1 \<le> t" "t \<le> sum_list (slots p)"
  shows "int (first_reach (counts (dense_of p)) t) = p_idx p ! first_reach (slots p) t"
proof -
  let ?k = "first_reach (slots p) t" and ?i = "p_idx p ! first_reach (slots p) t"
  note D = packed_wfD [OF wf] and F = first_reach_bounds [OF slots_nonneg [OF wf] t]
  have k: "?k < length (p_idx p)" using F(1) D(4) by simp
  have i: "0 \<le> ?i" "?i < countsLen (p_geom p)" using wf nth_mem [OF k] by (auto simp: packed_wf_def)
  have b: "below (p_idx p) ?i = ?k" "below (p_idx p) (?i + 1) = Suc ?k"
    using below_nth [OF D(2) k] below_Suc [OF D(2), of ?i] nth_mem [OF k] by simp_all
  have "first_reach (counts (dense_of p)) t = nat ?i"
  proof (rule first_reach_pos)
    show "\<forall>x \<in> set (counts (dense_of p)). 0 \<le> x" using count_at_bounds(1) [OF wf] by (auto simp: dense_of_def)
    show "nat ?i < length (counts (dense_of p))" using i by (simp add: nth_dense_of(2))
    show "sum_list (take (nat ?i) (counts (dense_of p))) < t" using dense_prefix [OF wf, of "nat ?i"] i b F(2) by simp
    show "t \<le> sum_list (take (Suc (nat ?i)) (counts (dense_of p)))"
      using dense_prefix [OF wf, of "Suc (nat ?i)"] i b F(3) by (simp add: add.commute)
  qed
  then show ?thesis using i by simp
qed

section \<open>One percentile\<close>

lemma packed_total_range:
  assumes "packed_ok p" "p_totalCount p \<noteq> 0"
  shows "1 \<le> p_totalCount p" "p_totalCount p \<le> MaxInt64" "p_totalCount p \<le> sum_list (slots p)"
  using assms sum_bounds_packed(1) [of p] by (auto simp: packed_ok_def)

text \<open>The value reported for a target.\<close>

definition packed_value :: "packed \<Rightarrow> bool \<Rightarrow> int \<Rightarrow> int" where
  "packed_value p lowest t =
     (let v = valueFromFlatIndex (p_geom p) (p_idx p ! first_reach (slots p) t)
      in if lowest then lowestEquivalentValue (p_geom p) v else highestEquivalent p v)"

lemma ValueAtPercentile_p_eq:
  assumes ok: "packed_ok p" and n: "p_totalCount p \<noteq> 0"
  shows "ValueAtPercentile_p fused p pc = packed_value p (fle pc (Fin 0)) (percentileRank fused pc (p_totalCount p))"
proof -
  note t = packed_total_range [OF ok n]
  have wf: "packed_wf p" using ok by (simp add: packed_ok_def)
  note r = rank_range [OF t(1,2), of fused pc]
  have "valueFromIdxAtCount p (percentileRank fused pc (p_totalCount p)) =
      valueFromFlatIndex (p_geom p) (p_idx p ! first_reach (slots p) (percentileRank fused pc (p_totalCount p)))"
    using r t by (intro valueFromIdxAtCount_eq [OF wf]) simp_all
  then show ?thesis
    using n by (simp add: ValueAtPercentile_p_def countAtPercentile_def rank_clamp [OF t(1,2)] feq_clamp packed_value_def Let_def)
qed

lemma packed_value_dense:
  assumes wf: "packed_wf p" and t: "1 \<le> t" "t \<le> sum_list (slots p)"
  shows "packed_value p (fle pc (Fin 0)) t = value_reported (dense_of p) pc (int (first_reach (counts (dense_of p)) t))"
proof -
  let ?i = "p_idx p ! first_reach (slots p) t"
  have "first_reach (slots p) t < length (p_idx p)"
    using first_reach_bounds(1) [OF slots_nonneg [OF wf] t] packed_wfD(4) [OF wf] by simp
  then have g: "geom_ok (p_geom p)" and i: "0 \<le> ?i" "?i < countsLen (p_geom p)" using wf nth_mem by (auto simp: packed_wf_def)
  have "i32 ?i = ?i" using i countsLen_bound [OF g] by (intro i32_id) simp_all
  moreover note highestEquivalent_eq [OF g, of "valueFromFlatIndex (p_geom p) ?i"] valueFromFlatIndex_range [OF g i]
  ultimately show ?thesis by (simp add: packed_value_def value_reported_def first_reach_dense [OF wf t] Let_def)
qed

lemma ValueAtPercentile_dense_of:
  assumes ok: "packed_ok p" and s: "sum_list (slots p) \<le> MaxInt64"
  shows "ValueAtPercentile_p fused p pc = ValueAtPercentile fused (dense_of p) pc"
proof (cases "p_totalCount p = 0")
  case True
  then show ?thesis by (simp add: ValueAtPercentile_p_def ValueAtPercentile_def)
next
  case False
  note t = packed_total_range [OF ok False] and h = hist_ok_dense_of [OF ok s]
  have wf: "packed_wf p" using ok by (simp add: packed_ok_def)
  show ?thesis
    using ValueAtPercentile_p_eq [OF ok False] ValueAtPercentile_reach [OF h] False rank_range [OF t(1,2), of fused pc] t
      packed_value_dense [OF wf, of "percentileRank fused pc (p_totalCount p)" pc] by simp
qed

section \<open>Many percentiles\<close>

abbreviation answer :: "packed \<Rightarrow> int list \<Rightarrow> ptarget \<Rightarrow> int list" where
  "answer p \<equiv> \<lambda>out t. out[orig t := packed_value p (isZero t) (target t)]"

text \<open>The targets that a cumulative count \<open>s\<close> answers, and those it leaves.\<close>

abbreviation answered :: "int \<Rightarrow> ptarget list \<Rightarrow> ptarget list" where
  "answered s \<equiv> takeWhile (\<lambda>t. target t \<le> s)"

abbreviation left :: "int \<Rightarrow> ptarget list \<Rightarrow> ptarget list" where
  "left s \<equiv> dropWhile (\<lambda>t. target t \<le> s)"

abbreviation cumulative :: "packed \<Rightarrow> nat \<Rightarrow> int" where
  "cumulative p i \<equiv> sum_list (take i (slots p))"

lemma answered_split:
  assumes "a \<le> b"
  shows "answered b ts = answered a ts @ answered b (left a ts)" and "left b ts = left b (left a ts)"
  using assms by (induction ts) auto

lemma left_above: "sorted (map target ts) \<Longrightarrow> t \<in> set (left a ts) \<Longrightarrow> a < target t"
  by (induction ts) (auto split: if_splits)

lemma sorted_left: "sorted (map target ts) \<Longrightarrow> sorted (map target (left a ts))"
  by (induction ts) auto

lemma left_subset: "t \<in> set (left a ts) \<Longrightarrow> t \<in> set ts"
  by (rule set_dropWhileD)

lemma emit_eq:
  "emit p v r ts out =
     (left r ts, foldl (\<lambda>out t. out[orig t := if isZero t then lowestEquivalentValue (p_geom p) v else highestEquivalent p v]) out (answered r ts))"
  by (induction ts arbitrary: out) auto

lemma visit_eq:
  assumes wf: "packed_wf p" and i: "i < length (slots p)" and ts: "ts \<noteq> []"
    and t: "\<forall>t \<in> set ts. cumulative p i < target t \<and> target t \<le> MaxInt64"
  shows "visit p i (min MaxInt64 (cumulative p (Suc i))) ts out =
           (left (cumulative p (Suc i)) ts, foldl (answer p) out (answered (cumulative p (Suc i)) ts))"
proof -
  let ?s = "cumulative p (Suc i)" and ?v = "valueFromFlatIndex (p_geom p) (p_idx p ! i)"
  have m: "answered (min MaxInt64 ?s) ts = answered ?s ts" "left (min MaxInt64 ?s) ts = left ?s ts"
    using t by (auto intro!: takeWhile_cong dropWhile_cong)
  have "foldl (\<lambda>out t. out[orig t := if isZero t then lowestEquivalentValue (p_geom p) ?v else highestEquivalent p ?v]) out (answered ?s ts) =
      foldl (answer p) out (answered ?s ts)"
  proof (rule foldl_cong [OF refl refl])
    fix u r assume "u \<in> set (answered ?s ts)"
    then have "first_reach (slots p) (target u) = i"
      using t by (intro first_reach_pos [OF slots_nonneg [OF wf] i]) (auto dest: set_takeWhileD)
    then show "r[orig u := if isZero u then lowestEquivalentValue (p_geom p) ?v else highestEquivalent p ?v] = answer p r u"
      by (simp add: packed_value_def)
  qed
  then have e: "emit p ?v (min MaxInt64 ?s) ts out = (left ?s ts, foldl (answer p) out (answered ?s ts))"
    by (simp only: emit_eq m)
  show ?thesis
  proof (cases "target (hd ts) \<le> min MaxInt64 ?s")
    case True
    then show ?thesis by (simp only: visit_def e if_True)
  next
    case False
    then have "\<not> target (hd ts) \<le> ?s" using t ts by auto
    then show ?thesis using False ts by (cases ts) (auto simp: visit_def)
  qed
qed

lemma slice_elems_eq:
  assumes wf: "packed_wf p" and c: "countable_sum (slots p)" and m: "i + m \<le> length (slots p)" and ts: "ts \<noteq> []"
    and s: "sorted (map target ts)" and t: "\<forall>t \<in> set ts. cumulative p i < target t \<and> target t \<le> MaxInt64"
  shows "\<exists>R. slice_elems p (take m (drop i (slots p))) i (cumulative p i) ts out =
           (R, left (cumulative p (i + m)) ts, foldl (answer p) out (answered (cumulative p (i + m)) ts)) \<and>
         (left (cumulative p (i + m)) ts \<noteq> [] \<longrightarrow> R = cumulative p (i + m))"
  using m ts s t
proof (induction m arbitrary: i ts out)
  case 0
  then show ?case by (cases ts) auto
next
  case (Suc m)
  let ?a = "cumulative p (Suc i)" and ?b = "cumulative p (i + Suc m)"
  have i: "i < length (slots p)" using Suc.prems(1) by simp
  have ab: "?a \<le> ?b" using slots_nonneg [OF wf] by (intro prefix_sum_mono) simp_all
  have "?a \<le> sum_list (slots p)" using slots_nonneg [OF wf] by (rule prefix_sum_le)
  then have small: "?a \<le> MaxInt64" using c by (simp add: countable_sum_def)
  have "0 \<le> ?a" using slots_nonneg [OF wf] by (intro sum_list_nonneg_int) (auto dest: in_set_takeD)
  then have w: "i64 (cumulative p i + slots p ! i) = ?a" using small i by (simp add: take_Suc_conv_app_nth width_simps)
  have blk: "take (Suc m) (drop i (slots p)) = slots p ! i # take m (drop (Suc i) (slots p))"
    using i by (simp add: Cons_nth_drop_Suc [symmetric])
  have v: "visit p i ?a ts out = (left ?a ts, foldl (answer p) out (answered ?a ts))"
    using visit_eq [OF wf i Suc.prems(2,4), of out] small by (simp add: min_absorb2)
  have step: "slice_elems p (take (Suc m) (drop i (slots p))) i (cumulative p i) ts out =
      (case (left ?a ts, foldl (answer p) out (answered ?a ts)) of
         ([], out') \<Rightarrow> (?a, [], out')
       | (ts', out') \<Rightarrow> slice_elems p (take m (drop (Suc i) (slots p))) (Suc i) ?a ts' out')"
    by (simp only: blk slice_elems.simps Let_def w v)
  note split = answered_split [OF ab, of ts]
  show ?case
  proof (cases "left ?a ts")
    case Nil
    then have e: "answered ?b ts = answered ?a ts" "left ?b ts = []" using split by (simp_all only: takeWhile.simps dropWhile.simps append_Nil2)
    show ?thesis unfolding step Nil e by simp
  next
    case (Cons u us)
    have "\<forall>t \<in> set (u # us). ?a < target t \<and> target t \<le> MaxInt64"
      using left_above [OF Suc.prems(3), of _ ?a] left_subset [of _ ?a ts] Suc.prems(4) unfolding Cons by blast
    then show ?thesis
      using Suc.IH [of "Suc i" "u # us" "foldl (answer p) out (answered ?a ts)"] sorted_left [OF Suc.prems(3), of ?a] Suc.prems(1)
      unfolding step split Cons by simp
  qed
qed

lemma slice_tail_eq:
  assumes wf: "packed_wf p" and i: "i \<le> length (slots p)" and s: "sorted (map target ts)"
    and t: "\<forall>t \<in> set ts. cumulative p i < target t \<and> target t \<le> MaxInt64 \<and> target t \<le> sum_list (slots p)"
  shows "slice_tail p i (min MaxInt64 (cumulative p i)) ts out = foldl (answer p) out ts"
  using i s t
proof (induction "length (slots p) - i" arbitrary: i ts out rule: less_induct)
  case less
  let ?cs = "slots p"
  have len: "p_size p = int (length ?cs)" using packed_wfD(4,5) [OF wf] by simp
  show ?case
  proof (cases "ts = []")
    case True
    then show ?thesis by (subst slice_tail.simps) simp
  next
    case False
    then have "cumulative p i < sum_list ?cs" using less.prems(3) by (cases ts) auto
    then have i: "i < length ?cs" using less.prems(1) by (cases "i = length ?cs") auto
    let ?a = "cumulative p (Suc i)"
    have v: "visit p i (min MaxInt64 ?a) ts out = (left ?a ts, foldl (answer p) out (answered ?a ts))"
      using less.prems(3) by (intro visit_eq [OF wf i False]) blast
    have step: "slice_tail p i (min MaxInt64 (cumulative p i)) ts out =
        slice_tail p (Suc i) (min MaxInt64 ?a) (left ?a ts) (foldl (answer p) out (answered ?a ts))"
      using False i len by (subst slice_tail.simps) (simp only: Let_def saturating_slot [OF wf i] v prod.case if_True of_nat_less_iff simp_thms)
    have "\<forall>t \<in> set (left ?a ts). ?a < target t \<and> target t \<le> MaxInt64 \<and> target t \<le> sum_list ?cs"
      using left_above [OF less.prems(2), of _ ?a] left_subset [of _ ?a ts] less.prems(3) by blast
    then have "slice_tail p (Suc i) (min MaxInt64 ?a) (left ?a ts) (foldl (answer p) out (answered ?a ts)) =
        foldl (answer p) (foldl (answer p) out (answered ?a ts)) (left ?a ts)"
      using i sorted_left [OF less.prems(2)] by (intro less.hyps) simp_all
    then show ?thesis unfolding step by (simp only: takeWhile_dropWhile_id flip: foldl_append)
  qed
qed

text \<open>The blocked pass and the tail after it.\<close>

abbreviation slice_scan :: "packed \<Rightarrow> nat \<Rightarrow> int \<Rightarrow> ptarget list \<Rightarrow> int list \<Rightarrow> int list" where
  "slice_scan p i running pend out \<equiv>
     (case slice_blocks p i running pend out of (i', running', pend', out') \<Rightarrow> slice_tail p i' running' pend' out')"

lemma slice_scan_eq:
  assumes wf: "packed_wf p" and c: "countable_sum (slots p)" and i: "i \<le> length (slots p)" and s: "sorted (map target ts)"
    and t: "\<forall>t \<in> set ts. cumulative p i < target t \<and> target t \<le> MaxInt64 \<and> target t \<le> sum_list (slots p)"
  shows "slice_scan p i (cumulative p i) ts out = foldl (answer p) out ts"
  using i s t
proof (induction "length (slots p) - i" arbitrary: i ts out rule: less_induct)
  case less
  let ?cs = "slots p"
  have len: "p_size p = int (length ?cs)" using packed_wfD(4,5) [OF wf] by simp
  show ?case
  proof (cases "ts \<noteq> [] \<and> i + packedScanBlock \<le> length ?cs")
    case True
    let ?b = "take packedScanBlock (drop i ?cs)" and ?i = "i + packedScanBlock"
    note sb = block_sums [OF wf c True [THEN conjunct2]]
    have smaller: "length ?cs - ?i < length ?cs - i" "?i \<le> length ?cs" using True by (auto simp: packedScanBlock_def)
    have cond: "ts \<noteq> [] \<and> int ?i \<le> p_size p" using True len by simp
    show ?thesis
    proof (cases "cumulative p ?i < target (hd ts)")
      case skip: True
      have step: "slice_blocks p i (cumulative p i) ts out = slice_blocks p ?i (cumulative p ?i) ts out"
        using skip cond by (subst slice_blocks.simps) (simp only: Let_def sb if_True simp_thms)
      have "\<forall>t \<in> set ts. cumulative p ?i < target t" using skip less.prems(2) True by (cases ts) auto
      then show ?thesis unfolding step using less.prems(2,3) by (intro less.hyps smaller) blast+
    next
      case hit: False
      let ?l = "left (cumulative p ?i) ts" and ?out = "foldl (answer p) out (answered (cumulative p ?i) ts)"
      obtain R where R: "slice_elems p ?b i (cumulative p i) ts out = (R, ?l, ?out)" "?l \<noteq> [] \<longrightarrow> R = cumulative p ?i"
        using slice_elems_eq [OF wf c smaller(2) _ less.prems(2)] less.prems(3) True by blast
      have step: "slice_blocks p i (cumulative p i) ts out = slice_blocks p ?i R ?l ?out"
        using hit cond by (subst slice_blocks.simps) (simp only: Let_def sb if_True if_False R prod.case simp_thms)
      have "slice_scan p ?i R ?l ?out = foldl (answer p) ?out ?l"
      proof (cases "?l = []")
        case True
        then show ?thesis unfolding True by (simp add: slice_blocks.simps slice_tail.simps)
      next
        case False
        have "\<forall>t \<in> set ?l. cumulative p ?i < target t \<and> target t \<le> MaxInt64 \<and> target t \<le> sum_list ?cs"
          using left_above [OF less.prems(2), of _ "cumulative p ?i"] left_subset [of _ "cumulative p ?i" ts] less.prems(3) by blast
        then show ?thesis using R(2) False less.hyps [OF smaller sorted_left [OF less.prems(2)], of "cumulative p ?i" ?out] by simp
      qed
      then show ?thesis unfolding step by (simp only: takeWhile_dropWhile_id flip: foldl_append)
    qed
  next
    case False
    then have stop: "slice_blocks p i (cumulative p i) ts out = (i, cumulative p i, ts, out)"
      using len by (subst slice_blocks.simps) auto
    have "cumulative p i \<le> sum_list ?cs" using slots_nonneg [OF wf] by (rule prefix_sum_le)
    then have "min MaxInt64 (cumulative p i) = cumulative p i" using c by (simp add: countable_sum_def)
    then show ?thesis unfolding stop prod.case using slice_tail_eq [OF wf less.prems] by simp
  qed
qed

text \<open>The contract of \<open>sort.Slice\<close> on the targets.\<close>

definition arranges :: "(ptarget list \<Rightarrow> ptarget list) \<Rightarrow> bool" where
  "arranges f \<longleftrightarrow> (\<forall>ts. mset (f ts) = mset ts \<and> sorted (map target (f ts)))"

lemma ValueAtPercentilesSlice_p_eq:
  assumes ok: "packed_ok p" and a: "arranges arrange"
  shows "ValueAtPercentilesSlice_p arrange fused p ps = map (ValueAtPercentile_p fused p) ps"
proof (cases "ps = [] \<or> p_totalCount p = 0")
  case True
  then show ?thesis by (auto simp: ValueAtPercentilesSlice_p_def ValueAtPercentile_p_def Let_def map_replicate_const intro: nth_equalityI)
next
  case False
  let ?n = "length ps"
  define mk where "mk = (\<lambda>i. let pc = clamp_percentile (ps ! i)
    in \<lparr>orig = i, isZero = feq pc (Fin 0), target = countAtPercentile fused p pc\<rparr>)"
  define ord where "ord = arrange (map mk [0..<?n])"
  have n: "p_totalCount p \<noteq> 0" using False by simp
  note t = packed_total_range [OF ok n]
  have wf: "packed_wf p" using ok by (simp add: packed_ok_def)
  have mk: "orig (mk i) = i" "isZero (mk i) = fle (ps ! i) (Fin 0)"
    "target (mk i) = percentileRank fused (ps ! i) (p_totalCount p)" for i
    by (simp_all add: mk_def Let_def feq_clamp countAtPercentile_def rank_clamp [OF t(1,2)])
  have ord: "mset ord = mset (map mk [0..<?n])" "sorted (map target ord)" using a by (simp_all add: arranges_def ord_def)
  have set: "set ord = mk ` {..<?n}" using mset_eq_setD [OF ord(1)] by auto
  then have u: "u = mk (orig u)" if "u \<in> set ord" for u using that mk(1) by auto
  have rng: "\<forall>t \<in> set ord. 0 < target t \<and> target t \<le> MaxInt64 \<and> target t \<le> sum_list (slots p)"
    using rank_range(1) [OF t(1,2), unfolded int_one_le_iff_zero_less] order_trans [OF rank_range(2) [OF t(1,2)] t(2)] order_trans [OF rank_range(2) [OF t(1,2)] t(3)]
    unfolding set by (auto simp: mk)
  let ?F = "\<lambda>i. ValueAtPercentile_p fused p (ps ! i)"
  have F: "packed_value p (isZero (mk i)) (target (mk i)) = ?F i" for i
    by (simp add: mk ValueAtPercentile_p_eq [OF ok n])
  have "foldl (answer p) (replicate ?n 0) ord = foldl (\<lambda>out u. out[orig u := ?F (orig u)]) (replicate ?n 0) ord"
    using u F by (intro foldl_cong) metis+
  also have "\<dots> = foldl (\<lambda>out i. out[i := ?F i]) (replicate ?n 0) (map orig ord)" by (simp add: foldl_map)
  also have "set (map orig ord) = {..<?n}" unfolding set_map set by (auto simp: mk(1) image_image)
  then have "foldl (\<lambda>out i. out[i := ?F i]) (replicate ?n 0) (map orig ord) = map ?F [0..<?n]"
    by (subst foldl_update_all) simp_all
  also have "map ?F [0..<?n] = map (ValueAtPercentile_p fused p) ps"
    using map_nth [of ps] map_map [of "ValueAtPercentile_p fused p" "(!) ps" "[0..<?n]"] by (simp add: comp_def)
  finally have res: "foldl (answer p) (replicate ?n 0) ord = map (ValueAtPercentile_p fused p) ps" .
  show ?thesis
    using slice_scan_eq [OF wf _ _ ord(2), of 0 "replicate ?n 0"] slice_tail_eq [OF wf _ ord(2), of 0 "replicate ?n 0"]
      rng narrow_sum [OF wf] False n
    unfolding ValueAtPercentilesSlice_p_def Let_def [of "length ps"] mk_def [symmetric]
    by (simp add: res flip: ord_def) (simp add: res Let_def flip: mk_def [unfolded Let_def] ord_def)
qed

section \<open>Properties\<close>

text \<open>C30: The percentile queries of the sparse histogram. The query for many percentiles gives the answers of the
  query for one, whatever arrangement of equal targets \<open>sort.Slice\<close> chooses, also on a decoded histogram
  whose total is saturated; and when the counts add up to at most \<open>math.MaxInt64\<close>, the answers
  are those of the dense histogram with the same counts.\<close>

theorem packed_percentiles_refine:
  assumes "packed_ok p" "arranges arrange"
  shows "ValueAtPercentilesSlice_p arrange fused p ps = map (ValueAtPercentile_p fused p) ps \<and>
         (sum_list (slots p) \<le> MaxInt64 \<longrightarrow> ValueAtPercentile_p fused p pc = ValueAtPercentile fused (dense_of p) pc)"
  using ValueAtPercentilesSlice_p_eq [OF assms] ValueAtPercentile_dense_of [OF assms(1)] by blast

lemma arranges_sort_key: "arranges (sort_key target)"
  by (simp add: arranges_def)

theorem packed_percentiles_refine_witness:
  "ValueAtPercentilesSlice_p (sort_key target) True sample_packed [Fin 100, Fin 50] =
     [ValueAtPercentile_p True sample_packed (Fin 100), ValueAtPercentile_p True sample_packed (Fin 50)] \<and>
   ValueAtPercentile_p True sample_packed (Fin 50) = ValueAtPercentile True (dense_of sample_packed) (Fin 50)"
  using packed_percentiles_refine [OF sample_packed_ok(1) arranges_sort_key, of True "[Fin 100, Fin 50]" "Fin 50"] sample_packed_ok(2)
  by simp

end
