(* ===== verification/Cumulative.thy ===== *)
theory Cumulative
  imports Float64 Histogram
begin

text \<open>
  The cumulative distribution (\<open>hdr.go\<close>): the percentile iterator, which reports every percentile of a
  scale that gets finer by half at every halving of the distance to 100. The truncated logarithm
  \<open>math.Trunc(math.Log2(z))\<close> of a positive finite \<open>z\<close> is the parameter \<open>lb\<close>; \<open>math.Pow(2, k)\<close> is
  exact. The iterator need not end, so its loops are partial functions.
\<close>

section \<open>The percentile iterator\<close>

record p_iterator =
  p_it :: iter
  seenLastValue :: bool
  ticksPerHalfDistance :: int
  percentileToIteratorTo :: f64
  percentile :: f64

definition pIterator :: "int \<Rightarrow> p_iterator" where
  "pIterator ticks = \<lparr>p_it = iterator, seenLastValue = False, ticksPerHalfDistance = ticks,
     percentileToIteratorTo = Fin 0, percentile = Fin 0\<rparr>"

definition currentPercentile :: "histogram \<Rightarrow> iter \<Rightarrow> f64" where
  "currentPercentile h i = fdivide (fmul (Fin 100) (of_int64 (countToIdx i))) (of_int64 (totalCount h))"

text \<open>\<open>math.Trunc(math.Pow(2, k))\<close> for an integral \<open>k\<close>.\<close>

definition trunc_pow2 :: "int \<Rightarrow> f64" where
  "trunc_pow2 k = (if k \<ge> 1024 then Inf False else if k < 0 then Fin 0 else Fin (2 ^ nat k))"

definition halfDistance :: "(rat \<Rightarrow> int) \<Rightarrow> f64 \<Rightarrow> f64" where
  "halfDistance lb x =
     (case fdivide (Fin 100) (fsub (Fin 100) x) of
        NaN \<Rightarrow> NaN
      | Inf s \<Rightarrow> if s then NaN else Inf False
      | Fin z \<Rightarrow> if z < 0 then NaN else if z = 0 then Fin 0 else trunc_pow2 (lb z + 1))"

text \<open>The increment \<open>100.0 / percentileReportingTicks\<close>; a negative number of ticks times zero is the
  negative zero.\<close>

definition tick_step :: "(rat \<Rightarrow> int) \<Rightarrow> int \<Rightarrow> f64 \<Rightarrow> f64" where
  "tick_step lb ticks x =
     (let percentileReportingTicks = fmul (of_int64 ticks) (halfDistance lb x)
      in if percentileReportingTicks = Fin 0 then Inf (ticks < 0) else fdivide (Fin 100) percentileReportingTicks)"

definition report :: "(rat \<Rightarrow> int) \<Rightarrow> p_iterator \<Rightarrow> p_iterator" where
  "report lb p =
     p\<lparr>percentile := percentileToIteratorTo p,
       percentileToIteratorTo := fadd (percentileToIteratorTo p)
         (tick_step lb (ticksPerHalfDistance p) (percentileToIteratorTo p))\<rparr>"

text \<open>The loop of \<open>pIterator.next\<close>, after which it returns true.\<close>

partial_function (option) p_loop :: "(rat \<Rightarrow> int) \<Rightarrow> histogram \<Rightarrow> p_iterator \<Rightarrow> p_iterator option" where
  "p_loop lb h p =
     (if countAtIdx (p_it p) \<noteq> 0 \<and> fle (percentileToIteratorTo p) (currentPercentile h (p_it p))
      then Some (report lb p)
      else case iter_next h (p_it p) of
             (found, i) \<Rightarrow> if found then p_loop lb h (p\<lparr>p_it := i\<rparr>) else Some (p\<lparr>p_it := i\<rparr>))"

declare p_loop.simps [code]

definition pIterator_next :: "(rat \<Rightarrow> int) \<Rightarrow> histogram \<Rightarrow> p_iterator \<Rightarrow> (bool \<times> p_iterator) option" where
  "pIterator_next lb h p =
     (if countToIdx (p_it p) \<ge> totalCount h
      then if seenLastValue p then Some (False, p)
           else Some (True, p\<lparr>seenLastValue := True, percentile := Fin 100\<rparr>)
      else if it_subBucketIdx (p_it p) = - 1
      then case iter_next h (p_it p) of
             (found, i) \<Rightarrow> if found then map_option (Pair True) (p_loop lb h (p\<lparr>p_it := i\<rparr>)) else Some (False, p\<lparr>p_it := i\<rparr>)
      else map_option (Pair True) (p_loop lb h p))"

section \<open>The distribution\<close>

record bracket =
  Quantile :: f64
  b_Count :: int
  ValueAt :: int

definition bracket_at :: "p_iterator \<Rightarrow> bracket" where
  "bracket_at p = \<lparr>Quantile = percentile p, b_Count = countToIdx (p_it p), ValueAt = it_highestEquivalentValue (p_it p)\<rparr>"

partial_function (option) brackets :: "(rat \<Rightarrow> int) \<Rightarrow> histogram \<Rightarrow> p_iterator \<Rightarrow> bracket list option" where
  "brackets lb h p =
     Option.bind (pIterator_next lb h p) (\<lambda>(more, p').
       if more then Option.bind (brackets lb h p') (\<lambda>rest. Some (bracket_at p' # rest)) else Some [])"

declare brackets.simps [code]

definition CumulativeDistributionWithTicks :: "(rat \<Rightarrow> int) \<Rightarrow> histogram \<Rightarrow> int \<Rightarrow> bracket list option" where
  "CumulativeDistributionWithTicks lb h ticks = brackets lb h (pIterator ticks)"

definition CumulativeDistribution :: "(rat \<Rightarrow> int) \<Rightarrow> histogram \<Rightarrow> bracket list option" where
  "CumulativeDistribution lb h = brackets lb h (pIterator 1)"

end
