(* ===== verification/Statistics.thy ===== *)
theory Statistics
  imports Float64 Packed
begin

text \<open>
  The mean and the standard deviation of both histograms (\<open>hdr.go\<close>, \<open>packed_queries.go\<close>) in
  \<open>float64\<close>. Every product is divided before it is added, so that no multiplication and addition
  can be fused. \<open>math.Sqrt\<close> is the correctly rounded square root.
\<close>

section \<open>Square roots\<close>

text \<open>The integer square root, digit by digit in base four.\<close>

fun isqrt :: "nat \<Rightarrow> nat" where
  "isqrt n =
     (if n = 0 then 0
      else let r = 2 * isqrt (n div 4) in if (r + 1) * (r + 1) \<le> n then r + 1 else r)"

declare isqrt.simps [simp del]

text \<open>The nearest multiple of the quantum of the root: a square root is never subnormal.\<close>

definition sqrt_quantum :: "rat \<Rightarrow> rat" where
  "sqrt_quantum x = 2 powi (ilog2 x div 2 - 52)"

definition round_sqrt :: "rat \<Rightarrow> rat" where
  "round_sqrt x =
     (let q = sqrt_quantum x; y = x / (q * q); r = isqrt (nat \<lfloor>y\<rfloor>); half = of_nat r + 1 / 2
      in (if y > half * half \<or> y = half * half \<and> odd r then of_nat (r + 1) else of_nat r) * q)"

fun fsqrt :: "f64 \<Rightarrow> f64" where
  "fsqrt (Fin x) = (if x < 0 then NaN else if x = 0 then Fin 0 else Fin (round_sqrt x))"
| "fsqrt (Inf s) = (if s then NaN else Inf False)"
| "fsqrt NaN = NaN"

section \<open>The dense histogram\<close>

text \<open>The loop bodies, for one bucket with its count and its value.\<close>

definition mean_step :: "histogram \<Rightarrow> f64 \<Rightarrow> f64 \<Rightarrow> int \<times> int \<Rightarrow> f64" where
  "mean_step g tc mean = (\<lambda>(v, c).
     fadd mean (fdivide (fmul (of_int64 c) (of_int64 (medianEquivalentValue g v))) tc))"

definition dev_step :: "histogram \<Rightarrow> f64 \<Rightarrow> f64 \<Rightarrow> f64 \<Rightarrow> int \<times> int \<Rightarrow> f64" where
  "dev_step g tc mean variance = (\<lambda>(v, c).
     (let dev = fsub (of_int64 (medianEquivalentValue g v)) mean
      in fadd variance (fdivide (fmul (fmul dev dev) (of_int64 c)) tc)))"

definition Mean :: "histogram \<Rightarrow> error + f64" where
  "Mean h =
     (if totalCount h = 0 then Inr (Fin 0)
      else case iter_states h iterator of
             None \<Rightarrow> Inl Diverges
           | Some is \<Rightarrow>
               Inr (foldl (\<lambda>mean i. if countAtIdx i \<noteq> 0
                      then mean_step h (of_int64 (totalCount h)) mean (valueFromIdx i, countAtIdx i) else mean) (Fin 0) is))"

definition StdDev :: "histogram \<Rightarrow> error + f64" where
  "StdDev h =
     (if totalCount h = 0 then Inr (Fin 0)
      else case Mean h of
             Inl e \<Rightarrow> Inl e
           | Inr mean \<Rightarrow>
               (case iter_states h iterator of
                  None \<Rightarrow> Inl Diverges
                | Some is \<Rightarrow>
                    Inr (fsqrt (foldl (\<lambda>variance i. if countAtIdx i \<noteq> 0
                       then dev_step h (of_int64 (totalCount h)) mean variance (valueFromIdx i, countAtIdx i)
                       else variance) (Fin 0) is))))"

section \<open>The sparse histogram\<close>

text \<open>Its counts can sum past the \<open>int64\<close> range, where the total is saturated.\<close>

definition statisticsCount :: "packed \<Rightarrow> f64" where
  "statisticsCount p =
     (if p_totalCount p < MaxInt64 then of_int64 (p_totalCount p)
      else foldl (\<lambda>tc i. fadd tc (of_int64 (slotGet p (int i)))) (Fin 0) [0..<nat (p_size p)])"

definition Mean_p :: "packed \<Rightarrow> f64" where
  "Mean_p p =
     (let tc = statisticsCount p
      in if feq tc (Fin 0) then Fin 0
         else foldl (\<lambda>mean i. mean_step (p_geom p) tc mean
                (valueFromFlatIndex (p_geom p) (p_idx p ! i), slotGet p (int i))) (Fin 0) [0..<nat (p_size p)])"

definition StdDev_p :: "packed \<Rightarrow> f64" where
  "StdDev_p p =
     (let tc = statisticsCount p
      in if feq tc (Fin 0) then Fin 0
         else let mean = Mean_p p
              in fsqrt (foldl (\<lambda>variance i. dev_step (p_geom p) tc mean variance
                   (valueFromFlatIndex (p_geom p) (p_idx p ! i), slotGet p (int i))) (Fin 0) [0..<nat (p_size p)]))"

end
