(* ===== verification/Go_Text.thy ===== *)
theory Go_Text
  imports Float64 Hist_Types
begin

text \<open>
  The parts of \<open>fmt\<close>, \<open>strconv\<close> and \<open>regexp\<close> that the interval log uses, on strings of bytes: decimal
  numbers written with \<open>%d\<close> and \<open>%f\<close>, \<open>strconv.ParseFloat\<close> on a text of digits and dots (all its
  callers' regular expressions let through), and the regular expressions themselves. A text written
  with \<open>%f\<close> is read back as the number of millionths it shows.
\<close>

section \<open>Writing numbers\<close>

definition digit_char :: "nat \<Rightarrow> char" where
  "digit_char d = char_of (48 + d)"

definition is_digit :: "char \<Rightarrow> bool" where
  "is_digit c \<longleftrightarrow> 48 \<le> (of_char c :: nat) \<and> (of_char c :: nat) \<le> 57"

definition digit_val :: "char \<Rightarrow> nat" where
  "digit_val c = of_char c - 48"

fun show_nat :: "nat \<Rightarrow> string" where
  "show_nat n = (if n < 10 then [digit_char n] else show_nat (n div 10) @ [digit_char (n mod 10)])"

declare show_nat.simps [simp del]

definition show_int :: "int \<Rightarrow> string" where
  "show_int k = (if k < 0 then ''-'' @ show_nat (nat (- k)) else show_nat (nat k))"

fun pad_digits :: "nat \<Rightarrow> nat \<Rightarrow> string" where
  "pad_digits 0 n = []"
| "pad_digits (Suc k) n = pad_digits k (n div 10) @ [digit_char (n mod 10)]"

text \<open>\<open>%f\<close> has six decimals; the last is rounded to nearest, ties to even.\<close>

definition millionths :: "rat \<Rightarrow> nat" where
  "millionths x = nat (round_even (x * 1000000))"

definition show_fixed :: "nat \<Rightarrow> string" where
  "show_fixed m = show_nat (m div 1000000) @ ''.'' @ pad_digits 6 (m mod 1000000)"

fun show_f :: "f64 \<Rightarrow> string" where
  "show_f NaN = ''NaN''"
| "show_f (Inf s) = (if s then ''-Inf'' else ''+Inf'')"
| "show_f (Fin x) = (if x < 0 then ''-'' @ show_fixed (millionths (- x)) else show_fixed (millionths x))"

section \<open>Reading numbers\<close>

definition digits_val :: "string \<Rightarrow> nat" where
  "digits_val ds = foldl (\<lambda>v c. 10 * v + digit_val c) 0 ds"

text \<open>The characters of the class \<open>[\d\.]\<close>.\<close>

definition is_num_char :: "char \<Rightarrow> bool" where
  "is_num_char c \<longleftrightarrow> is_digit c \<or> c = CHR ''.''"

text \<open>The value, which the callers assign also on failure, and the error.\<close>

definition ParseFloat :: "string \<Rightarrow> f64 \<times> error option" where
  "ParseFloat s =
     (let ds = takeWhile is_digit s; rest = dropWhile is_digit s;
          fs = (if rest = [] then [] else tl rest)
      in if (ds = [] \<and> fs = []) \<or> \<not> list_all is_digit fs then (Fin 0, Some (BadNumber s))
         else case of_rat64 (of_nat (digits_val (ds @ fs)) / 10 ^ length fs) of
                Inf b \<Rightarrow> (Inf b, Some (BadNumber s))
              | v \<Rightarrow> (v, None))"

section \<open>Regular expressions\<close>

text \<open>The text after the first occurrence of a literal.\<close>

fun after_literal :: "string \<Rightarrow> string \<Rightarrow> string option" where
  "after_literal lit s =
     (if take (length lit) s = lit then Some (drop (length lit) s)
      else case s of [] \<Rightarrow> None | _ # s' \<Rightarrow> after_literal lit s')"

declare after_literal.simps [simp del]

text \<open>A literal followed by \<open>([\d\.]*)\<close>, with its submatch.\<close>

definition match_literal_number :: "string \<Rightarrow> string \<Rightarrow> string option" where
  "match_literal_number lit s = map_option (takeWhile is_num_char) (after_literal lit s)"

text \<open>\<open>([\d\.]*),\<close> at the front of a text: the submatch and the rest. The class has no comma, so
  there is nothing to backtrack.\<close>

definition number_comma :: "string \<Rightarrow> (string \<times> string) option" where
  "number_comma s =
     (case dropWhile is_num_char s of
        c # rest \<Rightarrow> if c = CHR '','' then Some (takeWhile is_num_char s, rest) else None
      | [] \<Rightarrow> None)"

definition newline :: char where
  "newline = char_of (10 :: nat)"

text \<open>\<open>([\d\.]*),([\d\.]*),([\d\.]*),(.*)\<close>: the leftmost match. A dot matches everything but a newline.\<close>

definition interval_here :: "string \<Rightarrow> (string \<times> string \<times> string \<times> string) option" where
  "interval_here s =
     (case number_comma s of
        None \<Rightarrow> None
      | Some (a, s1) \<Rightarrow>
          (case number_comma s1 of
             None \<Rightarrow> None
           | Some (b, s2) \<Rightarrow>
               (case number_comma s2 of
                  None \<Rightarrow> None
                | Some (c, s3) \<Rightarrow> Some (a, b, c, takeWhile (\<lambda>x. x \<noteq> newline) s3))))"

fun match_interval :: "string \<Rightarrow> (string \<times> string \<times> string \<times> string) option" where
  "match_interval [] = None"
| "match_interval (x # s) = (case interval_here (x # s) of None \<Rightarrow> match_interval s | Some m \<Rightarrow> Some m)"

section \<open>Round trips\<close>

lemma of_char_digit: "d < 10 \<Longrightarrow> of_char (digit_char d) = 48 + d"
  by (simp add: digit_char_def)

lemma digit_char_facts [simp]:
  "d < 10 \<Longrightarrow> is_digit (digit_char d)" "d < 10 \<Longrightarrow> digit_val (digit_char d) = d"
  by (simp_all add: is_digit_def digit_val_def of_char_digit)

lemma special_not_digit [simp]: "\<not> is_digit CHR ''.''" "\<not> is_num_char CHR '',''" "is_num_char CHR ''.''"
  "is_digit c \<Longrightarrow> is_num_char c"
  by (simp_all add: is_digit_def is_num_char_def)

lemma digits_show_nat: "list_all is_digit (show_nat n)"
  by (induction n rule: show_nat.induct) (subst show_nat.simps, simp)

lemma show_nat_nonempty: "show_nat n \<noteq> []"
  by (subst show_nat.simps) simp

lemma digits_pad: "list_all is_digit (pad_digits k n)"
  by (induction k n rule: pad_digits.induct) simp_all

lemma length_pad [simp]: "length (pad_digits k n) = k"
  by (induction k n rule: pad_digits.induct) simp_all

lemma digits_val_append: "digits_val (s @ t) = digits_val s * 10 ^ length t + digits_val t"
proof (induction t rule: rev_induct)
  case (snoc c t)
  then show ?case by (simp add: digits_val_def flip: append_assoc)
qed (simp add: digits_val_def)

lemma digits_val_single: "digits_val [c] = digit_val c"
  by (simp add: digits_val_def)

lemma digits_val_show_nat: "digits_val (show_nat n) = n"
proof (induction n rule: show_nat.induct)
  case (1 n)
  then show ?case by (subst show_nat.simps) (simp add: digits_val_append digits_val_single)
qed

lemma digits_val_pad: "n < 10 ^ k \<Longrightarrow> digits_val (pad_digits k n) = n"
proof (induction k arbitrary: n)
  case (Suc k)
  then show ?case by (simp add: digits_val_append digits_val_single)
qed (simp add: digits_val_def)

lemma takeWhile_digits: "list_all is_digit ds \<Longrightarrow> takeWhile is_digit (ds @ CHR ''.'' # fs) = ds"
  "list_all is_digit ds \<Longrightarrow> dropWhile is_digit (ds @ CHR ''.'' # fs) = CHR ''.'' # fs"
  by (induction ds) simp_all

lemma digits_no_newline: "list_all is_digit s \<Longrightarrow> newline \<notin> set s"
  by (auto simp: list_all_iff is_digit_def newline_def)

text \<open>What \<open>%f\<close> writes for a number that is not negative is read back as the millionths it shows.\<close>

lemma ParseFloat_show_fixed:
  "ParseFloat (show_fixed m) =
     (case of_rat64 (of_nat m / 1000000) of Inf b \<Rightarrow> (Inf b, Some (BadNumber (show_fixed m))) | v \<Rightarrow> (v, None))"
proof -
  let ?ds = "show_nat (m div 1000000)" and ?fs = "pad_digits 6 (m mod 1000000)"
  have "digits_val (?ds @ ?fs) = m"
    by (simp add: digits_val_append digits_val_show_nat digits_val_pad)
  then show ?thesis
    using show_nat_nonempty [of "m div 1000000"]
    by (simp add: ParseFloat_def show_fixed_def takeWhile_digits digits_show_nat digits_pad Let_def split: f64.split)
qed

lemma show_fixed_chars: "list_all is_num_char (show_fixed m)"
  using digits_show_nat [of "m div 1000000"] digits_pad [of 6 "m mod 1000000"]
  by (auto simp: show_fixed_def list_all_iff)

lemma number_comma_match: "list_all is_num_char s \<Longrightarrow> number_comma (s @ CHR '','' # rest) = Some (s, rest)"
proof -
  assume "list_all is_num_char s"
  then have "takeWhile is_num_char (s @ CHR '','' # rest) = s" "dropWhile is_num_char (s @ CHR '','' # rest) = CHR '','' # rest"
    by (induction s) simp_all
  then show ?thesis by (simp add: number_comma_def)
qed

end
