(* ===== verification/Printing.thy ===== *)
theory Printing
  imports Cumulative Statistics Go_Text
begin

text \<open>
  The printed forms (\<open>hdr.go\<close>): \<open>Bar.String\<close> and \<open>PercentilesPrint\<close>, the table of the cumulative
  distribution. The sink is a parameter with a state, and every write may fail. The verbs of \<open>fmt\<close> are
  those of \<open>Go_Text\<close> with other precisions; the sign of a zero is not modelled, which shows only for
  a value scale that is negative.
\<close>

section \<open>Numbers in columns\<close>

text \<open>\<open>%.nf\<close>: \<open>n\<close> decimals, the last rounded to nearest, ties to even.\<close>

definition show_decimal :: "nat \<Rightarrow> nat \<Rightarrow> string" where
  "show_decimal n m = show_nat (m div 10 ^ n) @ ''.'' @ pad_digits n (m mod 10 ^ n)"

fun show_prec :: "nat \<Rightarrow> f64 \<Rightarrow> string" where
  "show_prec n NaN = ''NaN''"
| "show_prec n (Inf s) = (if s then ''-Inf'' else ''+Inf'')"
| "show_prec n (Fin x) =
     (if x < 0 then ''-'' @ show_decimal n (nat (round_even (- x * 10 ^ n))) else show_decimal n (nat (round_even (x * 10 ^ n))))"

text \<open>The width 12: blanks in front.\<close>

definition pad12 :: "string \<Rightarrow> string" where
  "pad12 s = replicate (12 - length s) CHR '' '' @ s"

definition tab :: char where
  "tab = char_of (9 :: nat)"

section \<open>Bars\<close>

definition String_bar :: "bar \<Rightarrow> string" where
  "String_bar b = show_int (From b) @ '', '' @ show_int (To b) @ '', '' @ show_int (Count b) @ [newline]"

section \<open>The table of percentiles\<close>

text \<open>A sink takes a text and may report an error; its state is what it keeps.\<close>

type_synonym ('w, 'e) sink = "'w \<Rightarrow> string \<Rightarrow> 'w \<times> 'e option"

definition table_head :: string where
  "table_head = '' Value'' @ [tab] @ ''Percentile'' @ [tab] @ ''TotalCount'' @ [tab] @ ''1/(1-Percentile)'' @ [newline, newline]"

definition table_row :: "f64 \<Rightarrow> bracket \<Rightarrow> string" where
  "table_row valueScale b =
     (let percentile = fdivide (Quantile b) (Fin 100);
          inverted_percentile = fdivide (Fin 1) (fsub (Fin 1) percentile);
          inverted_percentile_string =
            (if inverted_percentile = Inf False then pad12 ''inf'' else pad12 (show_prec 2 inverted_percentile))
      in pad12 (show_prec 3 (fdivide (of_int64 (ValueAt b)) valueScale)) @ '' '' @ pad12 (show_prec 6 percentile) @ '' '' @
         pad12 (show_int (b_Count b)) @ '' '' @ inverted_percentile_string @ [newline])"

fun print_rows :: "('w, 'e) sink \<Rightarrow> f64 \<Rightarrow> 'w \<Rightarrow> bracket list \<Rightarrow> 'w \<times> 'e option" where
  "print_rows put valueScale w [] = (w, None)"
| "print_rows put valueScale w (b # bs) =
     (case put w (table_row valueScale b) of
        (w', Some e) \<Rightarrow> (w', Some e)
      | (w', None) \<Rightarrow> print_rows put valueScale w' bs)"

definition table_foot :: "histogram \<Rightarrow> f64 \<Rightarrow> error + string" where
  "table_foot h valueScale =
     (case Mean h of Inl e \<Rightarrow> Inl e | Inr mean \<Rightarrow>
      (case StdDev h of Inl e \<Rightarrow> Inl e | Inr dev \<Rightarrow>
       (case Max_h h of Inl e \<Rightarrow> Inl e | Inr mx \<Rightarrow>
         Inr (''#[Mean    = '' @ pad12 (show_prec 3 (fdivide mean valueScale)) @
              '', StdDeviation   = '' @ pad12 (show_prec 3 (fdivide dev valueScale)) @ '']'' @ [newline] @
              ''#[Max     = '' @ pad12 (show_prec 3 (fdivide (of_int64 mx) valueScale)) @
              '', Total count    = '' @ pad12 (show_int (TotalCount h)) @ '']'' @ [newline] @
              ''#[Buckets = '' @ pad12 (show_int (bucketCount h)) @
              '', SubBuckets     = '' @ pad12 (show_int (subBucketCount h)) @ '']'' @ [newline]))))"

definition PercentilesPrint :: "(rat \<Rightarrow> int) \<Rightarrow> ('w, 'e) sink \<Rightarrow> histogram \<Rightarrow> 'w \<Rightarrow> int \<Rightarrow> f64 \<Rightarrow> error + ('w \<times> 'e option)" where
  "PercentilesPrint lb put h w ticks valueScale =
     (case CumulativeDistributionWithTicks lb h ticks of
        None \<Rightarrow> Inl Diverges
      | Some distribution \<Rightarrow>
          (case put w table_head of
             (w', Some e) \<Rightarrow> Inr (w', Some e)
           | (w', None) \<Rightarrow>
               (case print_rows put valueScale w' distribution of
                  (w'', Some e) \<Rightarrow> Inr (w'', Some e)
                | (w'', None) \<Rightarrow>
                    (case table_foot h valueScale of Inl e \<Rightarrow> Inl e | Inr footer \<Rightarrow> Inr (put w'' footer)))))"

end
