(* ===== verification/Statistics_Spec.thy ===== *)
theory Statistics_Spec
  imports Statistics Packed_Spec Percentile_Rank
begin

text \<open>
  The mean and the standard deviation. The loops run over the populated buckets (\<open>contents\<close>). The
  rounding errors of the mean are all relative, since no number in its sum is negative (\<open>near\<close> counts
  the roundings), so that the result is close to the mean of the medians of the recorded values; the
  sum of the standard deviation stays finite, and its square root is correctly rounded.
\<close>

section \<open>Loops over the populated buckets\<close>

definition contents :: "histogram \<Rightarrow> (int \<times> int) list" where
  "contents h = map (\<lambda>k. (valueFromFlatIndex h (int k), counts h ! k)) (populated h)"

lemma foldl_populated:
  "foldl (\<lambda>s i. if countAtIdx i \<noteq> 0 then f s (valueFromIdx i, countAtIdx i) else s) s0 is =
   foldl f s0 (map (\<lambda>i. (valueFromIdx i, countAtIdx i)) (filter (\<lambda>i. countAtIdx i \<noteq> 0) is))"
  by (induction "is" arbitrary: s0) simp_all

lemma loop_contents:
  assumes "hist_ok h"
  obtains sts where "iter_states h iterator = Some sts"
    "map (\<lambda>j. (valueFromIdx j, countAtIdx j)) (filter (\<lambda>j. countAtIdx j \<noteq> 0) sts) = contents h"
  using iter_states_ok [OF assms] unfolding contents_def .

lemma Mean_eq:
  assumes "hist_ok h"
  shows "Mean h = Inr (if totalCount h = 0 then Fin 0 else foldl (mean_step h (of_int64 (totalCount h))) (Fin 0) (contents h))"
proof -
  from loop_contents [OF assms] obtain sts where "iter_states h iterator = Some sts"
    "map (\<lambda>j. (valueFromIdx j, countAtIdx j)) (filter (\<lambda>j. countAtIdx j \<noteq> 0) sts) = contents h" .
  then show ?thesis by (simp add: Mean_def foldl_populated)
qed

definition variance :: "histogram \<Rightarrow> f64 \<Rightarrow> f64" where
  "variance h mean = foldl (dev_step h (of_int64 (totalCount h)) mean) (Fin 0) (contents h)"

lemma StdDev_eq:
  assumes "hist_ok h" "totalCount h \<noteq> 0" "Mean h = Inr m"
  shows "StdDev h = Inr (fsqrt (variance h m))"
proof -
  from loop_contents [OF assms(1)] obtain sts where "iter_states h iterator = Some sts"
    "map (\<lambda>j. (valueFromIdx j, countAtIdx j)) (filter (\<lambda>j. countAtIdx j \<noteq> 0) sts) = contents h" .
  then show ?thesis using assms(2,3) by (simp add: StdDev_def foldl_populated variance_def)
qed

section \<open>The sparse histogram\<close>

lemma contents_dense_of:
  assumes wf: "packed_wf p"
  shows "contents (dense_of p) = map (\<lambda>i. (valueFromFlatIndex (p_geom p) (p_idx p ! i), slotGet p (int i))) [0..<nat (p_size p)]"
proof -
  note D = packed_wfD [OF wf]
  let ?f = "\<lambda>j. (valueFromFlatIndex (p_geom p) j, count_at p j)"
  have "contents (dense_of p) = map (?f \<circ> int) (populated (dense_of p))"
    by (auto simp: contents_def populated_def nth_dense_of)
  also have "\<dots> = map ?f (p_idx p)" using populated_dense_of [OF wf] by (simp flip: map_map)
  also have "\<dots> = map ?f (map ((!) (p_idx p)) [0..<length (p_idx p)])" by (simp only: map_nth)
  also have "\<dots> = map (\<lambda>i. (valueFromFlatIndex (p_geom p) (p_idx p ! i), slotGet p (int i))) [0..<nat (p_size p)]"
  proof -
    have n: "nat (p_size p) = length (p_idx p)" using D(5) by simp
    have "slots p ! i = slotGet p (int i)" if "i < length (p_idx p)" for i using that n by (simp add: slots_def)
    then show ?thesis using count_at_nth [OF wf] n by simp
  qed
  finally show ?thesis .
qed

lemma step_geom [simp]: "mean_step (dense_of p) = mean_step (p_geom p)" "dev_step (dense_of p) = dev_step (p_geom p)"
  by (simp_all add: fun_eq_iff mean_step_def dev_step_def dense_of_def)

lemma of_int64_fin:
  assumes "0 \<le> k" "k \<le> MaxInt64"
  shows "of_int64 k = Fin (round64 (of_int k))"
proof -
  have "(of_int k :: rat) \<le> of_int MaxInt64" using assms(2) by (simp only: of_int_le_iff)
  then show ?thesis using assms(1) by (simp add: of_int64_def of_rat64_fin)
qed

lemma round64_int_pos: "1 \<le> k \<Longrightarrow> 1 \<le> round64 (of_int k)"
  using round64_mono [of 1 "of_int k"] round64_exact [OF dyadic_of_int [of 1]] by simp

section \<open>Relative errors\<close>

definition unit_error :: rat where
  "unit_error = 1 / 2 ^ 53"

lemma unit_error: "0 < unit_error" "unit_error < 1"
  by (simp_all add: unit_error_def)

text \<open>An approximation after \<open>k\<close> roundings of a number that is not negative.\<close>

definition near :: "nat \<Rightarrow> rat \<Rightarrow> rat \<Rightarrow> bool" where
  "near k a x \<longleftrightarrow> 0 \<le> x \<and> x * (1 - unit_error) ^ k \<le> a \<and> a \<le> x * (1 + unit_error) ^ k"

lemma near_refl: "0 \<le> x \<Longrightarrow> near 0 x x"
  by (simp add: near_def)

lemma near_nonneg: "near k a x \<Longrightarrow> 0 \<le> a"
proof -
  assume n: "near k a x"
  have "0 \<le> (1 - unit_error) ^ k" using unit_error by simp
  then have "0 \<le> x * (1 - unit_error) ^ k" using n by (simp add: near_def)
  then show "0 \<le> a" using n by (simp add: near_def)
qed

lemma near_zero: "near k 0 0" "near k a 0 \<Longrightarrow> a = 0"
  by (simp_all add: near_def)

lemma near_mono:
  assumes "near k a x" "k \<le> l"
  shows "near l a x"
proof -
  have "(1 - unit_error) ^ l \<le> (1 - unit_error) ^ k" "(1 + unit_error) ^ k \<le> (1 + unit_error) ^ l"
    using unit_error assms(2) by (simp_all add: power_decreasing power_increasing)
  then have "x * (1 - unit_error) ^ l \<le> x * (1 - unit_error) ^ k" "x * (1 + unit_error) ^ k \<le> x * (1 + unit_error) ^ l"
    using assms(1) by (simp_all add: near_def mult_left_mono)
  then show ?thesis using assms(1) by (auto simp: near_def)
qed

lemma near_mult:
  assumes "near k a x" "near l b y"
  shows "near (k + l) (a * b) (x * y)"
proof -
  have a: "0 \<le> a" "0 \<le> b" using assms near_nonneg by auto
  have "x * (1 - unit_error) ^ k * (y * (1 - unit_error) ^ l) \<le> a * b"
    using assms a unit_error by (intro mult_mono) (simp_all add: near_def)
  moreover have "a * b \<le> x * (1 + unit_error) ^ k * (y * (1 + unit_error) ^ l)"
    using assms a unit_error by (intro mult_mono) (simp_all add: near_def)
  ultimately show ?thesis using assms by (simp add: near_def power_add algebra_simps)
qed

lemma near_add:
  assumes "near k a x" "near k b y"
  shows "near k (a + b) (x + y)"
  using assms by (simp add: near_def distrib_right)

lemma near_inverse:
  assumes "near 1 t T" "0 < T"
  shows "near 2 (1 / t) (1 / T)"
proof -
  let ?u = unit_error
  have t: "T * (1 - ?u) \<le> t" "t \<le> T * (1 + ?u)" using assms(1) by (simp_all add: near_def)
  have p: "0 < T * (1 - ?u)" using assms(2) unit_error by simp
  have "1 / t \<le> 1 / (T * (1 - ?u))" using t(1) p by (intro divide_left_mono) simp_all
  also have "\<dots> \<le> 1 / T * (1 + ?u) ^ 2"
  proof -
    have "1 \<le> (1 + ?u) ^ 2 * (1 - ?u)" by (simp add: unit_error_def power2_eq_square)
    then have "1 / (1 - ?u) \<le> (1 + ?u) ^ 2" using unit_error by (simp only: pos_divide_le_eq diff_gt_0_iff_gt)
    then have "1 / T * (1 / (1 - ?u)) \<le> 1 / T * (1 + ?u) ^ 2" using assms(2) by (intro mult_left_mono) simp_all
    then show ?thesis by simp
  qed
  finally have up: "1 / t \<le> 1 / T * (1 + ?u) ^ 2" .
  have "1 / T * (1 - ?u) ^ 2 \<le> 1 / (T * (1 + ?u))"
  proof -
    have "(1 - ?u) ^ 2 * (1 + ?u) \<le> 1" by (simp add: unit_error_def power2_eq_square)
    moreover have "0 < 1 + ?u" using unit_error by simp
    ultimately have "(1 - ?u) ^ 2 \<le> 1 / (1 + ?u)" by (simp only: pos_le_divide_eq)
    then have "1 / T * (1 - ?u) ^ 2 \<le> 1 / T * (1 / (1 + ?u))" using assms(2) by (intro mult_left_mono) simp_all
    then show ?thesis by simp
  qed
  also have "\<dots> \<le> 1 / t"
  proof -
    have "0 < t" using p t(1) by linarith
    moreover have "0 < T * (1 + ?u)" using assms(2) unit_error by simp
    ultimately show ?thesis using t(2) by (intro divide_left_mono) simp_all
  qed
  finally show ?thesis using up assms(2) by (simp add: near_def)
qed

lemma round64_rel:
  assumes "2 powi (- 1022) \<le> x"
  shows "near 1 (round64 x) x"
proof -
  have x: "0 < x" by (rule less_le_trans [OF _ assms]) simp
  have "- 1022 \<le> ilog2 x"
  proof (rule ccontr)
    assume "\<not> ?thesis"
    then have "(2 :: rat) powi (ilog2 x + 1) \<le> 2 powi (- 1022)" by (intro powi_mono) simp
    with ilog2_bounds(2) [OF x] assms show False by simp
  qed
  then have "\<bar>round64 x - x\<bar> \<le> 2 powi (ilog2 x + 1 - 54)" using ilog2_bounds(2) [OF x] x by (intro round64_error) simp_all
  also have "(2 :: rat) powi (ilog2 x + 1 - 54) = 2 powi (ilog2 x) * unit_error"
  proof -
    have "(2 :: rat) powi (ilog2 x + (- 53)) = 2 powi (ilog2 x) * 2 powi (- 53)" by (rule power_int_add) simp
    moreover have "(2 :: rat) powi (- 53) = unit_error" by (simp add: unit_error_def power_int_def field_simps)
    moreover have "ilog2 x + 1 - 54 = ilog2 x + (- 53)" by simp
    ultimately show ?thesis by (simp only:)
  qed
  also have "\<dots> \<le> x * unit_error" using ilog2_bounds(1) [OF x] unit_error by (intro mult_right_mono) simp_all
  finally show ?thesis using x by (simp add: near_def abs_le_iff algebra_simps)
qed

lemma near_round:
  assumes "near k a x" "a = 0 \<or> 2 powi (- 1022) \<le> a"
  shows "near (k + 1) (round64 a) x"
proof (cases "a = 0")
  case True
  then have "near (k + 1) a x" by (intro near_mono [OF assms(1)]) simp
  with True show ?thesis by (simp add: round64_0)
next
  case False
  with assms have r: "near 1 (round64 a) a" by (intro round64_rel) simp
  have x: "0 \<le> x" "x * (1 - unit_error) ^ k \<le> a" "a \<le> x * (1 + unit_error) ^ k" using assms(1) by (simp_all add: near_def)
  have m: "x * (1 - unit_error) ^ k * (1 - unit_error) \<le> a * (1 - unit_error)"
    "a * (1 + unit_error) \<le> x * (1 + unit_error) ^ k * (1 + unit_error)"
    using unit_error by (intro mult_right_mono [OF x(2)] mult_right_mono [OF x(3)]; simp)+
  have e: "x * (1 - unit_error) ^ (k + 1) = x * (1 - unit_error) ^ k * (1 - unit_error)"
    "x * (1 + unit_error) ^ (k + 1) = x * (1 + unit_error) ^ k * (1 + unit_error)" by simp_all
  have q: "a * (1 - unit_error) \<le> round64 a" "round64 a \<le> a * (1 + unit_error)" using r by (simp_all add: near_def)
  show ?thesis unfolding near_def e by (intro conjI x(1) order_trans [OF m(1) q(1)] order_trans [OF q(2) m(2)])
qed

text \<open>Up to \<open>2 ^ 52\<close> roundings the error is linear in their number.\<close>

lemma near_linear:
  assumes "near k a x" "k \<le> 2 ^ 52"
  shows "\<bar>a - x\<bar> \<le> x * of_nat k / 2 ^ 52" "a \<le> 2 * x"
proof -
  let ?u = unit_error and ?k = "of_nat k :: rat"
  have k: "?k * ?u \<le> 1 / 2"
  proof -
    have "?k \<le> of_nat (2 ^ 52)" using assms(2) by (simp only: of_nat_le_iff)
    then show ?thesis by (simp add: unit_error_def)
  qed
  have x: "0 \<le> x" "x * (1 - ?u) ^ k \<le> a" "a \<le> x * (1 + ?u) ^ k" using assms(1) by (simp_all add: near_def)
  let ?m = "(1 - ?u) ^ k" and ?p = "(1 + ?u) ^ k"
  have "1 - of_nat n * ?u \<le> (1 - ?u) ^ n" for n
  proof (induction n)
    case (Suc n)
    have "(1 - of_nat n * ?u) * (1 - ?u) \<le> (1 - ?u) ^ n * (1 - ?u)" using Suc unit_error by (intro mult_right_mono) simp_all
    moreover have "1 - of_nat (Suc n) * ?u \<le> (1 - of_nat n * ?u) * (1 - ?u)" using unit_error by (simp add: algebra_simps)
    ultimately show ?case by (simp add: mult.commute)
  qed simp
  then have lo: "1 - ?k * ?u \<le> ?m" by blast
  have "?p * ?m = ((1 + ?u) * (1 - ?u)) ^ k" by (simp only: power_mult_distrib)
  also have "\<dots> \<le> 1" by (intro power_le_one) (simp_all add: unit_error_def)
  finally have pm: "?p * ?m \<le> 1" .
  have p0: "0 \<le> ?p" using unit_error by simp
  have "?p * (1 - ?k * ?u) \<le> ?p * ?m" using lo p0 by (rule mult_left_mono)
  then have hi: "?p * (1 - ?k * ?u) \<le> 1" using pm by linarith
  have "?p \<le> 1 + 2 * (?k * ?u)"
  proof (rule ccontr)
    assume "\<not> ?thesis"
    then have "(1 + 2 * (?k * ?u)) * (1 - ?k * ?u) < ?p * (1 - ?k * ?u)" using k by (intro mult_strict_right_mono) simp_all
    moreover have "1 \<le> (1 + 2 * (?k * ?u)) * (1 - ?k * ?u)"
    proof -
      have "(?k * ?u) * (?k * ?u) \<le> (?k * ?u) * (1 / 2)" using k unit_error by (intro mult_left_mono) simp_all
      then show ?thesis by (simp add: algebra_simps)
    qed
    ultimately show False using hi by linarith
  qed
  then have "x * ?p \<le> x * (1 + 2 * (?k * ?u))" "x * (1 - ?k * ?u) \<le> x * ?m" using x(1) lo by (auto intro: mult_left_mono)
  then have up: "a \<le> x + x * (2 * (?k * ?u))" and dn: "x - x * (?k * ?u) \<le> a" using x(2,3) by (simp_all add: algebra_simps)
  have e: "x * ?k / 2 ^ 52 = x * (2 * (?k * ?u))" by (simp add: unit_error_def)
  have n: "0 \<le> x * (?k * ?u)" using x(1) unit_error by simp
  show "\<bar>a - x\<bar> \<le> x * ?k / 2 ^ 52" unfolding e using up dn n by (simp add: abs_le_iff)
  have "x * (2 * (?k * ?u)) \<le> x * 1" using k x(1) by (intro mult_left_mono) simp_all
  then show "a \<le> 2 * x" using up by simp
qed

section \<open>The mean\<close>

lemma median_range:
  assumes g: "geom_ok h" and v: "0 \<le> v" "v \<le> MaxInt64"
  shows "medianEquivalentValue h v = lowestEquivalentValue h v + sizeOfEquivalentValueRange h v div 2"
    and "0 \<le> medianEquivalentValue h v" and "medianEquivalentValue h v \<le> MaxInt64"
proof -
  note r = value_in_range [OF g v]
  let ?l = "lowestEquivalentValue h v" and ?s = "sizeOfEquivalentValueRange h v"
  have d: "0 \<le> ?s div 2" "?l + ?s div 2 \<le> MaxInt64" using r by linarith+
  have "medianEquivalentValue h v = i64 (?l + ?s div 2)" by (simp add: medianEquivalentValue_def shr64_div)
  also have "\<dots> = ?l + ?s div 2" using d r(1) by (intro i64_id) linarith+
  finally show m: "medianEquivalentValue h v = ?l + ?s div 2" .
  show "0 \<le> medianEquivalentValue h v" "medianEquivalentValue h v \<le> MaxInt64" unfolding m using d r(1) by linarith+
qed

definition bucket_term :: "histogram \<Rightarrow> int \<Rightarrow> int \<times> int \<Rightarrow> rat" where
  "bucket_term h t = (\<lambda>(v, c). of_int (c * medianEquivalentValue h v) / of_int t)"

definition bucket_ok :: "int \<times> int \<Rightarrow> bool" where
  "bucket_ok = (\<lambda>(v, c). 0 \<le> v \<and> v \<le> MaxInt64 \<and> 1 \<le> c \<and> c \<le> MaxInt64)"

lemma int_near: "0 \<le> k \<Longrightarrow> near 1 (round64 (of_int k)) (of_int k)"
proof (cases "k = 0")
  case False
  assume "0 \<le> k"
  with False have "(1 :: rat) \<le> of_int k" by simp
  moreover have "(2 :: rat) powi (- 1022) \<le> 1" using powi_mono [of "- 1022" 0] by simp
  ultimately show ?thesis by (intro round64_rel) linarith
qed (simp add: near_def round64_0)

lemma tiny: "x = 0 \<or> 1 / 2 ^ 64 \<le> x \<Longrightarrow> x = 0 \<or> 2 powi (- 1022) \<le> (x :: rat)"
proof -
  have "(2 :: rat) powi (- 1022) \<le> 2 powi (- 64)" by (intro powi_mono) simp
  also have "\<dots> = 1 / 2 ^ 64" by (simp add: power_int_def field_simps)
  finally show "x = 0 \<or> 1 / 2 ^ 64 \<le> x \<Longrightarrow> ?thesis" by linarith
qed

lemma round64_floor: "x = 0 \<or> 1 / 2 ^ 64 \<le> x \<Longrightarrow> round64 x = 0 \<or> 1 / 2 ^ 64 \<le> round64 x"
proof -
  have d: "dyadic (1 / 2 ^ 64)" by (rule dyadicI [of _ 1 "- 64"]) (simp_all add: power_int_def field_simps)
  show "x = 0 \<or> 1 / 2 ^ 64 \<le> x \<Longrightarrow> ?thesis"
    using round64_mono [of "1 / 2 ^ 64" x] round64_exact [OF d] by (auto simp: round64_0)
qed

lemma of_rat64_big: "\<bar>x\<bar> \<le> 2 ^ 210 \<Longrightarrow> of_rat64 x = Fin (round64 x)"
proof (rule of_rat64_small)
  assume "\<bar>x\<bar> \<le> 2 ^ 210"
  also have "(2 :: rat) ^ 210 \<le> 2 ^ 1023" by (rule power_increasing) simp_all
  finally show "\<bar>x\<bar> \<le> 2 ^ 1023" .
qed

lemma round64_int_bound: "0 \<le> k \<Longrightarrow> k \<le> MaxInt64 \<Longrightarrow> round64 (of_int k) \<le> 2 ^ 63"
proof -
  assume "0 \<le> k" "k \<le> MaxInt64"
  then have "k \<le> 2 ^ 63" by simp
  then have "(of_int k :: rat) \<le> of_int (2 ^ 63)" by (simp only: of_int_le_iff)
  then have "round64 (of_int k) \<le> round64 (2 ^ 63)" by (intro round64_mono) simp
  then show ?thesis by (simp only: round64_exact [OF dyadic_power])
qed

lemma mean_term:
  assumes g: "geom_ok h" and b: "bucket_ok (v, c)" and t: "1 \<le> t" "t \<le> MaxInt64"
  obtains y where "fdivide (fmul (of_int64 c) (of_int64 (medianEquivalentValue h v))) (of_int64 t) = Fin y"
    "near 6 y (bucket_term h t (v, c))" "y = 0 \<or> 1 / 2 ^ 64 \<le> y" "y \<le> 2 ^ 128" "bucket_term h t (v, c) \<le> 2 ^ 126"
proof -
  let ?m = "medianEquivalentValue h v"
  let ?c = "round64 (of_int c)" and ?r = "round64 (of_int ?m)" and ?t = "round64 (of_int t)"
  have v: "0 \<le> v" "v \<le> MaxInt64" "1 \<le> c" "c \<le> MaxInt64" using b by (simp_all add: bucket_ok_def)
  note m = median_range(2,3) [OF g v(1,2)]
  have n: "near 1 ?c (of_int c)" "near 1 ?r (of_int ?m)" "near 1 ?t (of_int t)" using v m t by (simp_all only: int_near)
  have cb: "1 \<le> ?c" "?c \<le> 2 ^ 63" "0 \<le> ?r" "?r \<le> 2 ^ 63" "1 \<le> ?t" "?t \<le> 2 ^ 63"
    using round64_int_pos [OF v(3)] round64_int_bound v m t round64_int_pos [OF t(1)] round64_nonneg by simp_all
  have r0: "?r = 0 \<or> 1 \<le> ?r" using round64_int_pos [of ?m] m by (cases "?m = 0") (simp_all add: round64_0)
  let ?p = "?c * ?r"
  have p0: "?p = 0 \<or> 1 \<le> ?p" using r0 cb(1) mult_mono [of 1 ?c 1 ?r] by auto
  have pb: "?p \<le> 2 ^ 126" using mult_mono [of ?c "2 ^ 63" ?r "2 ^ 63"] cb by simp
  have np: "near 2 ?p (of_int (c * ?m))" using near_mult [OF n(1,2)] by (simp only: one_add_one of_int_mult)
  let ?q = "round64 ?p"
  have nq: "near 3 ?q (of_int (c * ?m))" using near_round [OF np tiny] p0 by (auto simp: numeral_3_eq_3 numeral_2_eq_2)
  have one: "round64 1 = 1" using round64_exact [OF dyadic_of_int [of 1]] by simp
  have q: "?q = 0 \<or> 1 \<le> ?q" using p0 round64_mono [of 1 ?p] one by (auto simp: round64_0)
  have qb: "?q \<le> 2 ^ 126" using round64_mono [OF pb] by (simp only: round64_exact [OF dyadic_power])
  let ?a = "?q / ?t"
  have a0: "?a = 0 \<or> 1 / 2 ^ 64 \<le> ?a"
  proof (cases "?q = 0")
    case False
    then have "1 / 2 ^ 63 \<le> ?q / ?t" using q cb by (intro frac_le) simp_all
    moreover have "(1 :: rat) / 2 ^ 64 \<le> 1 / 2 ^ 63" by simp
    ultimately show ?thesis by linarith
  qed simp
  have ab: "0 \<le> ?a" "?a \<le> 2 ^ 126"
  proof -
    have "?a \<le> ?q / 1" using q cb by (intro divide_left_mono) auto
    then show "?a \<le> 2 ^ 126" using qb by simp
  qed (use q cb in auto)
  have tp: "0 < (of_int t :: rat)" using t by simp
  have na: "near 5 ?a (bucket_term h t (v, c))"
    using near_mult [OF nq near_inverse [OF n(3) tp]] by (simp add: bucket_term_def)
  have eq: "fdivide (fmul (of_int64 c) (of_int64 ?m)) (of_int64 t) = Fin (round64 ?a)"
  proof -
    have l: "\<bar>z\<bar> \<le> 2 ^ 210" if "0 \<le> z" "z \<le> 2 ^ 126" for z :: rat using that by simp
    have "0 \<le> ?p" using cb by simp
    then have "\<bar>?p\<bar> \<le> 2 ^ 210" "\<bar>?a\<bar> \<le> 2 ^ 210" using l [OF _ pb] l [OF ab] by blast+
    then show ?thesis using of_int64_fin [of c] of_int64_fin [of ?m] of_int64_fin [of t] v m t cb(5)
      by (simp add: of_rat64_big)
  qed
  show ?thesis
  proof (rule that [OF eq])
    show "near 6 (round64 ?a) (bucket_term h t (v, c))" using near_round [OF na tiny [OF a0]] by simp
    show "round64 ?a = 0 \<or> 1 / 2 ^ 64 \<le> round64 ?a" by (rule round64_floor [OF a0])
    have "round64 ?a \<le> 2 ^ 126" using round64_mono [OF ab(2)] by (simp only: round64_exact [OF dyadic_power])
    then show "round64 ?a \<le> 2 ^ 128" by simp
    have "c * ?m \<le> 2 ^ 63 * 2 ^ 63" using v m by (intro mult_mono) simp_all
    then have "c * ?m \<le> 2 ^ 126" by simp
    then have cm: "of_int (c * ?m) \<le> (of_int (2 ^ 126) :: rat)" by (simp only: of_int_le_iff)
    have "of_int (c * ?m) / of_int t \<le> (of_int (c * ?m) :: rat) / 1"
      using t v m tp by (intro divide_left_mono) (simp_all only: of_int_0_le_iff, simp_all)
    then show "bucket_term h t (v, c) \<le> 2 ^ 126" using cm by (simp add: bucket_term_def)
  qed
qed

lemma mean_loop:
  assumes g: "geom_ok h" and t: "1 \<le> t" "t \<le> MaxInt64"
  shows "\<forall>b \<in> set bs. bucket_ok b \<Longrightarrow> near k a x \<Longrightarrow> a = 0 \<or> 1 / 2 ^ 64 \<le> a \<Longrightarrow> 6 \<le> k \<Longrightarrow>
    k + length bs \<le> 2 ^ 52 \<Longrightarrow> x + of_nat (length bs) * 2 ^ 126 \<le> 2 ^ 200 \<Longrightarrow>
    \<exists>r. foldl (mean_step h (of_int64 t)) (Fin a) bs = Fin r \<and> near (k + length bs) r (x + sum_list (map (bucket_term h t) bs))"
proof (induction bs arbitrary: k a x)
  case (Cons b bs)
  obtain v c where b: "b = (v, c)" by fastforce
  from mean_term [OF g, of v c, OF _ t] Cons.prems(1) obtain y where
    y: "fdivide (fmul (of_int64 c) (of_int64 (medianEquivalentValue h v))) (of_int64 t) = Fin y"
    "near 6 y (bucket_term h t b)" "y = 0 \<or> 1 / 2 ^ 64 \<le> y" "y \<le> 2 ^ 128" "bucket_term h t b \<le> 2 ^ 126"
    unfolding b by (metis list.set_intros(1) b)
  have ay: "near k (a + y) (x + bucket_term h t b)"
    using near_add [OF Cons.prems(2) near_mono [OF y(2) Cons.prems(4)]] .
  have low: "a + y = 0 \<or> 1 / 2 ^ 64 \<le> a + y" using Cons.prems(3) y(3) by auto
  have x0: "0 \<le> x" "0 \<le> a" using Cons.prems(2) near_nonneg by (auto simp: near_def)
  have "a \<le> 2 * x" using Cons.prems(5) by (intro near_linear(2) [OF Cons.prems(2)]) simp
  moreover have "x \<le> 2 ^ 200" using Cons.prems(6) by (simp add: order_trans [rotated])
  ultimately have "a \<le> 2 * 2 ^ 200" by linarith
  then have "\<bar>a + y\<bar> \<le> 2 ^ 210" using x0 y(3,4) by auto
  then have s: "mean_step h (of_int64 t) (Fin a) b = Fin (round64 (a + y))"
    using y(1) by (simp add: mean_step_def b of_rat64_big)
  have "\<exists>r. foldl (mean_step h (of_int64 t)) (Fin (round64 (a + y))) bs = Fin r \<and>
      near (k + 1 + length bs) r (x + bucket_term h t b + sum_list (map (bucket_term h t) bs))"
    using Cons.prems y(5) by (intro Cons.IH near_round [OF ay tiny [OF low]] round64_floor [OF low]) (simp_all add: distrib_right)
  then show ?case by (simp add: s add.assoc)
qed simp

lemma sum_buckets:
  assumes "\<forall>v \<in># M. 0 \<le> f v \<and> f v < int n"
  shows "(\<Sum>k\<leftarrow>[0..<n]. int (size {#v \<in># M. f v = int k#}) * g k) = (\<Sum>v\<in>#M. g (nat (f v)))"
  using assms
proof (induction M)
  case (add x M)
  then have x: "0 \<le> f x" "f x < int n" by simp_all
  have one: "(\<Sum>k\<leftarrow>[0..<n]. if f x = int k then g k else 0) = g (nat (f x))"
  proof -
    have "(\<Sum>k\<leftarrow>[0..<n]. if f x = int k then g k else 0) = (\<Sum>k\<in>{0..<n}. if k = nat (f x) then g k else 0)"
      unfolding sum_list_distinct_conv_sum_set [OF distinct_upt] set_upt using x
      by (intro sum.cong) auto
    also have "\<dots> = g (nat (f x))" using x by (subst sum.delta) auto
    finally show ?thesis .
  qed
  have "(\<Sum>k\<leftarrow>[0..<n]. int (size {#v \<in># add_mset x M. f v = int k#}) * g k) =
      (\<Sum>k\<leftarrow>[0..<n]. (if f x = int k then g k else 0) + int (size {#v \<in># M. f v = int k#}) * g k)"
    by (intro arg_cong [where f = sum_list] map_cong) (auto simp: algebra_simps)
  also have "\<dots> = g (nat (f x)) + (\<Sum>v\<in>#M. g (nat (f v)))"
    using add one by (simp add: sum_list_addf)
  finally show ?case by simp
qed simp

lemma equivalent_median:
  assumes g: "geom_ok h" and v: "0 \<le> v" "v \<le> MaxInt64" "countsIndexFor h v < countsLen h"
  shows "medianEquivalentValue h (lowestEquivalentValue h v) = medianEquivalentValue h v"
proof -
  let ?w = "lowestEquivalentValue h v"
  note r = value_in_range [OF g v(1,2)]
  have w: "0 \<le> ?w" "?w \<le> MaxInt64" using r v by linarith+
  note rw = value_in_range [OF g w]
  have i: "countsIndexFor h v = countsIndexFor h ?w" using countsIndexFor_eq_iff [OF g v(1,2) w] r by simp
  have low: "lowestEquivalentValue h ?w = ?w"
    using valueFromFlatIndex_countsIndexFor [OF g w] valueFromFlatIndex_countsIndexFor [OF g v] i v(3) by simp
  let ?a = "highestEquivalentValue h v" and ?b = "highestEquivalentValue h ?w"
  have a: "0 \<le> ?a" "?a \<le> MaxInt64" "0 \<le> ?b" "?b \<le> MaxInt64" using r rw by linarith+
  have "countsIndexFor h v = countsIndexFor h ?a" using countsIndexFor_eq_iff [OF g v(1,2) a(1,2)] r by simp
  then have "countsIndexFor h ?w = countsIndexFor h ?a" using i by simp
  then have "?a < ?w + sizeOfEquivalentValueRange h ?w" using countsIndexFor_eq_iff [OF g w a(1,2)] low by simp
  moreover have "countsIndexFor h ?w = countsIndexFor h ?b" using countsIndexFor_eq_iff [OF g w a(3,4)] rw by simp
  then have "countsIndexFor h v = countsIndexFor h ?b" using i by simp
  then have "?b < ?w + sizeOfEquivalentValueRange h v" using countsIndexFor_eq_iff [OF g v(1,2) a(3,4)] by simp
  ultimately have "sizeOfEquivalentValueRange h ?w = sizeOfEquivalentValueRange h v" using r(4) rw(4) low by linarith
  then show ?thesis using median_range(1) [OF g v(1,2)] median_range(1) [OF g w] low by simp
qed

lemma contents_sum:
  assumes r: "represents h M"
  shows "(\<Sum>(v, c)\<leftarrow>contents h. c * medianEquivalentValue h v) = (\<Sum>v\<in>#M. medianEquivalentValue h v)"
proof -
  from r have h: "hist_ok h" and g: "geom_ok h" and M: "\<forall>v \<in># M. in_array h v"
    and c: "\<forall>k < length (counts h). counts h ! k = int (size {#v \<in># M. countsIndexFor h v = int k#})"
    by (auto simp: represents_def hist_ok_def)
  let ?g = "\<lambda>k. medianEquivalentValue h (valueFromFlatIndex h (int k))"
  have len: "int (length (counts h)) = countsLen h" using h by (simp add: hist_ok_def)
  have I: "0 \<le> v \<and> v \<le> MaxInt64 \<and> 0 \<le> countsIndexFor h v \<and> countsIndexFor h v < countsLen h" if "v \<in># M" for v
    using M that in_array_index(1) [OF h] by (auto simp: in_array_def)
  have "(\<Sum>(v, c)\<leftarrow>contents h. c * medianEquivalentValue h v) = (\<Sum>k\<leftarrow>populated h. counts h ! k * ?g k)"
    by (simp add: contents_def comp_def)
  also have "\<dots> = (\<Sum>k\<leftarrow>[0..<length (counts h)]. counts h ! k * ?g k)"
    unfolding populated_def by (rule sum_list_map_filter) simp
  also have "\<dots> = (\<Sum>k\<leftarrow>[0..<length (counts h)]. int (size {#v \<in># M. countsIndexFor h v = int k#}) * ?g k)"
    using c by (intro arg_cong [where f = sum_list] map_cong) simp_all
  also have "\<dots> = (\<Sum>v\<in>#M. ?g (nat (countsIndexFor h v)))"
    using I len by (intro sum_buckets) auto
  also have "\<dots> = (\<Sum>v\<in>#M. medianEquivalentValue h v)"
  proof (intro arg_cong [where f = sum_mset] image_mset_cong)
    fix v assume "v \<in># M"
    with I have v: "0 \<le> v" "v \<le> MaxInt64" "0 \<le> countsIndexFor h v" "countsIndexFor h v < countsLen h" by auto
    then show "?g (nat (countsIndexFor h v)) = medianEquivalentValue h v"
      using valueFromFlatIndex_countsIndexFor [OF g v(1,2,4)] equivalent_median [OF g v(1,2,4)] by simp
  qed
  finally show ?thesis .
qed

lemma contents_ok:
  assumes h: "hist_ok h"
  shows "\<forall>b \<in> set (contents h). bucket_ok b"
proof -
  have g: "geom_ok h" and n: "\<forall>c \<in> set (counts h). 0 \<le> c" and t: "sum_list (counts h) = totalCount h" "totalCount h \<le> MaxInt64"
    and l: "int (length (counts h)) = countsLen h" using h by (auto simp: hist_ok_def)
  have "bucket_ok (valueFromFlatIndex h (int k), counts h ! k)" if k: "k \<in> set (populated h)" for k
  proof -
    have kl: "k < length (counts h)" "counts h ! k \<noteq> 0" using k by (auto simp: populated_def)
    have "counts h ! k \<in> set (counts h)" using kl by simp
    then have "counts h ! k \<le> MaxInt64" "0 \<le> counts h ! k" using n t nth_le_sum_list [OF n kl(1)] by auto
    then show ?thesis using valueFromFlatIndex_range [OF g, of "int k"] kl l by (simp add: bucket_ok_def)
  qed
  then show ?thesis by (auto simp: contents_def)
qed

lemma contents_length: "hist_ok h \<Longrightarrow> length (contents h) \<le> 2147483647"
proof -
  assume h: "hist_ok h"
  have "length (contents h) \<le> length (counts h)" by (simp add: contents_def populated_def) (metis length_filter_le length_upt minus_nat.diff_0)
  moreover have "int (length (counts h)) \<le> 2147483647" using h countsLen_bound [of h] by (simp add: hist_ok_def)
  ultimately show ?thesis by simp
qed

lemma Mean_near:
  assumes h: "hist_ok h" and t: "totalCount h \<noteq> 0"
  obtains r where "Mean h = Inr (Fin r)" "near (6 + length (contents h)) r (\<Sum>b\<leftarrow>contents h. bucket_term h (totalCount h) b)"
proof -
  have g: "geom_ok h" and tot: "1 \<le> totalCount h" "totalCount h \<le> MaxInt64" using h t sum_list_nonneg_int [of "counts h"] by (auto simp: hist_ok_def)
  note n = contents_length [OF h]
  have "of_nat (length (contents h)) * 2 ^ 126 \<le> (of_nat 2147483647 :: rat) * 2 ^ 126"
    using n by (intro mult_right_mono) (simp_all only: of_nat_le_iff, simp)
  then have "0 + of_nat (length (contents h)) * 2 ^ 126 \<le> (2 :: rat) ^ 200" by simp
  with mean_loop [OF g tot contents_ok [OF h] near_zero(1) [of 6]] n show ?thesis
    using that Mean_eq [OF h] t by auto
qed

section \<open>The standard deviation\<close>

lemma dev_term:
  assumes g: "geom_ok h" and b: "bucket_ok (v, c)" and t: "1 \<le> t" "t \<le> MaxInt64" and m: "0 \<le> m" "m \<le> 2 ^ 65"
    and i: "of_nat i * 2 ^ 200 \<ge> a" "0 \<le> a" "i < 2 ^ 52"
  obtains y where "dev_step h (of_int64 t) (Fin m) (Fin a) (v, c) = Fin y" "0 \<le> y" "y \<le> of_nat (Suc i) * 2 ^ 200"
proof -
  have pow: "of_rat64 x = Fin (round64 x) \<and> \<bar>round64 x\<bar> \<le> 2 ^ n" if "\<bar>x\<bar> \<le> 2 ^ n" "n \<le> 1000" for x n
  proof -
    have "\<bar>x\<bar> \<le> 2 ^ 1023" using that by (intro order_trans [OF that(1)] power_increasing) simp_all
    moreover have "round64 x \<le> round64 (2 ^ n)" "round64 (- (2 ^ n)) \<le> round64 x" using that(1) by (auto intro!: round64_mono simp: abs_le_iff)
    moreover have "round64 (2 ^ n) = 2 ^ n" "round64 (- (2 ^ n)) = - (2 ^ n)"
      by (rule round64_exact, simp add: dyadic_power)+
    ultimately show ?thesis by (simp add: of_rat64_small abs_le_iff)
  qed
  let ?m = "medianEquivalentValue h v"
  define rm rc rt where "rm = round64 (of_int ?m)" and "rc = round64 (of_int c)" and "rt = round64 (of_int t)"
  have v: "0 \<le> v" "v \<le> MaxInt64" "1 \<le> c" "c \<le> MaxInt64" using b by (simp_all add: bucket_ok_def)
  note md = median_range(2,3) [OF g v(1,2)]
  have f: "of_int64 ?m = Fin rm" "of_int64 c = Fin rc" "of_int64 t = Fin rt"
    using of_int64_fin md v t by (simp_all add: rm_def rc_def rt_def)
  have r: "0 \<le> rm" "rm \<le> 2 ^ 63" "0 \<le> rc" "rc \<le> 2 ^ 63" "1 \<le> rt"
    using round64_nonneg round64_int_bound round64_int_pos [OF t(1)] md v t by (simp_all add: rm_def rc_def rt_def)
  define d where "d = round64 (rm - m)"
  have d: "of_rat64 (rm - m) = Fin d" "\<bar>d\<bar> \<le> 2 ^ 66" using pow [of "rm - m" 66] r(1,2) m by (simp_all add: d_def)
  define q where "q = round64 (d * d)"
  have "\<bar>d * d\<bar> \<le> 2 ^ 66 * 2 ^ 66" unfolding abs_mult using d(2) by (intro mult_mono) simp_all
  then have q: "of_rat64 (d * d) = Fin q" "\<bar>q\<bar> \<le> 2 ^ 132" "0 \<le> q" using pow [of "d * d" 132] round64_nonneg [of "d * d"] by (simp_all add: q_def)
  define p where "p = round64 (q * rc)"
  have "\<bar>q * rc\<bar> \<le> 2 ^ 132 * 2 ^ 63" unfolding abs_mult using q(2) r(3,4) by (intro mult_mono) simp_all
  then have p: "of_rat64 (q * rc) = Fin p" "\<bar>p\<bar> \<le> 2 ^ 195" "0 \<le> p" using pow [of "q * rc" 195] round64_nonneg [of "q * rc"] q(3) r(3) by (simp_all add: p_def)
  define y where "y = round64 (p / rt)"
  have "p / rt \<le> p / 1" using p(3) r(5) by (intro divide_left_mono) simp_all
  then have "\<bar>p / rt\<bar> \<le> 2 ^ 195" using p(2,3) r(5) by simp
  then have y: "of_rat64 (p / rt) = Fin y" "\<bar>y\<bar> \<le> 2 ^ 195" "0 \<le> y" using pow [of "p / rt" 195] round64_nonneg [of "p / rt"] p(3) r(5) by (simp_all add: y_def)
  have le: "a + y \<le> of_nat (Suc i) * 2 ^ 200" using i(1) y(2,3) by (simp add: distrib_right)
  have dy: "dyadic (of_nat (Suc i) * 2 ^ 200)"
    by (rule dyadicI [of _ "int (Suc i)" 200]) (use i(3) in simp_all)
  have "of_nat (Suc i) * 2 ^ 200 \<le> (of_nat (2 ^ 52) :: rat) * 2 ^ 200" using i(3) by (intro mult_right_mono) (simp_all only: of_nat_le_iff, simp_all)
  then have "\<bar>a + y\<bar> \<le> 2 ^ 252" using le i(2) y(3) by simp
  then have s: "of_rat64 (a + y) = Fin (round64 (a + y))" using pow [of "a + y" 252] by simp
  have "dev_step h (of_int64 t) (Fin m) (Fin a) (v, c) = Fin (round64 (a + y))"
    using d(1) q(1) p(1) y(1) s r(5) by (simp add: dev_step_def f fsub_def)
  moreover have "round64 (a + y) \<le> of_nat (Suc i) * 2 ^ 200" using round64_mono [OF le] round64_exact [OF dy] by simp
  ultimately show ?thesis using that round64_nonneg [of "a + y"] i(2) y(3) by simp
qed

lemma variance_loop:
  assumes g: "geom_ok h" and t: "1 \<le> t" "t \<le> MaxInt64" and m: "0 \<le> m" "m \<le> 2 ^ 65"
  shows "\<forall>b \<in> set bs. bucket_ok b \<Longrightarrow> a \<le> of_nat i * 2 ^ 200 \<Longrightarrow> 0 \<le> a \<Longrightarrow> i + length bs \<le> 2 ^ 52 \<Longrightarrow>
    \<exists>r. foldl (dev_step h (of_int64 t) (Fin m)) (Fin a) bs = Fin r \<and> 0 \<le> r"
proof (induction bs arbitrary: a i)
  case (Cons b bs)
  obtain v c where b: "b = (v, c)" by fastforce
  have "bucket_ok (v, c)" "i < 2 ^ 52" using Cons.prems b by simp_all
  from dev_term [OF g this(1) t m Cons.prems(2,3) this(2)] obtain y where
    y: "dev_step h (of_int64 t) (Fin m) (Fin a) b = Fin y" "0 \<le> y" "y \<le> of_nat (Suc i) * 2 ^ 200" using b by metis
  have "\<exists>r. foldl (dev_step h (of_int64 t) (Fin m)) (Fin y) bs = Fin r \<and> 0 \<le> r"
    using Cons.prems(1,4) by (intro Cons.IH [OF _ y(3,2)]) simp_all
  then show ?case using y(1) by simp
qed simp

section \<open>The square root is correctly rounded\<close>

lemma isqrt_correct: "isqrt n * isqrt n \<le> n \<and> n < (isqrt n + 1) * (isqrt n + 1)"
proof (induction n rule: isqrt.induct)
  case (1 n)
  show ?case
  proof (cases "n = 0")
    case True
    then show ?thesis by (simp add: isqrt.simps)
  next
    case False
    let ?s = "isqrt (n div 4)"
    have s: "?s * ?s \<le> n div 4" "n div 4 < (?s + 1) * (?s + 1)" using 1 False by auto
    have lo: "2 * ?s * (2 * ?s) \<le> n" using s(1) by simp
    have "n div 4 + 1 \<le> (?s + 1) * (?s + 1)" using s(2) by simp
    then have hi: "n < (2 * ?s + 2) * (2 * ?s + 2)" by simp
    have e: "isqrt n = (if (2 * ?s + 1) * (2 * ?s + 1) \<le> n then 2 * ?s + 1 else 2 * ?s)"
      using False by (subst isqrt.simps) (simp add: Let_def)
    show ?thesis unfolding e using lo hi by simp
  qed
qed

lemma sqrt_range:
  assumes x: "0 < x"
  shows "0 < sqrt_quantum x" and "2 ^ 104 \<le> x / (sqrt_quantum x * sqrt_quantum x)"
    and "x / (sqrt_quantum x * sqrt_quantum x) < 2 ^ 106"
proof -
  let ?e = "ilog2 x" and ?q = "sqrt_quantum x"
  show q: "0 < ?q" by (simp add: sqrt_quantum_def)
  have qq: "?q * ?q = 2 powi (2 * (?e div 2) - 104)"
    unfolding sqrt_quantum_def by (simp flip: power_int_add)
  have s: "2 powi i / (2 :: rat) powi j = 2 powi (i - j)" for i j by (simp add: power_int_diff)
  have "(2 :: rat) ^ 104 = 2 powi 104" "(2 :: rat) ^ 106 = 2 powi 106" by simp_all
  moreover have "(2 :: rat) powi 104 \<le> 2 powi (?e - (2 * (?e div 2) - 104))" by (intro powi_mono) simp
  moreover have "2 powi (?e - (2 * (?e div 2) - 104)) \<le> x / (?q * ?q)"
    unfolding qq s [symmetric] using ilog2_bounds(1) [OF x] by (intro divide_right_mono) simp_all
  moreover have "x / (?q * ?q) < 2 powi (?e + 1 - (2 * (?e div 2) - 104))"
    unfolding qq s [symmetric] using ilog2_bounds(2) [OF x] by (intro divide_strict_right_mono) simp_all
  moreover have "(2 :: rat) powi (?e + 1 - (2 * (?e div 2) - 104)) \<le> 2 powi 106" by (intro powi_mono) presburger
  ultimately show "2 ^ 104 \<le> x / (?q * ?q)" "x / (?q * ?q) < 2 ^ 106" by linarith+
qed

text \<open>The result is a multiple of the quantum with 53 significant bits, and no other is nearer to the root.\<close>

lemma round_sqrt_nearest:
  assumes x: "0 < x"
  shows "\<exists>k. round_sqrt x = of_nat k * sqrt_quantum x \<and> 2 ^ 52 \<le> k \<and> k \<le> 2 ^ 53 \<and>
    (of_nat k - 1 / 2) * (of_nat k - 1 / 2) \<le> x / (sqrt_quantum x * sqrt_quantum x) \<and>
    x / (sqrt_quantum x * sqrt_quantum x) \<le> (of_nat k + 1 / 2) * (of_nat k + 1 / 2)"
proof -
  let ?y = "x / (sqrt_quantum x * sqrt_quantum x)"
  note y = sqrt_range(2,3) [OF x]
  define r where "r = isqrt (nat \<lfloor>?y\<rfloor>)"
  have fl: "of_nat (nat \<lfloor>?y\<rfloor>) \<le> ?y" "?y < of_nat (nat \<lfloor>?y\<rfloor>) + 1" using y floor_correct [of ?y] by (simp_all add: of_nat_nat)
  have i: "r * r \<le> nat \<lfloor>?y\<rfloor>" "nat \<lfloor>?y\<rfloor> + 1 \<le> (r + 1) * (r + 1)" using isqrt_correct [of "nat \<lfloor>?y\<rfloor>"] by (simp_all add: r_def)
  have "(of_nat (r * r) :: rat) \<le> of_nat (nat \<lfloor>?y\<rfloor>)" using i(1) by (simp only: of_nat_le_iff)
  then have lo: "of_nat r * of_nat r \<le> ?y" using fl(1) by simp
  have "(of_nat (nat \<lfloor>?y\<rfloor> + 1) :: rat) \<le> of_nat ((r + 1) * (r + 1))" using i(2) by (simp only: of_nat_le_iff)
  then have hi: "?y < (of_nat r + 1) * (of_nat r + 1)" using fl(2) by (simp add: algebra_simps)
  have r1: "2 ^ 52 \<le> r"
  proof (rule ccontr)
    assume "\<not> ?thesis"
    then have "r + 1 \<le> 2 ^ 52" by simp
    then have "(of_nat (r + 1) :: rat) \<le> of_nat (2 ^ 52)" by (simp only: of_nat_le_iff)
    then have "(of_nat r + 1) * (of_nat r + 1) \<le> (2 ^ 52 :: rat) * 2 ^ 52" by (intro mult_mono) simp_all
    with hi y(1) show False by simp
  qed
  have r2: "r < 2 ^ 53"
  proof (rule ccontr)
    assume "\<not> ?thesis"
    then have "2 ^ 53 \<le> r" by simp
    then have "(of_nat (2 ^ 53) :: rat) \<le> of_nat r" by (simp only: of_nat_le_iff)
    then have "(2 ^ 53 :: rat) * 2 ^ 53 \<le> of_nat r * of_nat r" by (intro mult_mono) simp_all
    with lo y(2) show False by simp
  qed
  let ?h = "(of_nat r + 1 / 2) * (of_nat r + 1 / 2) :: rat"
  have D: "round_sqrt x = (if ?y > ?h \<or> ?y = ?h \<and> odd r then of_nat (r + 1) else of_nat r) * sqrt_quantum x"
    by (simp only: round_sqrt_def Let_def r_def)
  show ?thesis
  proof (cases "?y > ?h \<or> ?y = ?h \<and> odd r")
    case True
    then have "round_sqrt x = of_nat (r + 1) * sqrt_quantum x" by (simp only: D if_True)
    moreover have "(of_nat (r + 1) - 1 / 2) * (of_nat (r + 1) - 1 / 2) = ?h" by (simp add: algebra_simps)
    moreover have "(of_nat r + 1) * (of_nat r + 1) \<le> (of_nat (r + 1) + 1 / 2) * (of_nat (r + 1) + 1 / 2 :: rat)" by (intro mult_mono) simp_all
    ultimately show ?thesis using True r1 r2 hi by (intro exI [of _ "r + 1"]) auto
  next
    case False
    then have "round_sqrt x = of_nat r * sqrt_quantum x" by (simp only: D if_False)
    moreover have "(of_nat r - 1 / 2) * (of_nat r - 1 / 2) \<le> (of_nat r * of_nat r :: rat)"
      using r1 by (intro mult_mono) simp_all
    ultimately show ?thesis using False r1 r2 lo by (intro exI [of _ r]) auto
  qed
qed

lemma round_sqrt_square:
  assumes x: "0 < x"
  shows "0 < round_sqrt x" "\<bar>round_sqrt x * round_sqrt x - x\<bar> \<le> round_sqrt x * round_sqrt x / 2 ^ 51"
proof -
  let ?q = "sqrt_quantum x"
  obtain k where k: "round_sqrt x = of_nat k * ?q" "2 ^ 52 \<le> k"
    "(of_nat k - 1 / 2) * (of_nat k - 1 / 2) \<le> x / (?q * ?q)" "x / (?q * ?q) \<le> (of_nat k + 1 / 2) * (of_nat k + 1 / 2)"
    using round_sqrt_nearest [OF x] by blast
  define c :: rat where "c = of_nat k"
  have q: "0 < ?q" by (rule sqrt_range(1) [OF x])
  have c: "2 ^ 52 \<le> c" unfolding c_def using k(2) by (metis of_nat_le_iff of_nat_numeral of_nat_power)
  then show "0 < round_sqrt x" using q k(1) by (simp add: c_def)
  have "\<bar>c * c - x / (?q * ?q)\<bar> \<le> c + 1 / 4" using k(3,4) unfolding c_def [symmetric] by (simp add: abs_le_iff algebra_simps)
  moreover have "c + 1 / 4 \<le> c * c / 2 ^ 51"
  proof -
    have "2 ^ 52 * c \<le> c * c" using c by (intro mult_right_mono) simp_all
    then have "4503599627370496 * c \<le> c * c" by simp
    moreover have "4503599627370496 \<le> c" using c by simp
    ultimately have "c * 2251799813685248 + 562949953421312 \<le> c * c" by linarith
    then show ?thesis by (simp add: field_simps)
  qed
  ultimately have "\<bar>c * c - x / (?q * ?q)\<bar> \<le> c * c / 2 ^ 51" by linarith
  then have "\<bar>c * c - x / (?q * ?q)\<bar> * (?q * ?q) \<le> c * c / 2 ^ 51 * (?q * ?q)" using q by (intro mult_right_mono) simp_all
  moreover have "\<bar>c * c - x / (?q * ?q)\<bar> * (?q * ?q) = \<bar>(c * c - x / (?q * ?q)) * (?q * ?q)\<bar>" using q by (simp add: abs_mult)
  moreover have "(c * c - x / (?q * ?q)) * (?q * ?q) = c * ?q * (c * ?q) - x" using q by (simp add: field_simps)
  ultimately show "\<bar>round_sqrt x * round_sqrt x - x\<bar> \<le> round_sqrt x * round_sqrt x / 2 ^ 51"
    using k(1) by (simp add: c_def mult.commute mult.left_commute)
qed

lemma terms_bound:
  assumes h: "hist_ok h" and t: "totalCount h \<noteq> 0"
  shows "(\<Sum>b\<leftarrow>contents h. bucket_term h (totalCount h) b) \<le> 2 ^ 63"
proof -
  let ?T = "totalCount h"
  have g: "geom_ok h" and tot: "1 \<le> ?T" using h t sum_list_nonneg_int [of "counts h"] by (auto simp: hist_ok_def)
  have "(\<Sum>b\<leftarrow>bs. bucket_term h ?T b) \<le> (\<Sum>(v, c)\<leftarrow>bs. of_int c * 2 ^ 63 / of_int ?T)" if "\<forall>b \<in> set bs. bucket_ok b" for bs
  proof (intro sum_list_mono)
    fix b assume "b \<in> set bs"
    obtain v c where b: "b = (v, c)" by fastforce
    with that \<open>b \<in> set bs\<close> have o: "0 \<le> v" "v \<le> MaxInt64" "1 \<le> c" by (auto simp: bucket_ok_def)
    have "medianEquivalentValue h v \<le> 2 ^ 63" using median_range(3) [OF g o(1,2)] by simp
    then have "c * medianEquivalentValue h v \<le> c * 2 ^ 63" using o(3) by (intro mult_left_mono) simp_all
    then have "(of_int (c * medianEquivalentValue h v) :: rat) \<le> of_int (c * 2 ^ 63)" by (simp only: of_int_le_iff)
    then show "bucket_term h ?T b \<le> (case b of (v, c) \<Rightarrow> of_int c * 2 ^ 63 / of_int ?T)"
      using tot by (simp add: bucket_term_def b divide_right_mono)
  qed
  moreover have "(\<Sum>(v, c)\<leftarrow>bs. of_int c * 2 ^ 63 / of_int ?T) = (of_int (\<Sum>(v, c)\<leftarrow>bs. c) * 2 ^ 63 / of_int ?T :: rat)" for bs :: "(int \<times> int) list"
    by (induction bs) (auto simp: add_divide_distrib distrib_right)
  moreover have "(\<Sum>(v, c)\<leftarrow>contents h. c) = ?T"
  proof -
    have "(\<Sum>(v, c)\<leftarrow>contents h. c) = (\<Sum>k\<leftarrow>populated h. counts h ! k)" by (simp add: contents_def comp_def)
    also have "\<dots> = (\<Sum>k\<leftarrow>[0..<length (counts h)]. counts h ! k)" unfolding populated_def by (rule sum_list_map_filter) simp
    also have "\<dots> = ?T" using h by (simp add: hist_ok_def map_nth)
    finally show ?thesis .
  qed
  ultimately show ?thesis using contents_ok [OF h] tot by (metis (no_types, lifting) nonzero_mult_div_cancel_left of_int_0_eq_iff t)
qed

lemma packed_statistics:
  assumes "packed_ok p" "sum_list (slots p) < MaxInt64"
  shows "Mean (dense_of p) = Inr (Mean_p p) \<and> StdDev (dense_of p) = Inr (StdDev_p p)"
proof -
  have wf: "packed_wf p" and h: "hist_ok (dense_of p)"
    using assms hist_ok_dense_of [OF assms(1)] by (auto simp: packed_ok_def)
  have "\<forall>c \<in> set (slots p). 0 < c" using wf by (simp add: packed_wf_def)
  then have n: "0 \<le> sum_list (slots p)" by (intro sum_list_nonneg) auto
  then have t: "p_totalCount p = sum_list (slots p)" "p_totalCount p < MaxInt64" "0 \<le> p_totalCount p"
    "totalCount (dense_of p) = p_totalCount p"
    using assms by (simp_all add: packed_ok_def dense_of_def)
  then have c: "statisticsCount p = of_int64 (p_totalCount p)" by (simp add: statisticsCount_def)
  have z: "feq (of_int64 (p_totalCount p)) (Fin 0) \<longleftrightarrow> p_totalCount p = 0"
    using of_int64_fin [of "p_totalCount p"] round64_int_pos [of "p_totalCount p"] t(2,3) round64_0
    by (cases "p_totalCount p = 0") auto
  have m: "Mean (dense_of p) = Inr (Mean_p p)"
    unfolding Mean_eq [OF h] contents_dense_of [OF wf] step_geom Mean_p_def Let_def t(4) c z by (simp add: foldl_map)
  show ?thesis
  proof (cases "p_totalCount p = 0")
    case True
    then show ?thesis using m z t(4) by (simp add: StdDev_def StdDev_p_def c)
  next
    case False
    have "variance (dense_of p) (Mean_p p) = foldl (\<lambda>variance i. dev_step (p_geom p) (of_int64 (p_totalCount p)) (Mean_p p) variance
        (valueFromFlatIndex (p_geom p) (p_idx p ! i), slotGet p (int i))) (Fin 0) [0..<nat (p_size p)]"
      unfolding variance_def contents_dense_of [OF wf] step_geom t(4) by (simp add: foldl_map)
    then show ?thesis using m z StdDev_eq [OF h _ m] False t(4) by (simp add: StdDev_p_def Let_def c)
  qed
qed

section \<open>Properties\<close>

text \<open>C37: The mean and the standard deviation of the sparse histogram are those of the dense one it
  stands for, bit by bit, when the counts sum to less than the largest \<open>int64\<close>.\<close>

theorem packed_statistics_refine:
  assumes "packed_ok p" "sum_list (slots p) < MaxInt64"
  shows "Mean (dense_of p) = Inr (Mean_p p) \<and> StdDev (dense_of p) = Inr (StdDev_p p)"
  by (rule packed_statistics [OF assms])

theorem packed_statistics_refine_witness:
  "Mean (dense_of sample_packed) = Inr (Mean_p sample_packed) \<and> StdDev (dense_of sample_packed) = Inr (StdDev_p sample_packed)"
  by (rule packed_statistics_refine) (simp_all add: sample_packed_ok)

text \<open>C38: The mean of a histogram that is not empty is the mean, over the recorded values, of the
  medians of their buckets, up to a relative error of \<open>2 ^ -52\<close> for each populated bucket and six
  more.\<close>

theorem mean_accurate:
  assumes "represents h M" "M \<noteq> {#}"
  shows "\<exists>r. Mean h = Inr (Fin r) \<and>
    (let exact = of_int (\<Sum>v\<in>#M. medianEquivalentValue h v) / of_nat (size M)
     in \<bar>r - exact\<bar> \<le> exact * of_nat (length (populated h) + 6) / 2 ^ 52)"
proof -
  have h: "hist_ok h" by (rule represents_ok [OF assms(1)])
  have t: "totalCount h = int (size M)" by (rule represents_total [OF assms(1)])
  with assms(2) have t0: "totalCount h \<noteq> 0" by simp
  from Mean_near [OF h t0] obtain r where r: "Mean h = Inr (Fin r)"
    "near (6 + length (contents h)) r (\<Sum>b\<leftarrow>contents h. bucket_term h (totalCount h) b)" .
  have "(\<Sum>b\<leftarrow>bs. bucket_term h T b) = of_int (\<Sum>(v, c)\<leftarrow>bs. c * medianEquivalentValue h v) / of_int T" for bs T
    by (induction bs) (auto simp: bucket_term_def add_divide_distrib)
  then have e: "(\<Sum>b\<leftarrow>contents h. bucket_term h (totalCount h) b) = of_int (\<Sum>v\<in>#M. medianEquivalentValue h v) / of_nat (size M)"
    using contents_sum [OF assms(1)] t by simp
  have "6 + length (contents h) \<le> 2 ^ 52" using contents_length [OF h] by simp
  from near_linear(1) [OF r(2) this] show ?thesis unfolding e Let_def
    using r(1) by (auto simp: contents_def add.commute)
qed

theorem mean_accurate_witness:
  "\<exists>r. Mean sample_recorded = Inr (Fin r) \<and> \<bar>r - 171 / 5\<bar> \<le> 171 / 5 * 8 / 2 ^ 52"
proof -
  have m: "medianEquivalentValue sample_recorded 77 = 78" "medianEquivalentValue sample_recorded 5 = 5" by code_simp+
  have p: "length (populated sample_recorded) = 2" by code_simp
  have "{#77, 77, 5, 5, 5#} \<noteq> {#}" by simp
  from mean_accurate [OF sample_recorded_represents this] show ?thesis by (simp add: m p Let_def mult.commute)
qed

text \<open>C39: The mean and the standard deviation of every well-formed histogram are finite numbers that
  are not negative, zero when it is empty, and the standard deviation is the root of the sum that the
  loop computes, up to a relative error of \<open>2 ^ -51\<close> of its square.\<close>

theorem statistics_finite:
  assumes "hist_ok h"
  shows "\<exists>m s. Mean h = Inr (Fin m) \<and> StdDev h = Inr (Fin s) \<and> 0 \<le> m \<and> 0 \<le> s \<and>
    (if totalCount h = 0 then m = 0 \<and> s = 0
     else \<exists>v. variance h (Fin m) = Fin v \<and> 0 \<le> v \<and> \<bar>s * s - v\<bar> \<le> s * s / 2 ^ 51)"
proof (cases "totalCount h = 0")
  case True
  then show ?thesis by (simp add: Mean_def StdDev_def)
next
  case False
  have g: "geom_ok h" and tot: "1 \<le> totalCount h" "totalCount h \<le> MaxInt64"
    using assms False sum_list_nonneg_int [of "counts h"] by (auto simp: hist_ok_def)
  from Mean_near [OF assms False] obtain m where m: "Mean h = Inr (Fin m)"
    "near (6 + length (contents h)) m (\<Sum>b\<leftarrow>contents h. bucket_term h (totalCount h) b)" .
  have m0: "0 \<le> m" using near_nonneg [OF m(2)] .
  have "6 + length (contents h) \<le> 2 ^ 52" using contents_length [OF assms] by simp
  from near_linear(2) [OF m(2) this] have m2: "m \<le> 2 ^ 65" using terms_bound [OF assms False] by simp
  have "\<exists>v. variance h (Fin m) = Fin v \<and> 0 \<le> v"
    unfolding variance_def using contents_length [OF assms]
    by (intro variance_loop [OF g tot m0 m2 contents_ok [OF assms], of 0 0]) simp_all
  then obtain v where v: "variance h (Fin m) = Fin v" "0 \<le> v" by blast
  have sd: "StdDev h = Inr (fsqrt (Fin v))" using StdDev_eq [OF assms False m(1)] v(1) by simp
  show ?thesis
  proof (cases "v = 0")
    case True
    then show ?thesis using m(1) m0 sd v False by simp
  next
    case False
    then have "0 < v" using v(2) by simp
    then show ?thesis using m(1) m0 sd v \<open>totalCount h \<noteq> 0\<close> round_sqrt_square [of v] by auto
  qed
qed

theorem statistics_finite_witness:
  "\<exists>m s. Mean sample_recorded = Inr (Fin m) \<and> StdDev sample_recorded = Inr (Fin s) \<and> 0 \<le> m \<and> 0 \<le> s"
  using statistics_finite [OF represents_ok [OF sample_recorded_represents]] by blast

end
