(* ===== verification/Cumulative_Spec.thy ===== *)
theory Cumulative_Spec
  imports Cumulative Statistics_Spec Percentile_Spec
begin

text \<open>
  The cumulative distribution ends and is right as long as its scale is finer than the percentiles of
  the counts, and does not end when a count before the last has a percentile that rounds to 100 or when
  the number of ticks is negative. The
  iterator walks over the buckets (\<open>visited\<close>, \<open>pIterator_next_spec\<close>), its scale rises
  (\<open>scale_progress\<close>) and stays below 100 (\<open>scale_below_100\<close>), and every bracket is for the first bucket that
  its percentile reaches (\<open>reached\<close>).
\<close>

section \<open>The walk over the buckets\<close>

text \<open>The iterator has visited the first \<open>k\<close> buckets.\<close>

definition visited :: "histogram \<Rightarrow> iter \<Rightarrow> nat \<Rightarrow> bool" where
  "visited h i k \<longleftrightarrow>
     at_pos h i k \<and> k \<le> length (counts h) \<and> countToIdx i = sum_list (take k (counts h)) \<and>
     (if k = 0 then it_highestEquivalentValue i = 0
      else countAtIdx i = counts h ! (k - 1) \<and> sum_list (take (k - 1) (counts h)) < totalCount h \<and>
           it_highestEquivalentValue i = highestEquivalentValue h (valueFromFlatIndex h (int k - 1)))"

lemma visited_iterator: "geom_ok h \<Longrightarrow> visited h iterator 0"
  using at_pos_iterator by (simp add: visited_def iterator_def)

lemma visited_start: "geom_ok h \<Longrightarrow> visited h i k \<Longrightarrow> it_subBucketIdx i = - 1 \<longleftrightarrow> k = 0"
proof -
  assume g: "geom_ok h" and v: "visited h i k"
  then have p: "0 \<le> it_bucketIdx i" "- 1 \<le> it_subBucketIdx i" "it_bucketIdx i = 0 \<or> subBucketHalfCount h \<le> it_subBucketIdx i"
    "int k = it_bucketIdx i * subBucketHalfCount h + it_subBucketIdx i + 1" by (simp_all add: visited_def at_pos_def)
  have half: "0 < subBucketHalfCount h" using g by (simp add: geom_ok_def)
  show ?thesis
  proof
    assume "it_subBucketIdx i = - 1"
    then show "k = 0" using p(3,4) half by auto
  next
    assume "k = 0"
    moreover have "0 \<le> it_bucketIdx i * subBucketHalfCount h" using p(1) half by simp
    ultimately show "it_subBucketIdx i = - 1" using p(2,4) by linarith
  qed
qed

lemma prefix_bounds:
  assumes "hist_ok h"
  shows "0 \<le> sum_list (take k (counts h))" "sum_list (take k (counts h)) \<le> totalCount h" "totalCount h \<le> MaxInt64"
    "k \<le> l \<Longrightarrow> sum_list (take k (counts h)) \<le> sum_list (take l (counts h))"
proof -
  have nn: "\<forall>c \<in> set (counts h). 0 \<le> c" and t: "sum_list (counts h) = totalCount h" using assms by (simp_all add: hist_ok_def)
  show "0 \<le> sum_list (take k (counts h))" using nn by (intro sum_list_nonneg_int) (meson in_set_takeD)
  show "sum_list (take k (counts h)) \<le> totalCount h" using prefix_sum_le [OF nn] t by simp
  show "totalCount h \<le> MaxInt64" using assms by (simp add: hist_ok_def)
  have "\<forall>c \<in> set (take l (counts h)). 0 \<le> c" using nn by (meson in_set_takeD)
  from prefix_sum_le [OF this, of k] show "k \<le> l \<Longrightarrow> sum_list (take k (counts h)) \<le> sum_list (take l (counts h))" by (simp add: min_def)
qed

lemma visited_next:
  assumes h: "hist_ok h" and v: "visited h i k" and lt: "countToIdx i < totalCount h"
  obtains i' where "iter_next h i = (True, i')" "visited h i' (Suc k)" "k < length (counts h)"
proof -
  have g: "geom_ok h" and len: "int (length (counts h)) = countsLen h" and t: "sum_list (counts h) = totalCount h"
    using h by (simp_all add: hist_ok_def)
  have p: "at_pos h i k" and c: "countToIdx i = sum_list (take k (counts h))" and kl: "k \<le> length (counts h)"
    using v by (simp_all add: visited_def)
  have k: "k < length (counts h)"
  proof (rule ccontr)
    assume "\<not> ?thesis"
    then show False using c kl t lt by simp
  qed
  from next_position(1) [OF g p lt] k len obtain i' where
    N: "iter_next h i = (True, i')" "at_pos h i' (Suc k)" "countAtIdx i' = counts h ! k"
      "countToIdx i' = i64 (countToIdx i + counts h ! k)"
      "it_highestEquivalentValue i' = highestEquivalentValue h (valueFromFlatIndex h (int k))" by auto
  have sum: "countToIdx i + counts h ! k = sum_list (take (Suc k) (counts h))" using k c by (simp add: take_Suc_conv_app_nth)
  have "i64 (sum_list (take (Suc k) (counts h))) = sum_list (take (Suc k) (counts h))"
    using prefix_bounds(1,2) [OF h, of "Suc k"] prefix_bounds(3) [OF h] by (intro i64_id) linarith+
  then have "visited h i' (Suc k)" using N k sum c lt by (simp add: visited_def)
  then show ?thesis using that N(1) k by blast
qed

lemma next_stays: "\<not> countToIdx i < totalCount h \<Longrightarrow> iter_next h i = (False, i)"
  by (simp add: iter_next_def nextCountAtIdx_def)

text \<open>The percentile of a count.\<close>

definition cur :: "histogram \<Rightarrow> int \<Rightarrow> f64" where
  "cur h c = fdivide (fmul (Fin 100) (of_int64 c)) (of_int64 (totalCount h))"

definition reports :: "histogram \<Rightarrow> f64 \<Rightarrow> nat \<Rightarrow> bool" where
  "reports h x k \<longleftrightarrow> counts h ! (k - 1) \<noteq> 0 \<and> fle x (cur h (sum_list (take k (counts h))))"

text \<open>The loop stops at the first bucket that reports, or else at the end.\<close>

lemma p_loop_spec:
  assumes h: "hist_ok h"
  shows "visited h (p_it p) k \<Longrightarrow> 1 \<le> k \<Longrightarrow>
    \<exists>k' i. k \<le> k' \<and> visited h i k' \<and> (\<forall>j. k \<le> j \<and> j < k' \<longrightarrow> \<not> reports h (percentileToIteratorTo p) j) \<and>
      (if reports h (percentileToIteratorTo p) k' then p_loop lb h p = Some (report lb (p\<lparr>p_it := i\<rparr>))
       else countToIdx i = totalCount h \<and> p_loop lb h p = Some (p\<lparr>p_it := i\<rparr>))"
proof (induction "length (counts h) - k" arbitrary: p k rule: less_induct)
  case less
  note v = less.prems(1)
  have c: "countToIdx (p_it p) = sum_list (take k (counts h))" "countAtIdx (p_it p) = counts h ! (k - 1)"
    using v less.prems(2) by (simp_all add: visited_def)
  have r: "reports h (percentileToIteratorTo p) k \<longleftrightarrow>
      countAtIdx (p_it p) \<noteq> 0 \<and> fle (percentileToIteratorTo p) (currentPercentile h (p_it p))"
    by (simp add: reports_def cur_def currentPercentile_def c)
  show ?case
  proof (cases "reports h (percentileToIteratorTo p) k")
    case True
    then have "p_loop lb h p = Some (report lb p)" using r by (subst p_loop.simps) simp
    then show ?thesis using True v by (intro exI [of _ k] exI [of _ "p_it p"]) auto
  next
    case False
    then have nr: "\<not> (countAtIdx (p_it p) \<noteq> 0 \<and> fle (percentileToIteratorTo p) (currentPercentile h (p_it p)))" using r by simp
    show ?thesis
    proof (cases "countToIdx (p_it p) < totalCount h")
      case True
      from visited_next [OF h v True] obtain i where i: "iter_next h (p_it p) = (True, i)" "visited h i (Suc k)" "k < length (counts h)" .
      have s: "p_loop lb h p = p_loop lb h (p\<lparr>p_it := i\<rparr>)" using nr i(1) by (subst p_loop.simps) auto
      have "length (counts h) - Suc k < length (counts h) - k" using i(3) by simp
      from less.hyps [OF this, of "p\<lparr>p_it := i\<rparr>"] i(2) obtain k' i' where I:
        "Suc k \<le> k'" "visited h i' k'" "\<forall>j. Suc k \<le> j \<and> j < k' \<longrightarrow> \<not> reports h (percentileToIteratorTo p) j"
        "if reports h (percentileToIteratorTo p) k' then p_loop lb h p = Some (report lb (p\<lparr>p_it := i'\<rparr>))
         else countToIdx i' = totalCount h \<and> p_loop lb h p = Some (p\<lparr>p_it := i'\<rparr>)" by (auto simp: s)
      have "\<forall>j. k \<le> j \<and> j < k' \<longrightarrow> \<not> reports h (percentileToIteratorTo p) j"
        using I(3) False by (metis Suc_leI le_neq_implies_less)
      then show ?thesis using I by (intro exI [of _ k'] exI [of _ i']) auto
    next
      case full: False
      then have "p_loop lb h p = Some p" using nr next_stays [OF full] by (subst p_loop.simps) auto
      moreover have "countToIdx (p_it p) = totalCount h" using full c prefix_bounds(2) [OF h, of k] by linarith
      ultimately show ?thesis using False v by (intro exI [of _ k] exI [of _ "p_it p"]) auto
    qed
  qed
qed

text \<open>One call of the iterator before the last value has been seen.\<close>

lemma pIterator_next_spec:
  assumes h: "hist_ok h" and v: "visited h (p_it p) k" and lt: "countToIdx (p_it p) < totalCount h"
  shows "\<exists>k' i. 1 \<le> k' \<and> k \<le> k' \<and> visited h i k' \<and>
      (\<forall>j. max 1 k \<le> j \<and> j < k' \<longrightarrow> \<not> reports h (percentileToIteratorTo p) j) \<and>
      (if reports h (percentileToIteratorTo p) k' then pIterator_next lb h p = Some (True, report lb (p\<lparr>p_it := i\<rparr>))
       else countToIdx i = totalCount h \<and> pIterator_next lb h p = Some (True, p\<lparr>p_it := i\<rparr>))"
proof (cases "k = 0")
  case True
  have g: "geom_ok h" using h by (simp add: hist_ok_def)
  from visited_next [OF h v lt] obtain i where i: "iter_next h (p_it p) = (True, i)" "visited h i (Suc k)" .
  have "it_subBucketIdx (p_it p) = - 1" using visited_start [OF g v] True by simp
  then have n: "pIterator_next lb h p = map_option (Pair True) (p_loop lb h (p\<lparr>p_it := i\<rparr>))"
    using lt i(1) by (simp add: pIterator_next_def)
  from p_loop_spec [OF h, of "p\<lparr>p_it := i\<rparr>" 1 lb] i(2) True obtain k' i' where
    "1 \<le> k'" "visited h i' k'" "\<forall>j. 1 \<le> j \<and> j < k' \<longrightarrow> \<not> reports h (percentileToIteratorTo p) j"
    "if reports h (percentileToIteratorTo p) k' then p_loop lb h (p\<lparr>p_it := i\<rparr>) = Some (report lb (p\<lparr>p_it := i'\<rparr>))
     else countToIdx i' = totalCount h \<and> p_loop lb h (p\<lparr>p_it := i\<rparr>) = Some (p\<lparr>p_it := i'\<rparr>)" by auto
  then show ?thesis using True n by (intro exI [of _ k'] exI [of _ i']) (auto split: if_splits)
next
  case False
  have g: "geom_ok h" using h by (simp add: hist_ok_def)
  have n: "pIterator_next lb h p = map_option (Pair True) (p_loop lb h p)"
    using lt visited_start [OF g v] False by (simp add: pIterator_next_def)
  from p_loop_spec [OF h v, of lb] False obtain k' i' where
    "k \<le> k'" "visited h i' k'" "\<forall>j. k \<le> j \<and> j < k' \<longrightarrow> \<not> reports h (percentileToIteratorTo p) j"
    "if reports h (percentileToIteratorTo p) k' then p_loop lb h p = Some (report lb (p\<lparr>p_it := i'\<rparr>))
     else countToIdx i' = totalCount h \<and> p_loop lb h p = Some (p\<lparr>p_it := i'\<rparr>)" by auto
  then show ?thesis using False n by (intro exI [of _ k'] exI [of _ i']) (auto split: if_splits)
qed

section \<open>The steps of the scale\<close>

text \<open>
  What the code relies on of \<open>math.Trunc(math.Log2(z))\<close> for \<open>z \<ge> 1\<close>: it is the floor of the logarithm,
  which rounding may lift to the next integer.
\<close>

definition trunc_log2_ok :: "(rat \<Rightarrow> int) \<Rightarrow> bool" where
  "trunc_log2_ok lb \<longleftrightarrow> (\<forall>z \<ge> 1. ilog2 z \<le> lb z \<and> lb z \<le> ilog2 z + 1)"

lemma trunc_log2_ok_ilog2: "trunc_log2_ok ilog2"
  by (simp add: trunc_log2_ok_def)

lemma ilog2_ge0: "1 \<le> z \<Longrightarrow> 0 \<le> ilog2 z"
proof -
  assume "1 \<le> z"
  then have "ilog2 1 \<le> ilog2 z" by (intro ilog2_mono) simp_all
  moreover have "ilog2 1 = 0" by (rule ilog2_unique) simp_all
  ultimately show ?thesis by simp
qed

text \<open>The half distance is a power of two above \<open>z\<close>, at most four times as large.\<close>

lemma half_bounds:
  assumes lb: "trunc_log2_ok lb" and z: "1 \<le> z"
  shows "0 \<le> lb z" "z < 2 ^ nat (lb z + 1)" "2 ^ nat (lb z + 1) \<le> 4 * z"
proof -
  have l: "ilog2 z \<le> lb z" "lb z \<le> ilog2 z + 1" using lb z by (simp_all add: trunc_log2_ok_def)
  then show l0: "0 \<le> lb z" using ilog2_ge0 [OF z] by simp
  have b: "2 powi ilog2 z \<le> z" "z < 2 powi (ilog2 z + 1)" using ilog2_bounds [of z] z by simp_all
  have e: "(2 :: rat) powi (lb z + 1) = 2 ^ nat (lb z + 1)" using l0 by (simp add: power_int_def)
  have "(2 :: rat) powi (ilog2 z + 1) \<le> 2 powi (lb z + 1)" using l by (intro powi_mono) simp
  then show "z < 2 ^ nat (lb z + 1)" using b(2) e by simp
  have "(2 :: rat) powi (lb z + 1) \<le> 2 powi (ilog2 z + 2)" using l by (intro powi_mono) simp
  also have "\<dots> = 2 powi (ilog2 z) * 4" by (simp add: power_int_add)
  finally show "2 ^ nat (lb z + 1) \<le> 4 * z" using b(1) e by simp
qed

text \<open>Progress: below the percentile of a count that is not the total, the scale rises by at least
  \<open>2 ^ -44\<close>.\<close>

lemma scale_progress:
  assumes lb: "trunc_log2_ok lb" and k: "1 \<le> ticks" "1 \<le> t" "t * ticks \<le> 2 ^ 44"
    and x: "0 \<le> x" "x \<le> 100 - 50 / of_int t"
  obtains y where "fadd (Fin x) (tick_step lb ticks (Fin x)) = Fin y" "x + 1 / 2 ^ 44 \<le> y"
proof -
  let ?t = "of_int t :: rat" and ?k = "of_int ticks :: rat"
  have t: "1 \<le> ?t" "?t \<le> 2 ^ 44" and kk: "1 \<le> ?k" "?k \<le> 2 ^ 44" and tk: "?t * ?k \<le> 2 ^ 44"
  proof -
    show "1 \<le> ?t" "1 \<le> ?k" using k by simp_all
    have "t * 1 \<le> t * ticks" "1 * ticks \<le> t * ticks" using k by (intro mult_left_mono mult_right_mono; simp)+
    then have "t \<le> 2 ^ 44" "ticks \<le> 2 ^ 44" using k(3) by linarith+
    then have "?t \<le> of_int (2 ^ 44)" "?k \<le> of_int (2 ^ 44)" by (simp_all only: of_int_le_iff)
    then show "?t \<le> 2 ^ 44" "?k \<le> 2 ^ 44" by simp_all
    have "(of_int (t * ticks) :: rat) \<le> of_int (2 ^ 44)" using k(3) by (simp only: of_int_le_iff)
    then show "?t * ?k \<le> 2 ^ 44" by simp
  qed
  define d where "d = round64 (100 - x)"
  have e: "50 / ?t \<le> 100 - x" "100 - x \<le> 100" using x by simp_all
  have t50: "50 / 2 ^ 44 \<le> 50 / ?t" using t by (intro divide_left_mono) simp_all
  have "\<bar>round64 (100 - x) - (100 - x)\<bar> \<le> 1 / 2 ^ (54 - 7)" using e t50 by (intro round64_err) simp_all
  then have "\<bar>d - (100 - x)\<bar> \<le> 1 / 2 ^ 47" by (simp add: d_def)
  then have "100 - x - 1 / 2 ^ 47 \<le> d" by linarith
  moreover have "50 / ?t = 2 * (25 / ?t)" by simp
  ultimately have d: "25 / ?t \<le> d" "d \<le> 100"
    using e t50 round64_le [OF dyadic_of_int [of 100], of "100 - x"] by (simp_all add: d_def)
  let ?z = "100 / d"
  have d0: "0 < d" using d(1) t(1) less_le_trans [of 0 "25 / ?t" d] by simp
  have z0: "1 \<le> ?z" "?z \<le> 4 * ?t"
  proof -
    show "1 \<le> ?z" using d(2) d0 by (simp add: le_divide_eq)
    have "?z \<le> 100 / (25 / ?t)" using d(1) t(1) d0 by (intro divide_left_mono) simp_all
    then show "?z \<le> 4 * ?t" by simp
  qed
  then have z46: "?z \<le> 2 ^ 46" using t by simp
  define z where "z = round64 ?z"
  have "\<bar>round64 ?z - ?z\<bar> \<le> 1 / 2 ^ (54 - 47)" using z0 z46 by (intro round64_err) simp_all
  then have zz: "\<bar>z - ?z\<bar> \<le> 1" by (simp add: z_def)
  have z: "1 \<le> z" "z \<le> 2 * ?z"
  proof -
    show "1 \<le> z" using z0(1) round64_ge [OF dyadic_of_int [of 1], of ?z] by (simp add: z_def)
    show "z \<le> 2 * ?z" using zz z0(1) by linarith
  qed
  define H :: rat where "H = 2 ^ nat (lb z + 1)"
  have H: "0 \<le> lb z" "H \<le> 8 * ?z" "1 \<le> H" using half_bounds [OF lb z(1)] z(2) by (simp_all add: H_def)
  have fz: "fdivide (Fin 100) (fsub (Fin 100) (Fin x)) = Fin z"
    using e t50 d0 z0(1) z46 by (simp add: fsub_def of_rat64_fin z_def flip: d_def)
  have "H \<le> 2 ^ 49" using H(2) z46 by simp
  then have "nat (lb z + 1) \<le> 49" unfolding H_def by (rule power_le_imp_le_exp [rotated]) simp
  then have half: "halfDistance lb (Fin x) = Fin H" using z(1) H(1) by (simp add: halfDistance_def fz trunc_pow2_def H_def)
  have dy: "dyadic (?k * H)"
  proof (rule dyadicI [of _ ticks "lb z + 1"])
    show "?k * H = ?k * 2 powi (lb z + 1)" using H(1) by (simp add: H_def power_int_def)
    have "(of_int ticks :: rat) \<le> of_int (2 ^ 44)" using kk(2) by simp
    then have "ticks \<le> 2 ^ 44" by (simp only: of_int_le_iff)
    then show "\<bar>ticks\<bar> \<le> 2 ^ 53" using k(1) by simp
  qed (use H(1) in simp)
  have kH: "1 \<le> ?k * H" "?k * H \<le> 2 ^ 49"
  proof -
    show "1 \<le> ?k * H" using mult_mono [OF kk(1) H(3)] kk(1) by simp
    have "H \<le> 32 * ?t" using H(2) z0(2) by simp
    then have "?k * H \<le> ?k * (32 * ?t)" using kk(1) by (intro mult_left_mono) simp_all
    then show "?k * H \<le> 2 ^ 49" using tk by (simp add: mult.commute mult.left_commute)
  qed
  have ticksH: "fmul (of_int64 ticks) (Fin H) = Fin (?k * H)"
  proof -
    have "(of_int ticks :: rat) \<le> of_int (2 ^ 44)" using kk(2) by simp
    then have "ticks \<le> 2 ^ 44" by (simp only: of_int_le_iff)
    then have "of_int64 ticks = Fin ?k" using k(1) by (intro of_int64_exact) simp
    then show ?thesis using kH by (simp add: of_rat64_fin round64_exact [OF dy])
  qed
  define s where "s = round64 (100 / (?k * H))"
  have "100 / 2 ^ 49 \<le> 100 / (?k * H)" using kH by (intro divide_left_mono) simp_all
  then have q: "1 / 2 ^ 43 \<le> 100 / (?k * H)" by simp
  have q1: "100 / (?k * H) \<le> 100" using kH(1) by (simp add: divide_le_eq)
  have st: "tick_step lb ticks (Fin x) = Fin s"
    using kH(1) H(3) k(1) q q1 by (simp add: tick_step_def half ticksH of_rat64_fin s_def)
  have d43: "dyadic (1 / 2 ^ 43)" by (rule dyadicI [of _ 1 "- 43"]) (simp_all add: power_int_def field_simps)
  have s: "1 / 2 ^ 43 \<le> s" "s \<le> 100"
    using round64_ge [OF d43 q] round64_le [OF dyadic_of_int [of 100], of "100 / (?k * H)"] q1 by (simp_all add: s_def)
  have f: "fadd (Fin x) (tick_step lb ticks (Fin x)) = Fin (round64 (x + s))"
    using x(1) e t50 s by (simp add: st of_rat64_fin)
  have "x + 1 / 2 ^ 43 < 2 ^ 7" using e(1) t50 by simp
  then have "\<bar>round64 (x + 1 / 2 ^ 43) - (x + 1 / 2 ^ 43)\<bar> \<le> 1 / 2 ^ (54 - 7)" using x(1) by (intro round64_err) simp_all
  then have r: "\<bar>round64 (x + 1 / 2 ^ 43) - (x + 1 / 2 ^ 43)\<bar> \<le> 1 / 2 ^ 47" by simp
  have "round64 (x + 1 / 2 ^ 43) \<le> round64 (x + s)" using s(1) by (intro round64_mono) simp
  moreover have "(1 :: rat) / 2 ^ 44 + 1 / 2 ^ 47 \<le> 1 / 2 ^ 43" by simp
  ultimately have "x + 1 / 2 ^ 44 \<le> round64 (x + s)" using r by linarith
  then show ?thesis using that f by blast
qed

text \<open>The scale never passes 100.\<close>

lemma dyadic_complement:
  assumes "dyadic x" "50 \<le> x" "x \<le> 100"
  shows "dyadic (100 - x)"
proof -
  obtain k e where x: "x = of_int k * 2 powi e" "\<bar>k\<bar> \<le> 2 ^ 53" "- 1074 \<le> e" using assms(1) by (auto simp: dyadic_def)
  have p: "(0 :: rat) < 2 powi e" by simp
  show ?thesis
  proof (cases "e \<le> 0")
    case True
    let ?m = "100 * 2 ^ nat (- e) - k"
    have "(2 :: rat) ^ nat (- e) * 2 powi e = 1" using True by (simp add: power_int_def flip: power_mult_distrib)
    then have m: "100 - x = of_int ?m * 2 powi e" by (simp add: x(1) left_diff_distrib mult.assoc)
    have "0 \<le> 100 - x" "100 - x \<le> x" using assms by simp_all
    then have "0 \<le> of_int ?m * (2 powi e :: rat)" "of_int ?m * 2 powi e \<le> (of_int k * 2 powi e :: rat)" unfolding m x(1) [symmetric] by simp_all
    then have "(0 :: rat) \<le> of_int ?m" "of_int ?m \<le> (of_int k :: rat)" using p by (simp_all only: zero_le_mult_iff mult_le_cancel_right, linarith+)
    then have "0 \<le> ?m" "?m \<le> k" by (simp_all only: of_int_0_le_iff of_int_le_iff)
    then have "\<bar>?m\<bar> \<le> 2 ^ 53" using x(2) by simp
    then show ?thesis using x(3) m by (intro dyadicI) auto
  next
    case False
    then have "2 powi e = (of_int (2 ^ nat e) :: rat)" by (simp add: power_int_def)
    then have e: "100 - x = of_int (100 - k * 2 ^ nat e)" by (simp add: x(1))
    have "0 \<le> 100 - x" "100 - x \<le> 50" using assms by simp_all
    then have "0 \<le> 100 - k * 2 ^ nat e" "100 - k * 2 ^ nat e \<le> 50" unfolding e by (simp_all only: of_int_0_le_iff of_int_le_numeral_iff)
    then show ?thesis unfolding e by (intro dyadic_of_int) simp
  qed
qed

text \<open>An infinite half distance makes no step.\<close>

lemma tick_step_far:
  assumes "1 \<le> ticks" "ticks \<le> MaxInt64" "halfDistance lb x = Inf False"
  shows "tick_step lb ticks x = Fin 0"
proof -
  obtain r where "of_int64 ticks = Fin r" "1 \<le> r"
    using assms(1,2) of_int64_fin [of ticks] round64_ge [OF dyadic_of_int [of 1], of "of_int ticks"] by auto
  then show ?thesis by (simp add: tick_step_def assms(3))
qed

lemma tick_step_bound:
  assumes lb: "trunc_log2_ok lb" and k: "1 \<le> ticks" "ticks \<le> MaxInt64"
    and d: "fsub (Fin 100) (Fin x) = Fin d" "0 < d" "d \<le> 100"
  obtains s where "tick_step lb ticks (Fin x) = Fin s" "0 \<le> s" "s \<le> 50" "dyadic d \<Longrightarrow> s \<le> d"
proof -
  let ?z = "100 / d"
  obtain t where t: "of_int64 ticks = Fin t" "1 \<le> t"
    using k of_int64_fin [of ticks] round64_ge [OF dyadic_of_int [of 1], of "of_int ticks"] by auto
  note step = that
  have far: thesis if hd: "halfDistance lb (Fin x) = Inf False"
    by (rule step [of 0]) (use tick_step_far [OF k hd] d(2) in simp_all)
  have z1: "1 \<le> ?z" using d(2,3) by (simp add: le_divide_eq)
  consider "of_rat64 ?z = Inf False" | "of_rat64 ?z = Fin (round64 ?z)" using of_rat64_cases [of ?z] d(2) by auto
  then show ?thesis
  proof cases
    case 1
    then have "halfDistance lb (Fin x) = Inf False" using d(2) by (simp add: halfDistance_def d(1))
    then show ?thesis by (rule far)
  next
    case 2
    define z where "z = round64 ?z"
    have z: "1 \<le> z" using round64_ge [OF dyadic_of_int [of 1], of ?z] z1 by (simp add: z_def)
    define H :: rat where "H = 2 ^ nat (lb z + 1)"
    have H: "0 \<le> lb z" "z < H" using half_bounds [OF lb z] by (simp_all add: H_def)
    have "(2 :: rat) ^ 1 \<le> H" unfolding H_def using H(1) by (intro power_increasing) simp_all
    then have H2: "2 \<le> H" by simp
    have Hz: "?z \<le> H"
    proof (rule ccontr)
      assume "\<not> ?thesis"
      then have "H \<le> z" unfolding z_def H_def by (intro round64_ge dyadic_power) simp
      then show False using H(2) by simp
    qed
    have half: "halfDistance lb (Fin x) = (if lb z + 1 \<ge> 1024 then Inf False else Fin H)"
      using z H(1) d(2) 2 by (simp add: halfDistance_def d(1) trunc_pow2_def H_def flip: z_def)
    show ?thesis
    proof (cases "lb z + 1 \<ge> 1024")
      case True
      then show ?thesis using half by (intro far) simp
    next
      case False
      then have half: "halfDistance lb (Fin x) = Fin H" using half by simp
      have tH: "H \<le> t * H" using t(2) H2 by simp
      consider "of_rat64 (t * H) = Inf False" | "of_rat64 (t * H) = Fin (round64 (t * H))"
        using of_rat64_cases [of "t * H"] tH H2 by auto
      then show ?thesis
      proof cases
        case 1
        then have "tick_step lb ticks (Fin x) = Fin 0" by (simp add: tick_step_def half t(1))
        then show ?thesis using that d(2) by auto
      next
        case 2
        define r where "r = round64 (t * H)"
        have r: "H \<le> r" unfolding r_def using tH by (intro round64_ge) (simp_all add: H_def dyadic_power)
        have q: "0 \<le> 100 / r" "100 / r \<le> 50" "100 / r \<le> d"
        proof -
          show "0 \<le> 100 / r" "100 / r \<le> 50" using r H2 by (simp_all add: divide_le_eq)
          have "100 \<le> d * H" using Hz d(2) by (simp add: divide_le_eq mult.commute)
          also have "\<dots> \<le> d * r" using r d(2) by simp
          finally show "100 / r \<le> d" using r H2 by (simp add: divide_le_eq)
        qed
        have "tick_step lb ticks (Fin x) = Fin (round64 (100 / r))"
          using 2 r H2 q by (simp add: tick_step_def half t(1) of_rat64_fin flip: r_def)
        moreover have "round64 (100 / r) \<le> 50" using round64_le [OF dyadic_of_int [of 50], of "100 / r"] q(2) by simp
        ultimately show ?thesis using that round64_nonneg [OF q(1)] round64_le [OF _ q(3)] by blast
      qed
    qed
  qed
qed

text \<open>The scale never passes 100.\<close>

lemma scale_below_100:
  assumes lb: "trunc_log2_ok lb" and k: "1 \<le> ticks" "ticks \<le> MaxInt64" and x: "0 \<le> x" "x \<le> 100" "dyadic x"
  obtains y where "fadd (Fin x) (tick_step lb ticks (Fin x)) = Fin y" "x \<le> y" "y \<le> 100" "dyadic y"
proof -
  have "\<exists>s. tick_step lb ticks (Fin x) = Fin s \<and> 0 \<le> s \<and> x + s \<le> 100"
  proof (cases "x = 100")
    case True
    have "halfDistance lb (Fin x) = Inf False" by (simp add: halfDistance_def True fsub_def of_rat64_fin round64_0)
    then show ?thesis using tick_step_far [OF k] True by auto
  next
    case x1: False
    let ?d = "round64 (100 - x)"
    have d: "fsub (Fin 100) (Fin x) = Fin ?d" using x by (simp add: fsub_def of_rat64_fin)
    have le: "?d \<le> 100" using x(1) round64_le [OF dyadic_of_int [of 100], of "100 - x"] by simp
    show ?thesis
    proof (cases "50 \<le> x")
      case True
      then have "dyadic (100 - x)" using x by (intro dyadic_complement)
      then have e: "?d = 100 - x" by (rule round64_exact)
      have "0 < ?d" using e x(2) x1 by simp
      then obtain s where "tick_step lb ticks (Fin x) = Fin s" "0 \<le> s" "dyadic ?d \<Longrightarrow> s \<le> ?d" using tick_step_bound [OF lb k d] le by blast
      then show ?thesis using dyadic_round64 [of "100 - x"] e by auto
    next
      case False
      then have "50 \<le> ?d" using round64_ge [OF dyadic_of_int [of 50], of "100 - x"] by simp
      then obtain s where "tick_step lb ticks (Fin x) = Fin s" "0 \<le> s" "s \<le> 50" using tick_step_bound [OF lb k d] le by auto
      then show ?thesis using False by auto
    qed
  qed
  then obtain s where s: "tick_step lb ticks (Fin x) = Fin s" "0 \<le> s" "x + s \<le> 100" by blast
  then have "fadd (Fin x) (tick_step lb ticks (Fin x)) = Fin (round64 (x + s))" using x by (simp add: of_rat64_fin)
  moreover have "x \<le> round64 (x + s)" using x(3) s(2) by (intro round64_ge) simp_all
  moreover have "round64 (x + s) \<le> 100" using s(3) round64_le [OF dyadic_of_int [of 100], of "x + s"] by simp
  ultimately show ?thesis using that dyadic_round64 by blast
qed

section \<open>The distribution ends\<close>

text \<open>The totals and numbers of ticks for which the scale is finer than the percentiles of the counts.\<close>

definition scale_ok :: "(rat \<Rightarrow> int) \<Rightarrow> histogram \<Rightarrow> int \<Rightarrow> bool" where
  "scale_ok lb h ticks \<longleftrightarrow>
     hist_ok h \<and> trunc_log2_ok lb \<and> 1 \<le> totalCount h \<and> 1 \<le> ticks \<and> totalCount h * ticks \<le> 2 ^ 44"

lemma scale_okD:
  assumes "scale_ok lb h ticks"
  shows "hist_ok h" "trunc_log2_ok lb" "1 \<le> totalCount h" "1 \<le> ticks" "totalCount h * ticks \<le> 2 ^ 44"
    "totalCount h \<le> 2 ^ 44" "ticks \<le> MaxInt64"
proof -
  show "hist_ok h" "trunc_log2_ok lb" and t: "1 \<le> totalCount h" "1 \<le> ticks" "totalCount h * ticks \<le> 2 ^ 44"
    using assms by (simp_all add: scale_ok_def)
  have "totalCount h * 1 \<le> totalCount h * ticks" "1 * ticks \<le> totalCount h * ticks"
    using t by (intro mult_left_mono mult_right_mono; simp)+
  then show "totalCount h \<le> 2 ^ 44" "ticks \<le> MaxInt64" using t(3) by simp_all
qed

lemma cur_Fin:
  assumes s: "scale_ok lb h ticks" and c: "0 \<le> c" "c \<le> totalCount h"
  shows "cur h c = Fin (round64 (100 * of_int c / of_int (totalCount h)))"
proof -
  note t = scale_okD(3,6) [OF s]
  have c44: "c \<le> 2 ^ 44" using c t by simp
  have f: "of_int64 c = Fin (of_int c)" "of_int64 (totalCount h) = Fin (of_int (totalCount h))"
    using c c44 t by (simp_all add: of_int64_exact)
  have "dyadic (of_int (100 * c))" using c c44 by (intro dyadic_of_int) simp
  then have d: "round64 (100 * of_int c) = 100 * of_int c" by (simp add: round64_exact)
  have "100 * c \<le> 2 ^ 64" using c44 by simp
  then have "(of_int (100 * c) :: rat) \<le> of_int (2 ^ 64)" by (simp only: of_int_le_iff)
  then have m: "of_rat64 (100 * of_int c) = Fin (100 * of_int c)" using c(1) by (subst of_rat64_fin) (simp_all add: d)
  have T: "(1 :: rat) \<le> of_int (totalCount h)" using t(1) by simp
  have "(of_int c :: rat) \<le> of_int (totalCount h)" "(0 :: rat) \<le> of_int c" using c by (simp_all only: of_int_le_iff of_int_0_le_iff)
  then have "0 \<le> 100 * of_int c / (of_int (totalCount h) :: rat)" "100 * of_int c / (of_int (totalCount h) :: rat) \<le> 100"
    using T by (simp_all add: divide_le_eq)
  then show ?thesis using t(1) by (simp add: cur_def f m of_rat64_fin)
qed

lemma cur_total: "scale_ok lb h ticks \<Longrightarrow> cur h (totalCount h) = Fin 100"
  using cur_Fin [of lb h ticks "totalCount h"] scale_okD(3) [of lb h ticks] round64_exact [OF dyadic_of_int [of 100]] by simp

lemma cur_near:
  assumes s: "scale_ok lb h ticks" and c: "0 \<le> c" "c \<le> totalCount h"
  obtains y where "cur h c = Fin y" "\<bar>y - 100 * of_int c / of_int (totalCount h)\<bar> \<le> 1 / 2 ^ 47"
proof -
  let ?y = "100 * of_int c / of_int (totalCount h) :: rat"
  have "(1 :: rat) \<le> of_int (totalCount h)" "(of_int c :: rat) \<le> of_int (totalCount h)" "(0 :: rat) \<le> of_int c"
    using c scale_okD(3) [OF s] by simp_all
  then have "0 \<le> ?y" "?y \<le> 100" by (simp_all add: divide_le_eq)
  then have "\<bar>?y\<bar> < 2 ^ 7" by simp
  from round64_err [OF this] have "\<bar>round64 ?y - ?y\<bar> \<le> 1 / 2 ^ 47" by simp
  then show ?thesis using that cur_Fin [OF s c] by blast
qed

lemma cur_below:
  assumes s: "scale_ok lb h ticks" and c: "0 \<le> c" "c < totalCount h"
  obtains y where "cur h c = Fin y" "y \<le> 100 - 50 / of_int (totalCount h)" "y < 100"
proof -
  let ?T = "of_int (totalCount h) :: rat"
  from cur_near [OF s c(1)] c(2) obtain y where y: "cur h c = Fin y" "\<bar>y - 100 * of_int c / ?T\<bar> \<le> 1 / 2 ^ 47" by auto
  note t = scale_okD(3,6) [OF s]
  have T: "1 \<le> ?T" using t(1) by simp
  have "?T \<le> of_int (2 ^ 44)" using t(2) by (simp only: of_int_le_iff)
  then have "50 / of_int (2 ^ 44) \<le> 50 / ?T" using T by (intro divide_left_mono) simp_all
  moreover have "(1 :: rat) / 2 ^ 47 \<le> 50 / of_int (2 ^ 44)" by simp
  ultimately have r: "1 / 2 ^ 47 \<le> 50 / ?T" by (rule order_trans [rotated])
  have r0: "0 < 50 / ?T" using T by simp
  have "(of_int c :: rat) \<le> of_int (totalCount h - 1)" using c(2) by (simp only: of_int_le_iff)
  then have "100 * of_int c / ?T \<le> (100 * ?T - 100) / ?T" using T by (intro divide_right_mono) simp_all
  also have "\<dots> = 100 - 2 * (50 / ?T)" using T by (simp add: diff_divide_distrib)
  finally have "y \<le> 100 - 50 / ?T" using y(2) r(1) by linarith
  then show ?thesis using that y(1) r0 by simp
qed

text \<open>A bracket for a bucket and a percentile, and the bucket that a percentile reaches first.\<close>

fun bracket_of :: "histogram \<Rightarrow> nat \<times> rat \<Rightarrow> bracket" where
  "bracket_of h (k, q) =
     \<lparr>Quantile = Fin q, b_Count = sum_list (take k (counts h)),
      ValueAt = highestEquivalentValue h (valueFromFlatIndex h (int k - 1))\<rparr>"

definition reached :: "histogram \<Rightarrow> nat \<Rightarrow> rat \<Rightarrow> bool" where
  "reached h k q \<longleftrightarrow>
     1 \<le> k \<and> k \<le> length (counts h) \<and> reports h (Fin q) k \<and> (\<forall>j. 1 \<le> j \<and> j < k \<longrightarrow> \<not> reports h (Fin q) j)"

lemma visited_end:
  assumes s: "scale_ok lb h ticks" and v: "visited h i k" and t: "countToIdx i = totalCount h" and x: "x \<le> 100"
  shows "1 \<le> k" "reports h (Fin x) k" "reached h k 100"
proof -
  note h = scale_okD(1) [OF s]
  have c: "sum_list (take k (counts h)) = totalCount h" using v t by (simp add: visited_def)
  then show k: "1 \<le> k" using scale_okD(3) [OF s] by (cases k) auto
  then have l: "sum_list (take (k - 1) (counts h)) < totalCount h" and kl: "k \<le> length (counts h)" using v by (simp_all add: visited_def)
  have "take k (counts h) = take (k - 1) (counts h) @ [counts h ! (k - 1)]"
    using k kl take_Suc_conv_app_nth [of "k - 1" "counts h"] by simp
  then have "counts h ! (k - 1) \<noteq> 0" using c l by auto
  then have r: "reports h (Fin y) k" if "y \<le> 100" for y using that by (simp add: reports_def c cur_total [OF s])
  then show "reports h (Fin x) k" using x by blast
  have "\<not> reports h (Fin 100) j" if j: "j < k" for j
  proof -
    have "j \<le> k - 1" using j by simp
    from prefix_bounds(4) [OF h this] l have "sum_list (take j (counts h)) < totalCount h" by (rule le_less_trans)
    from cur_below [OF s prefix_bounds(1) [OF h] this] obtain y where
      "cur h (sum_list (take j (counts h))) = Fin y" "y < 100" .
    then show ?thesis by (simp add: reports_def)
  qed
  then show "reached h k 100" using k kl r by (simp add: reached_def)
qed

lemma bracket_at_visited:
  "visited h i k \<Longrightarrow> 1 \<le> k \<Longrightarrow> p_it p = i \<Longrightarrow> percentile p = Fin q \<Longrightarrow> bracket_at p = bracket_of h (k, q)"
  by (simp add: bracket_at_def visited_def)

lemma brackets_end:
  assumes s: "scale_ok lb h ticks" and v: "visited h (p_it p) k" and t: "countToIdx (p_it p) = totalCount h"
    and n: "\<not> seenLastValue p"
  shows "brackets lb h p = Some [bracket_of h (k, 100)]"
proof -
  let ?p = "p\<lparr>seenLastValue := True, percentile := Fin 100\<rparr>"
  have "pIterator_next lb h p = Some (True, ?p)" "pIterator_next lb h ?p = Some (False, ?p)"
    using t n by (simp_all add: pIterator_next_def)
  moreover from this have "brackets lb h ?p = Some []" by (subst brackets.simps) simp
  moreover have "bracket_at ?p = bracket_of h (k, 100)"
    by (rule bracket_at_visited [OF v visited_end(1) [OF s v t order_refl]]) simp_all
  ultimately show ?thesis by (subst brackets.simps) simp
qed

text \<open>From any position before the end, the scale reaches 100 and every bracket is the first bucket
  that its percentile reaches.\<close>

lemma brackets_reached:
  assumes s: "scale_ok lb h ticks"
  shows "\<lbrakk>visited h (p_it p) k; countToIdx (p_it p) < totalCount h; percentileToIteratorTo p = Fin x; 0 \<le> x; x \<le> 100; dyadic x;
     ticksPerHalfDistance p = ticks; \<not> seenLastValue p; \<forall>j. 1 \<le> j \<and> j < k \<longrightarrow> \<not> reports h (Fin x) j;
     101 - x \<le> of_nat n / 2 ^ 44\<rbrakk> \<Longrightarrow>
   \<exists>ks l. brackets lb h p = Some (map (bracket_of h) (ks @ [(l, 100)])) \<and> sum_list (take l (counts h)) = totalCount h \<and>
      sorted (map fst (ks @ [(l, 100)])) \<and> sorted (map snd (ks @ [(l, 100)])) \<and>
      (\<forall>(k', q) \<in> set (ks @ [(l, 100)]). k \<le> k' \<and> x \<le> q \<and> reached h k' q)"
proof (induction n arbitrary: p k x)
  case 0
  then show ?case by simp
next
  case (Suc n)
  note v = Suc.prems(1) and lt = Suc.prems(2) and x = Suc.prems(3-6) and pre = Suc.prems(9)
  note h = scale_okD(1) [OF s]
  from pIterator_next_spec [OF h v lt, of lb] x(1) obtain k' i where N: "1 \<le> k'" "k \<le> k'" "visited h i k'"
    "\<forall>j. max 1 k \<le> j \<and> j < k' \<longrightarrow> \<not> reports h (Fin x) j"
    "if reports h (Fin x) k' then pIterator_next lb h p = Some (True, report lb (p\<lparr>p_it := i\<rparr>))
     else countToIdx i = totalCount h \<and> pIterator_next lb h p = Some (True, p\<lparr>p_it := i\<rparr>)" by auto
  have r: "reports h (Fin x) k'" using N(5) visited_end(2) [OF s N(3) _ x(3)] by (auto split: if_splits)
  define p' where "p' = report lb (p\<lparr>p_it := i\<rparr>)"
  have next_: "pIterator_next lb h p = Some (True, p')" using N(5) r by (simp add: p'_def)
  from scale_below_100 [OF scale_okD(2,4,7) [OF s] x(2-4)] obtain y where
    y: "fadd (Fin x) (tick_step lb ticks (Fin x)) = Fin y" "x \<le> y" "y \<le> 100" "dyadic y" .
  have p': "p_it p' = i" "percentile p' = Fin x" "percentileToIteratorTo p' = Fin y" "ticksPerHalfDistance p' = ticks" "\<not> seenLastValue p'"
    using x(1) Suc.prems(7,8) y(1) by (simp_all add: p'_def report_def)
  have b: "bracket_at p' = bracket_of h (k', x)" by (rule bracket_at_visited [OF N(3,1) p'(1,2)])
  have br: "brackets lb h p = Option.bind (brackets lb h p') (\<lambda>rest. Some (bracket_of h (k', x) # rest))"
    using next_ b by (subst brackets.simps) simp
  have none: "\<forall>j. 1 \<le> j \<and> j < k' \<longrightarrow> \<not> reports h (Fin x) j"
    using pre N(4) by (metis max.boundedI not_less)
  then have re: "reached h k' x" using N(1,3) r by (simp add: reached_def visited_def)
  have c: "countToIdx i = sum_list (take k' (counts h))" using N(3) by (simp add: visited_def)
  show ?case
  proof (cases "countToIdx i < totalCount h")
    case True
    from cur_below [OF s _ True] prefix_bounds(1) [OF h, of k'] c obtain w where
      w: "cur h (countToIdx i) = Fin w" "w \<le> 100 - 50 / of_int (totalCount h)" by metis
    have "fle (Fin x) (cur h (countToIdx i))" using r c by (simp add: reports_def)
    then have "x \<le> 100 - 50 / of_int (totalCount h)" using w by (auto intro: order_trans)
    from scale_progress [OF scale_okD(2,4,3,5) [OF s] x(2) this] y(1)
    have prog: "x + 1 / 2 ^ 44 \<le> y" by auto
    have none': "\<forall>j. 1 \<le> j \<and> j < k' \<longrightarrow> \<not> reports h (Fin y) j"
    proof (intro allI impI)
      fix j assume j: "1 \<le> j \<and> j < k'"
      have "fle (Fin x) (Fin y)" using y(2) by simp
      then show "\<not> reports h (Fin y) j" using none j fle_trans unfolding reports_def by blast
    qed
    have v': "visited h (p_it p') k'" and lt': "countToIdx (p_it p') < totalCount h" using N(3) True p'(1) by simp_all
    have y0: "0 \<le> y" using x(2) y(2) by simp
    have meas: "101 - y \<le> of_nat n / 2 ^ 44" using prog Suc.prems(10) by (simp add: add_divide_distrib)
    from Suc.IH [OF v' lt' p'(3) y0 y(3,4) p'(4,5) none' meas] obtain ks l where I:
      "brackets lb h p' = Some (map (bracket_of h) (ks @ [(l, 100)]))" "sum_list (take l (counts h)) = totalCount h"
      "sorted (map fst (ks @ [(l, 100)]))" "sorted (map snd (ks @ [(l, 100)]))"
      "\<forall>(k'', q) \<in> set (ks @ [(l, 100)]). k' \<le> k'' \<and> y \<le> q \<and> reached h k'' q" by blast
    show ?thesis
      by (rule exI [of _ "(k', x) # ks"], rule exI [of _ l]) (use I re N(2) y(2) in \<open>auto simp: br\<close>)
  next
    case False
    then have t: "countToIdx i = totalCount h" using c prefix_bounds(2) [OF h, of k'] by simp
    then have "brackets lb h p' = Some [bracket_of h (k', 100)]" using N(3) p'(1,5) by (intro brackets_end [OF s]) simp_all
    then show ?thesis using visited_end(3) [OF s N(3) t x(3)] re x(3) N(2) t c
      by (intro exI [of _ "[(k', x)]"] exI [of _ k']) (simp add: br)
  qed
qed

section \<open>The brackets against the recorded values\<close>

lemma index_order:
  assumes "geom_ok h" "0 \<le> v" "v \<le> MaxInt64" "0 \<le> w" "w \<le> MaxInt64"
  shows "countsIndexFor h w \<le> countsIndexFor h v \<longleftrightarrow> w \<le> highestEquivalentValue h v"
    and "countsIndexFor h w < countsIndexFor h v \<longleftrightarrow> w < lowestEquivalentValue h v"
proof -
  note r = value_in_range [OF assms(1-3)]
  have hl: "highestEquivalentValue h v = lowestEquivalentValue h v + sizeOfEquivalentValueRange h v - 1" using r by simp
  have same: "countsIndexFor h v = countsIndexFor h w \<longleftrightarrow> lowestEquivalentValue h v \<le> w \<and> w \<le> highestEquivalentValue h v"
    using countsIndexFor_eq_iff [OF assms] r by auto
  have up: "countsIndexFor h v \<le> countsIndexFor h w" if "v \<le> w" using countsIndexFor_mono [OF assms(1,2) that assms(5)] .
  have down: "countsIndexFor h w \<le> countsIndexFor h v" if "w \<le> v" using countsIndexFor_mono [OF assms(1,4) that assms(3)] .
  consider "w < lowestEquivalentValue h v" | "lowestEquivalentValue h v \<le> w" "w \<le> highestEquivalentValue h v" | "highestEquivalentValue h v < w"
    by linarith
  then show "countsIndexFor h w \<le> countsIndexFor h v \<longleftrightarrow> w \<le> highestEquivalentValue h v"
    "countsIndexFor h w < countsIndexFor h v \<longleftrightarrow> w < lowestEquivalentValue h v"
    using same up down r by (cases; auto)+
qed

lemma bracket_values:
  assumes r: "represents h M" and k: "1 \<le> k" "k \<le> length (counts h)" "counts h ! (k - 1) \<noteq> 0"
  obtains v where "v \<in># M" "valueFromFlatIndex h (int k - 1) = valueFromFlatIndex h (countsIndexFor h v)"
    "ValueAt (bracket_of h (k, q)) = highestEquivalentValue h v"
    "sum_list (take k (counts h)) = int (size {#w \<in># M. w \<le> highestEquivalentValue h v#})"
    "sum_list (take (k - 1) (counts h)) = int (size {#w \<in># M. w < lowestEquivalentValue h v#})"
proof -
  have h: "hist_ok h" and g: "geom_ok h" and A: "\<And>v. v \<in># M \<Longrightarrow> in_array h v"
    using r by (auto simp: represents_def hist_ok_def)
  have "counts h ! (k - 1) = int (size {#v \<in># M. countsIndexFor h v = int (k - 1)#})"
    using r k(1,2) by (simp add: represents_def)
  with k(3) have "{#v \<in># M. countsIndexFor h v = int (k - 1)#} \<noteq> {#}" by auto
  then obtain v where v: "v \<in># M" "countsIndexFor h v = int (k - 1)" by auto
  have e: "valueFromFlatIndex h (int k - 1) = valueFromFlatIndex h (countsIndexFor h v)" using v(2) k(1) by (simp add: of_nat_diff)
  have o1: "countsIndexFor h w < int k \<longleftrightarrow> w \<le> highestEquivalentValue h v"
    and o2: "countsIndexFor h w < int (k - 1) \<longleftrightarrow> w < lowestEquivalentValue h v" if "w \<in># M" for w
    using index_order [OF g, of v w] A [OF v(1)] A [OF that] v(2) k(1) by (auto simp: in_array_def)
  have "{#w \<in># M. countsIndexFor h w < int k#} = {#w \<in># M. w \<le> highestEquivalentValue h v#}"
    "{#w \<in># M. countsIndexFor h w < int (k - 1)#} = {#w \<in># M. w < lowestEquivalentValue h v#}"
    using o1 o2 by (simp_all cong: filter_mset_cong)
  then show ?thesis
    using that [OF v(1) e] prefix_count [OF r, of k] prefix_count [OF r, of "k - 1"] k(2) index_value_equivalent(1) [OF h A [OF v(1)]] e
    by simp
qed

text \<open>A percentile that a bucket reaches first is that of its values, up to rounding.\<close>

lemma reached_prefix:
  assumes s: "scale_ok lb h ticks" and r: "reached h k q" and q: "0 \<le> q"
  shows "q \<le> 100 * of_int (sum_list (take k (counts h))) / of_int (totalCount h) + 1 / 2 ^ 47"
    and "100 * of_int (sum_list (take (k - 1) (counts h))) / of_int (totalCount h) < q + 1 / 2 ^ 47"
proof -
  note h = scale_okD(1) [OF s]
  let ?c = "\<lambda>k. sum_list (take k (counts h))"
  note b = prefix_bounds(1,2) [OF h]
  from cur_near [OF s b, of k] obtain y where y: "cur h (?c k) = Fin y" "\<bar>y - 100 * of_int (?c k) / of_int (totalCount h)\<bar> \<le> 1 / 2 ^ 47" by blast
  have "q \<le> y" using r y(1) by (simp add: reached_def reports_def)
  then show "q \<le> 100 * of_int (?c k) / of_int (totalCount h) + 1 / 2 ^ 47" using y(2) by linarith
  have down: "j < k \<Longrightarrow> 100 * of_int (?c j) / of_int (totalCount h) < q + 1 / 2 ^ 47" for j
  proof (induction j)
    case 0
    then show ?case using q by simp
  next
    case (Suc j)
    have l: "j < length (counts h)" using Suc.prems r by (simp add: reached_def)
    show ?case
    proof (cases "counts h ! j = 0")
      case True
      then have "?c (Suc j) = ?c j" using l by (simp add: take_Suc_conv_app_nth)
      then show ?thesis using Suc by simp
    next
      case False
      from cur_near [OF s b, of "Suc j"] obtain z where
        z: "cur h (?c (Suc j)) = Fin z" "\<bar>z - 100 * of_int (?c (Suc j)) / of_int (totalCount h)\<bar> \<le> 1 / 2 ^ 47" by blast
      have "\<not> reports h (Fin q) (Suc j)" using r Suc.prems by (simp add: reached_def)
      then have "z < q" using False z(1) by (simp add: reports_def not_le)
      then show ?thesis using z(2) by linarith
    qed
  qed
  have "1 \<le> k" using r by (simp add: reached_def)
  then show "100 * of_int (?c (k - 1)) / of_int (totalCount h) < q + 1 / 2 ^ 47" using down [of "k - 1"] by simp
qed

lemma brackets_from_start:
  assumes s: "scale_ok lb h ticks"
  obtains ks l where "CumulativeDistributionWithTicks lb h ticks = Some (map (bracket_of h) (ks @ [(l, 100)]))"
    "sum_list (take l (counts h)) = totalCount h"
    "sorted (map fst (ks @ [(l, 100)]))" "sorted (map snd (ks @ [(l, 100)]))"
    "\<forall>(k, q) \<in> set (ks @ [(l, 100)]). 0 \<le> q \<and> reached h k q"
proof -
  have g: "geom_ok h" using scale_okD(1) [OF s] by (simp add: hist_ok_def)
  have "dyadic 0" using dyadic_of_int [of 0] by simp
  with brackets_reached [OF s, of "pIterator ticks" 0 0 "101 * 2 ^ 44"] visited_iterator [OF g] scale_okD(3) [OF s]
  have "\<exists>ks l. brackets lb h (pIterator ticks) = Some (map (bracket_of h) (ks @ [(l, 100)])) \<and> sum_list (take l (counts h)) = totalCount h \<and>
      sorted (map fst (ks @ [(l, 100)])) \<and> sorted (map snd (ks @ [(l, 100)])) \<and>
      (\<forall>(k', q) \<in> set (ks @ [(l, 100)]). 0 \<le> k' \<and> 0 \<le> q \<and> reached h k' q)"
    by (simp add: pIterator_def iterator_def)
  then show ?thesis using that unfolding CumulativeDistributionWithTicks_def by blast
qed

section \<open>A distribution that does not end\<close>

text \<open>With a negative number of ticks the scale falls from zero.\<close>

lemma half_negative:
  assumes "fle x (Fin 0)"
  shows "halfDistance lb x = Fin 0 \<or> halfDistance lb x = Inf False \<or> (\<exists>n. halfDistance lb x = Fin (2 ^ n))"
proof -
  consider "x = Inf True" | y where "x = Fin y" "y \<le> 0" using assms by (cases x) auto
  then show ?thesis
  proof cases
    case 1
    then show ?thesis by (simp add: halfDistance_def fsub_def)
  next
    case 2
    consider "of_rat64 (100 - y) = Inf False" | d where "of_rat64 (100 - y) = Fin d" "100 \<le> d"
      using of_rat64_cases [of "100 - y"] round64_ge [OF dyadic_of_int [of 100], of "100 - y"] 2(2) by auto
    then show ?thesis
    proof cases
      case 1
      then show ?thesis using 2 by (simp add: halfDistance_def fsub_def)
    next
      case d: 2
      then have "of_rat64 (100 / d) = Fin (round64 (100 / d))" "0 \<le> round64 (100 / d)"
        by (auto intro!: of_rat64_fin round64_nonneg simp: divide_le_eq)
      then show ?thesis using 2 d by (auto simp: halfDistance_def fsub_def trunc_pow2_def)
    qed
  qed
qed

lemma tick_step_negative:
  assumes t: "MinInt64 \<le> ticks" "ticks < 0" and x: "fle x (Fin 0)"
  shows "fle (tick_step lb ticks x) (Fin 0)"
proof -
  have "\<bar>ticks\<bar> \<le> 2 ^ 64" using t by simp
  then have "\<bar>of_int ticks :: rat\<bar> \<le> of_int (2 ^ 64)" by (simp only: of_int_le_iff flip: of_int_abs)
  then have "of_int64 ticks = Fin (round64 (of_int ticks))" by (simp add: of_int64_def of_rat64_fin)
  moreover have "round64 (of_int ticks) \<le> - 1" using t(2) dyadic_of_int [of "- 1"] by (intro round64_le) simp_all
  ultimately obtain k where k: "of_int64 ticks = Fin k" "k \<le> - 1" by blast
  consider "halfDistance lb x = Fin 0" | "halfDistance lb x = Inf False" | n where "halfDistance lb x = Fin (2 ^ n)"
    using half_negative [OF x] by blast
  then show ?thesis
  proof cases
    case 3
    have "1 * 1 \<le> - k * 2 ^ n" using k(2) by (intro mult_mono) simp_all
    then have m: "round64 (k * 2 ^ n) \<le> - 1" using dyadic_of_int [of "- 1"] by (intro round64_le) simp_all
    consider "of_rat64 (k * 2 ^ n) = Inf True" | "of_rat64 (k * 2 ^ n) = Fin (round64 (k * 2 ^ n))"
      using m max_float_pos by (cases "round64 (k * 2 ^ n) \<le> - max_float") (simp_all add: of_rat64_def Let_def)
    then show ?thesis
    proof cases
      case r: 2
      let ?q = "100 / round64 (k * 2 ^ n)"
      have "- 100 \<le> ?q" "?q \<le> 0" using m by (simp_all add: le_divide_eq divide_le_0_iff)
      then have "of_rat64 ?q = Fin (round64 ?q)" "round64 ?q \<le> 0"
        using round64_le [OF dyadic_of_int [of 0], of ?q] by (simp_all add: of_rat64_fin)
      then show ?thesis using 3 r m by (simp add: tick_step_def k(1))
    qed (use 3 k in \<open>simp add: tick_step_def\<close>)
  qed (use k t(2) in \<open>simp_all add: tick_step_def of_rat64_fin round64_0\<close>)
qed

lemma fadd_nonpos: "fle x (Fin 0) \<Longrightarrow> fle y (Fin 0) \<Longrightarrow> fle (fadd x y) (Fin 0)"
proof -
  have "fle (of_rat64 z) (Fin 0)" if "z \<le> 0" for z
    using round64_le [OF dyadic_of_int [of 0], of z] that max_float_pos by (auto simp: of_rat64_def Let_def)
  then show "fle x (Fin 0) \<Longrightarrow> fle y (Fin 0) \<Longrightarrow> fle (fadd x y) (Fin 0)" by (cases x; cases y) auto
qed

lemma cur_nonneg:
  assumes "0 \<le> c" "c \<le> totalCount h" "1 \<le> totalCount h" "totalCount h \<le> MaxInt64"
  shows "fle (Fin 0) (cur h c)"
proof -
  obtain r t where r: "of_int64 c = Fin r" "0 \<le> r" and t: "of_int64 (totalCount h) = Fin t" "1 \<le> t"
    using of_int64_fin [of c] of_int64_fin [of "totalCount h"] round64_nonneg [of "of_int c"]
      round64_ge [OF dyadic_of_int [of 1], of "of_int (totalCount h)"] assms by auto
  have pos: "fle (Fin 0) (of_rat64 y)" if "0 \<le> y" for y
    using of_rat64_cases [OF that] round64_nonneg [OF that] by auto
  show ?thesis
    using of_rat64_cases [of "100 * r"] round64_nonneg [of "100 * r"] r t pos by (auto simp: cur_def)
qed

text \<open>A populated bucket before the last one is never left when the scale stays at most its percentile: when
  that rounds to 100, or the number of ticks is negative.\<close>

definition scale_stays :: "(rat \<Rightarrow> int) \<Rightarrow> int \<Rightarrow> f64 \<Rightarrow> f64 \<Rightarrow> bool" where
  "scale_stays lb ticks share x \<longleftrightarrow>
     (1 \<le> ticks \<and> ticks \<le> MaxInt64 \<and> trunc_log2_ok lb \<and> fle (Fin 100) share \<and>
      (\<exists>r. x = Fin r \<and> 0 \<le> r \<and> r \<le> 100 \<and> dyadic r)) \<or>
     (MinInt64 \<le> ticks \<and> ticks < 0 \<and> fle (Fin 0) share \<and> fle x (Fin 0))"

lemma scale_stays_below: "scale_stays lb ticks share x \<Longrightarrow> fle x share"
  unfolding scale_stays_def using fle_trans [of x "Fin 100" share] fle_trans [of x "Fin 0" share] by auto

lemma scale_stays_step: "scale_stays lb ticks share x \<Longrightarrow> scale_stays lb ticks share (fadd x (tick_step lb ticks x))"
proof -
  assume s: "scale_stays lb ticks share x"
  show ?thesis
  proof (cases "ticks < 0")
    case True
    then show ?thesis using s fadd_nonpos tick_step_negative by (auto simp: scale_stays_def)
  next
    case False
    then obtain r where r: "x = Fin r" "0 \<le> r" "r \<le> 100" "dyadic r" and t: "1 \<le> ticks" "ticks \<le> MaxInt64"
      and o: "trunc_log2_ok lb" "fle (Fin 100) share" using s by (auto simp: scale_stays_def)
    from scale_below_100 [OF o(1) t r(2-4)] obtain y where
      "fadd (Fin r) (tick_step lb ticks (Fin r)) = Fin y" "r \<le> y" "y \<le> 100" "dyadic y" .
    then show ?thesis using r(1,2) t o by (auto simp: scale_stays_def)
  qed
qed

definition stuck :: "(rat \<Rightarrow> int) \<Rightarrow> histogram \<Rightarrow> nat \<Rightarrow> p_iterator \<Rightarrow> bool" where
  "stuck lb h K p \<longleftrightarrow>
     hist_ok h \<and> 1 \<le> K \<and> counts h ! (K - 1) \<noteq> 0 \<and> sum_list (take K (counts h)) < totalCount h \<and>
     scale_stays lb (ticksPerHalfDistance p) (cur h (sum_list (take K (counts h)))) (percentileToIteratorTo p) \<and>
     (\<exists>k \<le> K. visited h (p_it p) k)"

lemma stuck_next:
  assumes "stuck lb h K p"
  obtains p' where "pIterator_next lb h p = Some (True, p')" "stuck lb h K p'"
proof -
  let ?x = "percentileToIteratorTo p"
  from assms obtain k where h: "hist_ok h"
    and K: "1 \<le> K" "counts h ! (K - 1) \<noteq> 0" "sum_list (take K (counts h)) < totalCount h"
    and s: "scale_stays lb (ticksPerHalfDistance p) (cur h (sum_list (take K (counts h)))) ?x"
    and v: "visited h (p_it p) k" and k: "k \<le> K" unfolding stuck_def by blast
  have below: "sum_list (take j (counts h)) < totalCount h" if "j \<le> K" for j
    using prefix_bounds(4) [OF h that] K(3) by (rule le_less_trans)
  have lt: "countToIdx (p_it p) < totalCount h" using below [OF k] v by (simp add: visited_def)
  have rK: "reports h ?x K" using K(2) scale_stays_below [OF s] by (simp add: reports_def)
  from pIterator_next_spec [OF h v lt, of lb] obtain k' i where N: "1 \<le> k'" "k \<le> k'" "visited h i k'"
    "\<forall>j. max 1 k \<le> j \<and> j < k' \<longrightarrow> \<not> reports h ?x j"
    "if reports h ?x k' then pIterator_next lb h p = Some (True, report lb (p\<lparr>p_it := i\<rparr>))
     else countToIdx i = totalCount h \<and> pIterator_next lb h p = Some (True, p\<lparr>p_it := i\<rparr>)" by blast
  have k': "k' \<le> K" using N(4) rK K(1) k by (metis max.boundedI not_le)
  have "countToIdx i < totalCount h" using below [OF k'] N(3) by (simp add: visited_def)
  then have n: "pIterator_next lb h p = Some (True, report lb (p\<lparr>p_it := i\<rparr>))" using N(5) by (auto split: if_splits)
  have "stuck lb h K (report lb (p\<lparr>p_it := i\<rparr>))"
    unfolding stuck_def using h K N(3) k' scale_stays_step [OF s] by (auto simp: report_def)
  then show ?thesis using that n by blast
qed

lemma stuck_brackets: "stuck lb h K p \<Longrightarrow> brackets lb h p = None"
proof (rule ccontr)
  assume s: "stuck lb h K p" and "brackets lb h p \<noteq> None"
  then obtain bs where "brackets lb h p = Some bs" by auto
  then have "\<not> stuck lb h K p"
  proof (rule brackets.raw_induct [of "\<lambda>lb h p _. \<not> stuck lb h K p", rotated])
    fix self lb h p bs
    assume IH: "\<And>lb h p bs. self lb h p = Some bs \<Longrightarrow> \<not> stuck lb h K p"
      and run: "Option.bind (pIterator_next lb h p) (\<lambda>(more, p').
         if more then Option.bind (self lb h p') (\<lambda>rest. Some (bracket_at p' # rest)) else Some []) = Some bs"
    show "\<not> stuck lb h K p"
    proof
      assume "stuck lb h K p"
      from stuck_next [OF this] obtain p' where n: "pIterator_next lb h p = Some (True, p')" "stuck lb h K p'" .
      from run n(1) obtain rest where "self lb h p' = Some rest" by (auto simp: bind_eq_Some_conv)
      from IH [OF this] n(2) show False by contradiction
    qed
  qed
  then show False using s by contradiction
qed

section \<open>Properties\<close>

lemma brackets_empty:
  assumes "represents h {#}"
  shows "CumulativeDistributionWithTicks lb h ticks = Some [\<lparr>Quantile = Fin 100, b_Count = 0, ValueAt = 0\<rparr>]"
proof -
  let ?p = "pIterator ticks" let ?q = "?p\<lparr>seenLastValue := True, percentile := Fin 100\<rparr>"
  have "totalCount h = 0" using represents_total [OF assms] by simp
  then have "pIterator_next lb h ?p = Some (True, ?q)" "pIterator_next lb h ?q = Some (False, ?q)"
    by (simp_all add: pIterator_next_def pIterator_def iterator_def)
  moreover from this have "brackets lb h ?q = Some []" by (subst brackets.simps) simp
  moreover have "bracket_at ?q = \<lparr>Quantile = Fin 100, b_Count = 0, ValueAt = 0\<rparr>"
    by (simp add: bracket_at_def pIterator_def iterator_def)
  ultimately show ?thesis unfolding CumulativeDistributionWithTicks_def by (subst brackets.simps) simp
qed

lemma last_bracket:
  assumes r: "represents h M" and l: "1 \<le> l" "l \<le> length (counts h)" "counts h ! (l - 1) \<noteq> 0"
    and t: "sum_list (take l (counts h)) = totalCount h"
  shows "bracket_of h (l, q) = \<lparr>Quantile = Fin q, b_Count = int (size M), ValueAt = highestEquivalentValue h (Max_mset M)\<rparr>"
proof -
  have h: "hist_ok h" and g: "geom_ok h" and A: "\<And>v. v \<in># M \<Longrightarrow> in_array h v"
    using r by (auto simp: represents_def hist_ok_def)
  from bracket_values [OF r l, of q] obtain v where v: "v \<in># M" "ValueAt (bracket_of h (l, q)) = highestEquivalentValue h v"
    "sum_list (take l (counts h)) = int (size {#w \<in># M. w \<le> highestEquivalentValue h v#})" .
  have "size {#w \<in># M. w \<le> highestEquivalentValue h v#} = size M" using v(3) t represents_total [OF r] by simp
  then have "{#w \<in># M. w \<le> highestEquivalentValue h v#} = M" by (metis multiset_filter_subset subset_mset.le_imp_less_or_eq mset_subset_size less_irrefl)
  moreover have "set_mset M \<noteq> {}" using v(1) by auto
  then have mx: "Max_mset M \<in># M" "v \<le> Max_mset M" using v(1) by simp_all
  ultimately have le: "Max_mset M \<le> highestEquivalentValue h v" by (metis (mono_tags, lifting) mem_Collect_eq set_mset_filter)
  note B = A [OF v(1)] A [OF mx(1)]
  have "countsIndexFor h (Max_mset M) \<le> countsIndexFor h v" using index_order(1) [OF g] B le by (simp add: in_array_def)
  moreover have "countsIndexFor h v \<le> countsIndexFor h (Max_mset M)" using countsIndexFor_mono [OF g] B mx(2) by (simp add: in_array_def)
  ultimately have "highestEquivalentValue h v = highestEquivalentValue h (Max_mset M)"
    using index_value_equivalent(1) [OF h B(1)] index_value_equivalent(1) [OF h B(2)] by simp
  then show ?thesis using v(2) t represents_total [OF r] by simp
qed

lemma brackets_sorted:
  assumes "hist_ok h" "sorted (map fst ks)" "sorted (map snd ks)"
  shows "sorted (map (b_Count \<circ> bracket_of h) ks)" and "sorted (map (Quantile \<circ> bracket_of h) ks)"
proof -
  have b: "b_Count (bracket_of h x) = sum_list (take (fst x) (counts h))" "Quantile (bracket_of h x) = Fin (snd x)" for x
    by (cases x; simp)+
  show "sorted (map (b_Count \<circ> bracket_of h) ks)" "sorted (map (Quantile \<circ> bracket_of h) ks)"
    using assms(2,3) prefix_bounds(4) [OF assms(1)] unfolding sorted_map
    by (auto simp: b less_eq_f64_def elim!: sorted_wrt_mono_rel [rotated])
qed

text \<open>C34: The cumulative distribution of a histogram whose total times the number of ticks is at most
  \<open>2 ^ 44\<close> ends. Its brackets are in order and the last one is that of 100 percent: all the
  recorded values, up to the largest. Each bracket is for the bucket of a recorded value, counts the
  recorded values up to the upper end of that bucket, and has a percentile between the share of
  the values below the bucket and the share of its count, up to rounding. An empty histogram has the
  bracket of 100 percent only.\<close>

theorem CumulativeDistribution_correct:
  assumes "represents h M" "trunc_log2_ok lb" "1 \<le> ticks" "int (size M) * ticks \<le> 2 ^ 44"
  shows "if M = {#} then CumulativeDistributionWithTicks lb h ticks = Some [\<lparr>Quantile = Fin 100, b_Count = 0, ValueAt = 0\<rparr>]
    else \<exists>bs. CumulativeDistributionWithTicks lb h ticks = Some bs \<and> bs \<noteq> [] \<and>
      last bs = \<lparr>Quantile = Fin 100, b_Count = int (size M), ValueAt = highestEquivalentValue h (Max_mset M)\<rparr> \<and>
      sorted (map b_Count bs) \<and> sorted (map Quantile bs) \<and>
      (\<forall>b \<in> set bs. \<exists>v q. v \<in># M \<and> ValueAt b = highestEquivalentValue h v \<and>
         b_Count b = int (size {#w \<in># M. w \<le> ValueAt b#}) \<and> Quantile b = Fin q \<and> 0 \<le> q \<and>
         q \<le> 100 * of_int (b_Count b) / of_nat (size M) + 1 / 2 ^ 47 \<and>
         100 * of_nat (size {#w \<in># M. w < lowestEquivalentValue h v#}) / of_nat (size M) < q + 1 / 2 ^ 47)"
proof (cases "M = {#}")
  case True
  then show ?thesis using brackets_empty assms(1) by simp
next
  case False
  let ?T = "int (size M)"
  have tot: "totalCount h = ?T" by (rule represents_total [OF assms(1)])
  have "1 \<le> ?T" using False by (cases M) auto
  then have s: "scale_ok lb h ticks" using assms represents_ok [OF assms(1)] tot by (simp add: scale_ok_def)
  from brackets_from_start [OF s] obtain ks l where
    K: "CumulativeDistributionWithTicks lb h ticks = Some (map (bracket_of h) (ks @ [(l, 100)]))"
      "sum_list (take l (counts h)) = totalCount h"
      "sorted (map fst (ks @ [(l, 100)]))" "sorted (map snd (ks @ [(l, 100)]))"
      "\<forall>(k, q) \<in> set (ks @ [(l, 100)]). 0 \<le> q \<and> reached h k q" .
  define bs where "bs = map (bracket_of h) (ks @ [(l, 100)])"
  have "reached h l 100" using K(5) by simp
  then have "last bs = \<lparr>Quantile = Fin 100, b_Count = ?T, ValueAt = highestEquivalentValue h (Max_mset M)\<rparr>"
    using last_bracket [OF assms(1) _ _ _ K(2)] by (simp add: bs_def reached_def reports_def)
  moreover have "sorted (map b_Count bs)" "sorted (map Quantile bs)"
    unfolding bs_def map_map by (rule brackets_sorted [OF represents_ok [OF assms(1)] K(3,4)])+
  moreover have "\<exists>v q. v \<in># M \<and> ValueAt b = highestEquivalentValue h v \<and>
         b_Count b = int (size {#w \<in># M. w \<le> ValueAt b#}) \<and> Quantile b = Fin q \<and> 0 \<le> q \<and>
         q \<le> 100 * of_int (b_Count b) / of_nat (size M) + 1 / 2 ^ 47 \<and>
         100 * of_nat (size {#w \<in># M. w < lowestEquivalentValue h v#}) / of_nat (size M) < q + 1 / 2 ^ 47"
    if "b \<in> set bs" for b
  proof -
    from that K(5) obtain k q where b: "b = bracket_of h (k, q)" "0 \<le> q" "reached h k q" unfolding bs_def by auto
    have k: "1 \<le> k" "k \<le> length (counts h)" "counts h ! (k - 1) \<noteq> 0" using b(3) by (simp_all add: reached_def reports_def)
    from bracket_values [OF assms(1) k, of q] obtain v where v: "v \<in># M" "ValueAt b = highestEquivalentValue h v"
      "sum_list (take k (counts h)) = int (size {#w \<in># M. w \<le> highestEquivalentValue h v#})"
      "sum_list (take (k - 1) (counts h)) = int (size {#w \<in># M. w < lowestEquivalentValue h v#})" unfolding b(1) .
    have c: "b_Count b = sum_list (take k (counts h))" "Quantile b = Fin q" by (simp_all add: b(1))
    show ?thesis
      using reached_prefix [OF s b(3,2)] v b(2) unfolding c v(2) tot v(3,4) by (intro exI [of _ v] exI [of _ q]) simp
  qed
  ultimately show ?thesis using False K(1) by (intro if_not_P [THEN iffD2] exI [of _ bs]) (simp_all add: bs_def)
qed

theorem CumulativeDistribution_correct_witness:
  "\<exists>bs. CumulativeDistributionWithTicks ilog2 sample_recorded 3 = Some bs \<and> sorted (map Quantile bs) \<and>
     last bs = \<lparr>Quantile = Fin 100, b_Count = 5, ValueAt = 79\<rparr>"
proof -
  have "int (size {#77, 77, 5, 5, 5 :: int#}) * 3 \<le> 2 ^ 44" by simp
  note c = CumulativeDistribution_correct [OF sample_recorded_represents trunc_log2_ok_ilog2 _ this]
  have "highestEquivalentValue sample_recorded 77 = 79" by code_simp
  then show ?thesis using c by (auto simp: max_def)
qed

text \<open>C35: The cumulative distribution does not end when the values up to some recorded value, which is
  not the largest, are so many of the total that their percentile rounds to 100, or when the number of
  ticks is negative: the iterator reports that value, or a smaller one, for ever, because its scale
  cannot pass 100, or falls from zero.\<close>

theorem CumulativeDistribution_diverges:
  assumes "represents h M" "v \<in># M" "size {#w \<in># M. w \<le> highestEquivalentValue h v#} < size M"
    "1 \<le> ticks \<and> ticks \<le> MaxInt64 \<and> trunc_log2_ok lb \<and>
       fle (Fin 100) (fdivide (fmul (Fin 100) (of_int64 (int (size {#w \<in># M. w \<le> highestEquivalentValue h v#}))))
                              (of_int64 (int (size M)))) \<or>
     MinInt64 \<le> ticks \<and> ticks < 0"
  shows "CumulativeDistributionWithTicks lb h ticks = None"
proof -
  have h: "hist_ok h" and g: "geom_ok h" and v: "in_array h v" and tot: "totalCount h = int (size M)"
    using assms(1,2) represents_total [OF assms(1)] by (auto simp: represents_def hist_ok_def)
  note vi = in_array_index [OF h v]
  let ?K = "Suc (nat (countsIndexFor h v))"
  have "counts h ! (?K - 1) = int (size {#w \<in># M. countsIndexFor h w = countsIndexFor h v#})"
    using assms(1) vi by (simp add: represents_def)
  moreover have "{#w \<in># M. countsIndexFor h w = countsIndexFor h v#} \<noteq> {#}" using assms(2) by auto
  ultimately have nz: "counts h ! (?K - 1) \<noteq> 0" by simp
  have "{#w \<in># M. countsIndexFor h w < int ?K#} = {#w \<in># M. w \<le> highestEquivalentValue h v#}"
  proof (rule filter_mset_cong [OF refl])
    fix w assume "w \<in># M"
    then have w: "in_array h w" using assms(1) by (simp add: represents_def)
    have "countsIndexFor h w < int ?K \<longleftrightarrow> countsIndexFor h w \<le> countsIndexFor h v" using vi(1) by auto
    then show "countsIndexFor h w < int ?K \<longleftrightarrow> w \<le> highestEquivalentValue h v"
      using index_order(1) [OF g, of v w] v w by (simp add: in_array_def)
  qed
  then have c: "sum_list (take ?K (counts h)) = int (size {#w \<in># M. w \<le> highestEquivalentValue h v#})"
    using prefix_count [OF assms(1), of ?K] vi(3) by simp
  have "fle (Fin 0) (cur h (sum_list (take ?K (counts h))))"
    using prefix_bounds(1,2) [OF h, of ?K] prefix_bounds(3) [OF h] c assms(3) tot by (intro cur_nonneg) simp_all
  then have "scale_stays lb ticks (cur h (sum_list (take ?K (counts h)))) (Fin 0)"
    using assms(4) dyadic_of_int [of 0] unfolding scale_stays_def cur_def c tot by auto
  then have "stuck lb h ?K (pIterator ticks)"
    unfolding stuck_def using h assms(3) nz tot c visited_iterator [OF g] by (auto simp: pIterator_def)
  then show ?thesis unfolding CumulativeDistributionWithTicks_def by (rule stuck_brackets)
qed

text \<open>One recording of \<open>2 ^ 54\<close> fives and one of 77.\<close>

definition sample_heavy :: histogram where
  "sample_heavy = sample_geometry\<lparr>counts := (replicate 64 0)[5 := 18014398509481984, 51 := 1], totalCount := 18014398509481985\<rparr>"

lemma sample_heavy_represents:
  assumes n: "n = nat 18014398509481984"
  shows "represents sample_heavy (replicate_mset n 5 + {#77#})"
proof -
  define h1 where "h1 = sample_geometry\<lparr>counts := (replicate 64 0)[5 := 18014398509481984], totalCount := 18014398509481984\<rparr>"
  have "RecordValues sample_hist 5 18014398509481984 = (None, h1)" unfolding h1_def by code_simp
  from represents_record(1) [OF sample_hist_represents _ this, folded n]
  have r: "represents h1 (replicate_mset n 5)" by simp
  have "RecordValues h1 77 1 = (None, sample_heavy)" unfolding h1_def by code_simp
  from represents_record(1) [OF r _ this] show ?thesis by simp
qed

theorem CumulativeDistribution_diverges_witness:
  "CumulativeDistributionWithTicks ilog2 sample_heavy 1 = None \<and> CumulativeDistributionWithTicks ilog2 sample_recorded (- 1) = None"
proof
  show "CumulativeDistributionWithTicks ilog2 sample_recorded (- 1) = None"
  proof (rule CumulativeDistribution_diverges [OF sample_recorded_represents])
    have "highestEquivalentValue sample_recorded 5 = 5" by code_simp
    then show "size {#w \<in># {#77, 77, 5, 5, 5#}. w \<le> highestEquivalentValue sample_recorded 5#} < size {#77, 77, 5, 5, 5 :: int#}" by simp
  qed simp_all
  obtain n where n: "n = nat 18014398509481984" by blast
  then have i: "int n = 18014398509481984" by simp
  let ?M = "replicate_mset n 5 + {#77 :: int#}"
  have hi: "highestEquivalentValue sample_heavy 5 = 5" by code_simp
  have c: "size {#w \<in># ?M. w \<le> highestEquivalentValue sample_heavy 5#} = n" "size ?M = Suc n"
    unfolding hi by (simp_all add: filter_replicate)
  have "\<lfloor>18014398509481985 / 4 :: rat\<rfloor> = 4503599627370496" by (rule floor_unique) simp_all
  moreover have "ilog2 18014398509481985 = 54" by (rule ilog2_unique) simp_all
  ultimately have "round64 18014398509481985 = 18014398509481984"
    by (simp add: round64_def round_pos_def quantum_def round_even_def Let_def)
  moreover have "dyadic 18014398509481984" "dyadic 1801439850948198400" "dyadic 100"
    by (rule dyadicI [of _ 1 54], simp_all, rule dyadicI [of _ 100 54], simp_all, rule dyadicI [of _ 100 0], simp_all)
  ultimately have "fle (Fin 100) (fdivide (fmul (Fin 100) (of_int64 18014398509481984)) (of_int64 18014398509481985))"
    by (simp add: of_int64_def of_rat64_fin round64_exact)
  then have f: "fle (Fin 100) (fdivide (fmul (Fin 100) (of_int64 (int n))) (of_int64 (int (Suc n))))" using i by simp
  have "n \<noteq> 0" using i by auto
  then have "5 \<in># ?M" by simp
  from CumulativeDistribution_diverges [OF sample_heavy_represents [OF n] this, of 1 ilog2] f trunc_log2_ok_ilog2
  show "CumulativeDistributionWithTicks ilog2 sample_heavy 1 = None" unfolding c by simp
qed

end
