(* ===== verification/Printing_Spec.thy ===== *)
theory Printing_Spec
  imports Printing Cumulative_Spec
begin

text \<open>
  What \<open>PercentilesPrint\<close> writes: a list of texts that does not depend on the sink, one write each, up to
  the first write that fails (\<open>write_all\<close>).
\<close>

section \<open>Writing in order\<close>

text \<open>Texts written one after the other until the sink reports an error, which is the result.\<close>

fun write_all :: "('w, 'e) sink \<Rightarrow> 'w \<Rightarrow> string list \<Rightarrow> 'w \<times> 'e option" where
  "write_all put w [] = (w, None)"
| "write_all put w (s # ss) = (case put w s of (w', Some e) \<Rightarrow> (w', Some e) | (w', None) \<Rightarrow> write_all put w' ss)"

lemma write_all_append:
  "write_all put w (ss @ ts) = (case write_all put w ss of (w', Some e) \<Rightarrow> (w', Some e) | (w', None) \<Rightarrow> write_all put w' ts)"
  by (induction ss arbitrary: w) (auto split: prod.split option.split)

lemma write_all_single: "write_all put w [s] = put w s"
  by (auto split: prod.split option.split)

lemma print_rows_eq: "print_rows put vs w bs = write_all put w (map (table_row vs) bs)"
  by (induction bs arbitrary: w) (auto split: prod.split option.split)

lemma PercentilesPrint_eq:
  assumes "CumulativeDistributionWithTicks lb h ticks = Some bs" "table_foot h vs = Inr foot"
  shows "PercentilesPrint lb put h w ticks vs = Inr (write_all put w (table_head # map (table_row vs) bs @ [foot]))"
proof -
  have "write_all put v (ts @ [foot]) =
      (case write_all put v ts of (v', Some e) \<Rightarrow> (v', Some e) | (v', None) \<Rightarrow> put v' foot)" for v ts
    by (simp only: write_all_append write_all_single)
  then show ?thesis by (simp add: PercentilesPrint_def assms print_rows_eq split: prod.split option.split)
qed

section \<open>One row, one line\<close>

lemma decimal_no_newline [simp]: "newline \<notin> set (show_decimal n m)" "newline \<notin> set (show_int k)" "newline \<notin> set (show_prec n x)"
proof -
  have nat: "newline \<notin> set (show_nat j)" and pad: "newline \<notin> set (pad_digits i j)" for i j
    using digits_no_newline digits_show_nat digits_pad by blast+
  have dot: "newline \<noteq> CHR ''.''" "newline \<noteq> CHR ''-''" "newline \<notin> set ''NaN''" "newline \<notin> set ''-Inf''" "newline \<notin> set ''+Inf''"
    by (simp_all add: newline_def char_of_def)
  show d: "newline \<notin> set (show_decimal n m)" for n m using nat pad dot by (simp add: show_decimal_def)
  show "newline \<notin> set (show_int k)" using nat dot by (simp add: show_int_def)
  show "newline \<notin> set (show_prec n x)" using d dot by (cases "(n, x)" rule: show_prec.cases) simp_all
qed

lemma pad12_no_newline [simp]: "newline \<notin> set (pad12 s) \<longleftrightarrow> newline \<notin> set s"
  by (auto simp: pad12_def newline_def char_of_def)

lemma table_row_line:
  obtains s where "table_row vs b = s @ [newline]" "newline \<notin> set s"
proof -
  have "newline \<notin> set '' ''" "newline \<notin> set ''inf''" by (simp_all add: newline_def char_of_def)
  then show ?thesis using that by (simp add: table_row_def Let_def)
qed

lemma table_foot_total: "hist_ok h \<Longrightarrow> \<exists>foot. table_foot h vs = Inr foot"
proof -
  assume h: "hist_ok h"
  obtain m where m: "Mean h = Inr m" using Mean_eq [OF h] by blast
  have "\<exists>d. StdDev h = Inr d" using StdDev_eq [OF h _ m] by (cases "totalCount h = 0") (simp_all add: StdDev_def)
  then show ?thesis using m Max_h_eq [OF h] by (auto simp: table_foot_def)
qed

lemma show_one: "pad12 (show_prec 6 (Fin 1)) = ''    1.000000''"
proof -
  have d: "digit_char 0 = CHR ''0''" "digit_char (Suc 0) = CHR ''1''" by code_simp+
  have z: "pad_digits k 0 = replicate k CHR ''0''" for k
    by (induction k) (simp_all add: d replicate_append_same)
  have "round_even (1 * 10 ^ 6) = 1000000" using round_even_int [of 1000000] by simp
  then have "show_prec 6 (Fin 1) = show_decimal 6 1000000" by simp
  also have "\<dots> = show_nat 1 @ ''.'' @ pad_digits 6 0" by (simp add: show_decimal_def)
  also have "\<dots> = ''1.000000''" unfolding z by (subst show_nat.simps) (simp add: d numeral_eq_Suc)
  finally show ?thesis by (simp add: pad12_def numeral_eq_Suc del: show_prec.simps)
qed

lemma show_inf: "pad12 ''inf'' = ''         inf''"
  by (simp add: pad12_def numeral_eq_Suc)

section \<open>Properties\<close>

text \<open>C36: Printing a histogram whose total times the number of ticks is at most \<open>2 ^ 44\<close> returns. It
  writes the heading, one line for each bracket of the distribution in their order and the footer,
  each with one write, whatever the sink is; the first write that fails is the last one and gives the
  error of the call. The row of 100 percent shows the largest value, all the recordings and \<open>inf\<close>.\<close>

theorem PercentilesPrint_writes:
  assumes "represents h M" "M \<noteq> {#}" "trunc_log2_ok lb" "1 \<le> ticks" "int (size M) * ticks \<le> 2 ^ 44"
  shows "\<exists>bs foot. CumulativeDistributionWithTicks lb h ticks = Some bs \<and> table_foot h vs = Inr foot \<and>
    PercentilesPrint lb put h w ticks vs = Inr (write_all put w (table_head # map (table_row vs) bs @ [foot])) \<and>
    (\<forall>b \<in> set bs. \<exists>s. table_row vs b = s @ [newline] \<and> newline \<notin> set s) \<and>
    last (map (table_row vs) bs) =
      pad12 (show_prec 3 (fdivide (of_int64 (highestEquivalentValue h (Max_mset M))) vs)) @ ''     1.000000 '' @
      pad12 (show_int (int (size M))) @ ''          inf'' @ [newline]"
proof -
  have h: "hist_ok h" by (rule represents_ok [OF assms(1)])
  have tot: "totalCount h = int (size M)" by (rule represents_total [OF assms(1)])
  have "1 \<le> int (size M)" using assms(2) by (cases M) auto
  then have s: "scale_ok lb h ticks" using assms h tot by (simp add: scale_ok_def)
  from brackets_from_start [OF s] obtain ks l where
    K: "CumulativeDistributionWithTicks lb h ticks = Some (map (bracket_of h) (ks @ [(l, 100)]))"
      "sum_list (take l (counts h)) = totalCount h"
      "\<forall>(k, q) \<in> set (ks @ [(l, 100)]). 0 \<le> q \<and> reached h k q" by blast
  from table_foot_total [OF h] obtain foot where f: "table_foot h vs = Inr foot" by blast
  define bs where "bs = map (bracket_of h) (ks @ [(l, 100)])"
  have "reached h l 100" using K(3) by simp
  then have b: "last bs = \<lparr>Quantile = Fin 100, b_Count = int (size M), ValueAt = highestEquivalentValue h (Max_mset M)\<rparr>" "bs \<noteq> []"
    using last_bracket [OF assms(1) _ _ _ K(2)] by (simp_all add: bs_def reached_def reports_def)
  have p: "PercentilesPrint lb put h w ticks vs = Inr (write_all put w (table_head # map (table_row vs) bs @ [foot]))"
    using PercentilesPrint_eq [OF K(1) f] by (simp add: bs_def)
  have "fdivide (Fin 100) (Fin 100) = Fin 1" "fsub (Fin 1) (Fin 1) = Fin 0"
    using round64_exact [OF dyadic_of_int [of 1]] by (simp_all add: fsub_def of_rat64_fin round64_0)
  then have "last (map (table_row vs) bs) =
      pad12 (show_prec 3 (fdivide (of_int64 (highestEquivalentValue h (Max_mset M))) vs)) @ ''     1.000000 '' @
      pad12 (show_int (int (size M))) @ ''          inf'' @ [newline]"
    using b show_one show_inf by (simp add: last_map table_row_def Let_def del: show_prec.simps)
  moreover have "\<forall>b \<in> set bs. \<exists>s. table_row vs b = s @ [newline] \<and> newline \<notin> set s" using table_row_line by metis
  ultimately show ?thesis using K(1) f p unfolding bs_def by blast
qed

theorem PercentilesPrint_writes_witness:
  "\<exists>bs foot. CumulativeDistributionWithTicks ilog2 sample_recorded 5 = Some bs \<and> table_foot sample_recorded (Fin 1) = Inr foot \<and>
     PercentilesPrint ilog2 (\<lambda>w s. (w @ s, None :: unit option)) sample_recorded [] 5 (Fin 1) =
       Inr (write_all (\<lambda>w s. (w @ s, None)) [] (table_head # map (table_row (Fin 1)) bs @ [foot]))"
proof -
  have "int (size {#77, 77, 5, 5, 5 :: int#}) * 5 \<le> 2 ^ 44" by simp
  from PercentilesPrint_writes [OF sample_recorded_represents _ trunc_log2_ok_ilog2 _ this, of "Fin 1" "\<lambda>w s. (w @ s, None :: unit option)" "[]"]
  show ?thesis by auto
qed

end
