(* ===== verification/Log.thy ===== *)
theory Log
  imports Packed_Encoding Go_Text
begin

text \<open>
  The interval log: \<open>log_writer.go\<close>, \<open>log_reader.go\<close> and the methods of the sparse histogram for it
  (\<open>packed_log.go\<close>). A log is the string of its bytes. The writer appends to it (its \<open>io.Writer\<close> is
  one that accepts everything); the reader consumes it line by line from the front, and ends with the end of the
  input or with an error of the underlying reader (\<open>rd_end\<close>).
\<close>

definition bytes_of :: "string \<Rightarrow> byte list" where
  "bytes_of s = map (\<lambda>c. word_of_nat (of_char c)) s"

definition chars_of :: "byte list \<Rightarrow> string" where
  "chars_of bs = map (\<lambda>b. char_of (unat b)) bs"

section \<open>Writing\<close>

definition MsToNsRatio :: f64 where
  "MsToNsRatio = Fin 1000000"

record log_options =
  startTimeStampSec :: f64
  endTimeStampSec :: f64
  maxValueUnitRatio :: f64

definition DefaultHistogramLogOptions :: log_options where
  "DefaultHistogramLogOptions = \<lparr>startTimeStampSec = Fin 0, endTimeStampSec = Fin 0, maxValueUnitRatio = MsToNsRatio\<rparr>"

record log_writer =
  baseTime :: int
  wr_log :: string

definition NewHistogramLogWriter :: "string \<Rightarrow> log_writer" where
  "NewHistogramLogWriter l = \<lparr>baseTime = 0, wr_log = l\<rparr>"

definition BaseTime :: "log_writer \<Rightarrow> int" where
  "BaseTime lw = baseTime lw"

definition SetBaseTime :: "log_writer \<Rightarrow> int \<Rightarrow> log_writer" where
  "SetBaseTime lw t = lw\<lparr>baseTime := t\<rparr>"

definition put :: "log_writer \<Rightarrow> string \<Rightarrow> log_writer" where
  "put lw s = lw\<lparr>wr_log := wr_log lw @ s\<rparr>"

text \<open>The interface of the two histograms to the log: the results of its methods.\<close>

record interval_histogram =
  ih_Tag :: string
  ih_StartTimeMs :: int
  ih_EndTimeMs :: int
  ih_Max :: "error + int"
  ih_EncodeV2 :: "error + byte list"

text \<open>The regular expression \<open>.[, \r\n].\<close> finds a match: a separator between two characters other than a newline.\<close>

definition is_separator :: "char \<Rightarrow> bool" where
  "is_separator c \<longleftrightarrow> c = CHR '','' \<or> c = CHR '' '' \<or> c = char_of (13 :: nat) \<or> c = newline"

fun tag_rejected :: "string \<Rightarrow> bool" where
  "tag_rejected (a # b # c # s) \<longleftrightarrow> (a \<noteq> newline \<and> is_separator b \<and> c \<noteq> newline) \<or> tag_rejected (b # c # s)"
| "tag_rejected _ \<longleftrightarrow> False"

definition outputIntervalHistogram :: "log_writer \<Rightarrow> interval_histogram \<Rightarrow> log_options option \<Rightarrow> error option \<times> log_writer" where
  "outputIntervalHistogram lw histo logOptions =
     (if ih_Tag histo \<noteq> [] \<and> tag_rejected (ih_Tag histo) then (Some (BadTag (ih_Tag histo)), lw)
      else let tagStr = (if ih_Tag histo \<noteq> [] then ''Tag='' @ ih_Tag histo @ '','' else []);
               usedStartTime = (case logOptions of
                   Some opts \<Rightarrow> if \<not> feq (startTimeStampSec opts) (Fin 0) then startTimeStampSec opts else of_int64 (ih_StartTimeMs histo)
                 | None \<Rightarrow> of_int64 (ih_StartTimeMs histo));
               usedEndTime = (case logOptions of
                   Some opts \<Rightarrow> if \<not> feq (endTimeStampSec opts) (Fin 0) then endTimeStampSec opts else of_int64 (ih_EndTimeMs histo)
                 | None \<Rightarrow> of_int64 (ih_EndTimeMs histo));
               ratio = (case logOptions of Some opts \<Rightarrow> maxValueUnitRatio opts | None \<Rightarrow> MsToNsRatio);
               startTime = fdivide (fsub usedStartTime (of_int64 (baseTime lw))) (Fin 1000);
               endTime = fdivide (fsub usedEndTime (of_int64 (baseTime lw))) (Fin 1000)
           in case ih_Max histo of
                Inl e \<Rightarrow> (Some e, lw)
              | Inr mx \<Rightarrow>
                  (case ih_EncodeV2 histo of
                     Inl e \<Rightarrow> (Some e, lw)
                   | Inr cpayload \<Rightarrow>
                       (None, put lw (tagStr @ show_f startTime @ '','' @ show_f (fsub endTime startTime) @ '','' @
                                 show_f (fdivide (of_int64 mx) ratio) @ '','' @ chars_of cpayload @ [newline]))))"

definition EncodeV2 :: "(byte list \<Rightarrow> byte list) \<Rightarrow> histogram \<Rightarrow> error + byte list" where
  "EncodeV2 deflate h = Encode deflate h V2CompressedEncodingCookieBase"

definition EncodeV2_p :: "(byte list \<Rightarrow> byte list) \<Rightarrow> packed \<Rightarrow> error + byte list" where
  "EncodeV2_p deflate p = Encode_p deflate p"

text \<open>The log metadata of the sparse histogram are those of its geometry oracle.\<close>

definition SetTag_p :: "packed \<Rightarrow> string \<Rightarrow> packed" where
  "SetTag_p p t = p\<lparr>p_geom := SetTag (p_geom p) t\<rparr>"

definition SetStartTimeMs_p :: "packed \<Rightarrow> int \<Rightarrow> packed" where
  "SetStartTimeMs_p p t = p\<lparr>p_geom := SetStartTimeMs (p_geom p) t\<rparr>"

definition SetEndTimeMs_p :: "packed \<Rightarrow> int \<Rightarrow> packed" where
  "SetEndTimeMs_p p t = p\<lparr>p_geom := SetEndTimeMs (p_geom p) t\<rparr>"

definition Tag_p :: "packed \<Rightarrow> string" where
  [simp]: "Tag_p p = Tag (p_geom p)"

definition StartTimeMs_p :: "packed \<Rightarrow> int" where
  [simp]: "StartTimeMs_p p = StartTimeMs (p_geom p)"

definition EndTimeMs_p :: "packed \<Rightarrow> int" where
  [simp]: "EndTimeMs_p p = EndTimeMs (p_geom p)"

definition dense_interval :: "(byte list \<Rightarrow> byte list) \<Rightarrow> histogram \<Rightarrow> interval_histogram" where
  "dense_interval deflate h = \<lparr>ih_Tag = Tag h, ih_StartTimeMs = StartTimeMs h, ih_EndTimeMs = EndTimeMs h,
     ih_Max = Max_h h, ih_EncodeV2 = EncodeV2 deflate h\<rparr>"

definition packed_interval :: "(byte list \<Rightarrow> byte list) \<Rightarrow> packed \<Rightarrow> interval_histogram" where
  "packed_interval deflate p = \<lparr>ih_Tag = Tag_p p, ih_StartTimeMs = StartTimeMs_p p, ih_EndTimeMs = EndTimeMs_p p,
     ih_Max = Inr (Max_p p), ih_EncodeV2 = EncodeV2_p deflate p\<rparr>"

definition OutputIntervalHistogramWithLogOptions :: "(byte list \<Rightarrow> byte list) \<Rightarrow> log_writer \<Rightarrow> histogram \<Rightarrow> log_options option
    \<Rightarrow> error option \<times> log_writer" where
  "OutputIntervalHistogramWithLogOptions deflate lw h opts = outputIntervalHistogram lw (dense_interval deflate h) opts"

definition OutputIntervalHistogram :: "(byte list \<Rightarrow> byte list) \<Rightarrow> log_writer \<Rightarrow> histogram \<Rightarrow> error option \<times> log_writer" where
  "OutputIntervalHistogram deflate lw h = OutputIntervalHistogramWithLogOptions deflate lw h None"

definition OutputIntervalPackedHistogramWithLogOptions :: "(byte list \<Rightarrow> byte list) \<Rightarrow> log_writer \<Rightarrow> packed \<Rightarrow> log_options option
    \<Rightarrow> error option \<times> log_writer" where
  "OutputIntervalPackedHistogramWithLogOptions deflate lw p opts = outputIntervalHistogram lw (packed_interval deflate p) opts"

definition OutputIntervalPackedHistogram :: "(byte list \<Rightarrow> byte list) \<Rightarrow> log_writer \<Rightarrow> packed \<Rightarrow> error option \<times> log_writer" where
  "OutputIntervalPackedHistogram deflate lw p = OutputIntervalPackedHistogramWithLogOptions deflate lw p None"

text \<open>\<open>time.Unix(secs, nsecs).UTC().Format(time.RFC3339)\<close>, which has no fraction of a second: the
  date in the proleptic Gregorian calendar, counted from the first of March of year 0.\<close>

definition civil_date :: "int \<Rightarrow> int \<times> int \<times> int" where
  "civil_date days =
     (let z = days + 719468; era = z div 146097; doe = z mod 146097;
          yoe = (doe - doe div 1460 + doe div 36524 - doe div 146096) div 365;
          doy = doe - (365 * yoe + yoe div 4 - yoe div 100);
          mp = (5 * doy + 2) div 153;
          d = doy - (153 * mp + 2) div 5 + 1;
          m = (if mp < 10 then mp + 3 else mp - 9)
      in (yoe + era * 400 + (if m \<le> 2 then 1 else 0), m, d))"

definition show_year :: "int \<Rightarrow> string" where
  "show_year y =
     (let a = nat \<bar>y\<bar> in (if y < 0 then ''-'' else []) @ (if a < 10000 then pad_digits 4 a else show_nat a))"

definition show_rfc3339 :: "int \<Rightarrow> string" where
  "show_rfc3339 secs =
     (let (y, m, d) = civil_date (secs div 86400); s = secs mod 86400
      in show_year y @ ''-'' @ pad_digits 2 (nat m) @ ''-'' @ pad_digits 2 (nat d) @ ''T'' @
         pad_digits 2 (nat (s div 3600)) @ '':'' @ pad_digits 2 (nat (s div 60 mod 60)) @ '':'' @ pad_digits 2 (nat (s mod 60)) @ ''Z'')"

text \<open>The whole seconds of \<open>time.Unix(secs, nsecs)\<close>: a negative number of nanoseconds borrows one.\<close>

definition OutputStartTime :: "log_writer \<Rightarrow> int \<Rightarrow> log_writer" where
  "OutputStartTime lw msec =
     (let secs = quot msec 1000; nsecs = go_rem msec 1000 * 1000000;
          isoStr = show_rfc3339 (if nsecs < 0 then secs - 1 else secs)
      in put lw (''#[StartTime: '' @ show_int secs @ '' (seconds since epoch), '' @ isoStr @ '']'' @ [newline]))"

definition OutputBaseTime :: "log_writer \<Rightarrow> int \<Rightarrow> log_writer" where
  "OutputBaseTime lw msec =
     (let secs = quot msec 1000
      in put lw (''#[BaseTime: '' @ show_int secs @ '' (seconds since epoch)]'' @ [newline]))"

definition OutputComment :: "log_writer \<Rightarrow> string \<Rightarrow> log_writer" where
  "OutputComment lw comment = put lw (''#'' @ comment @ [newline])"

text \<open>A double quote, as a character of a string.\<close>

definition quoted :: "string \<Rightarrow> string" where
  "quoted s = CHR 0x22 # s @ [CHR 0x22]"

definition OutputLegend :: "log_writer \<Rightarrow> log_writer" where
  "OutputLegend lw =
     put lw (quoted ''StartTimestamp'' @ '','' @ quoted ''Interval_Length'' @ '','' @ quoted ''Interval_Max'' @ '','' @
             quoted ''Interval_Compressed_Histogram'' @ [newline])"

definition HISTOGRAM_LOG_FORMAT_VERSION :: string where
  "HISTOGRAM_LOG_FORMAT_VERSION = ''1.3''"

definition OutputLogFormatVersion :: "log_writer \<Rightarrow> log_writer" where
  "OutputLogFormatVersion lw = OutputComment lw (''[Histogram log format version '' @ HISTOGRAM_LOG_FORMAT_VERSION @ '']'')"

section \<open>Reading\<close>

record log_reader =
  rd_log :: string
  rd_end :: "error option"
  startTimeSec :: f64
  observedStartTime :: bool
  baseTimeSec :: f64
  observedBaseTime :: bool
  absolute :: bool
  rangeStartTimeSec :: f64
  rangeEndTimeSec :: f64
  observedMax :: bool
  rangeObservedMax :: int
  observedMin :: bool
  rangeObservedMin :: int

definition NewHistogramLogReader :: "string \<Rightarrow> error option \<Rightarrow> log_reader" where
  "NewHistogramLogReader l e =
     \<lparr>rd_log = l, rd_end = e, startTimeSec = Fin 0, observedStartTime = False, baseTimeSec = Fin 0, observedBaseTime = False,
      absolute = False, rangeStartTimeSec = Fin 0, rangeEndTimeSec = Fin 0,
      observedMax = False, rangeObservedMax = MinInt64, observedMin = False, rangeObservedMin = MaxInt64\<rparr>"

definition ObservedMin :: "log_reader \<Rightarrow> bool" where
  "ObservedMin r = observedMin r"

definition ObservedMax :: "log_reader \<Rightarrow> bool" where
  "ObservedMax r = observedMax r"

definition RangeObservedMax :: "log_reader \<Rightarrow> int" where
  "RangeObservedMax r = rangeObservedMax r"

definition RangeObservedMin :: "log_reader \<Rightarrow> int" where
  "RangeObservedMin r = rangeObservedMin r"

text \<open>\<open>ReadString\<close>: the line with its newline, or what is left with the reason it ended.\<close>

datatype line_end = Complete | AtEOF | Failed error

definition ReadString :: "log_reader \<Rightarrow> string \<times> line_end \<times> log_reader" where
  "ReadString r =
     (let l = takeWhile (\<lambda>c. c \<noteq> newline) (rd_log r); rest = dropWhile (\<lambda>c. c \<noteq> newline) (rd_log r)
      in case rest of
           nl # rest' \<Rightarrow> (l @ [nl], Complete, r\<lparr>rd_log := rest'\<rparr>)
         | [] \<Rightarrow> (l, (case rd_end r of None \<Rightarrow> AtEOF | Some e \<Rightarrow> Failed e), r\<lparr>rd_log := []\<rparr>))"

text \<open>What one line does: the loop goes on with the tag in hand, or the method returns.\<close>

datatype outcome = Continue string log_reader | Return "histogram option" "error option" log_reader

definition comment_line :: "string \<Rightarrow> string \<Rightarrow> log_reader \<Rightarrow> outcome" where
  "comment_line t line r =
     (case match_literal_number ''#[StartTime: '' line of
        Some d \<Rightarrow>
          (case ParseFloat d of
             (v, Some e) \<Rightarrow> Return None (Some e) (r\<lparr>startTimeSec := v\<rparr>)
           | (v, None) \<Rightarrow> Continue t (r\<lparr>startTimeSec := v, observedStartTime := True\<rparr>))
      | None \<Rightarrow>
          (case match_literal_number ''#[BaseTime: '' line of
             Some d \<Rightarrow>
               (case ParseFloat d of
                  (v, Some e) \<Rightarrow> Return None (Some e) (r\<lparr>baseTimeSec := v\<rparr>)
                | (v, None) \<Rightarrow> Continue t (r\<lparr>baseTimeSec := v, observedBaseTime := True\<rparr>))
           | None \<Rightarrow> Continue t r))"

text \<open>The start and the base time deduced from the first interval.\<close>

definition observe_times :: "f64 \<Rightarrow> log_reader \<Rightarrow> log_reader" where
  "observe_times logTimeStampInSec r =
     (let r1 = (if \<not> observedStartTime r then r\<lparr>startTimeSec := logTimeStampInSec, observedStartTime := True\<rparr> else r)
      in if \<not> observedBaseTime r1
         then r1\<lparr>baseTimeSec := (if fless logTimeStampInSec (fsub (startTimeSec r1) (Fin (365 * 24 * 3600)))
                                 then startTimeSec r1 else Fin 0),
                 observedBaseTime := True\<rparr>
         else r1)"

definition take_interval :: "(int \<Rightarrow> int) \<Rightarrow> (byte list \<Rightarrow> (byte list \<times> stream_end) option) \<Rightarrow> string \<Rightarrow> f64 \<Rightarrow> f64 \<Rightarrow> string
    \<Rightarrow> log_reader \<Rightarrow> outcome" where
  "take_interval lg inflate t logTimeStampInSec intervalLengthSec cpayload r0 =
     (let r = observe_times logTimeStampInSec r0;
          absoluteStartTimeStampSec = fadd logTimeStampInSec (baseTimeSec r);
          offsetStartTimeStampSec = fadd absoluteStartTimeStampSec (startTimeSec r);
          absoluteEndTimeStampSec = fadd absoluteStartTimeStampSec intervalLengthSec;
          startTimeStampToCheckRangeOn = (if absolute r then absoluteStartTimeStampSec else offsetStartTimeStampSec)
      in if fless startTimeStampToCheckRangeOn (rangeStartTimeSec r) then Continue t r
         else if fless (rangeEndTimeSec r) startTimeStampToCheckRangeOn then Return None None r
         else case Decode lg inflate (bytes_of cpayload) of
                Inl e \<Rightarrow> Return None (Some e) r
              | Inr h \<Rightarrow>
                  (case Max_h h of
                     Inl e \<Rightarrow> Return None (Some e) r
                   | Inr mx \<Rightarrow>
                       (case Min_h h of
                          Inl e \<Rightarrow> Return None (Some e) r
                        | Inr mn \<Rightarrow>
                            let r1 = (if mx > rangeObservedMax r then r\<lparr>rangeObservedMax := mx\<rparr> else r);
                                r2 = (if mn < rangeObservedMin r1 then r1\<lparr>rangeObservedMin := mn\<rparr> else r1);
                                h1 = SetStartTimeMs h (to_int64 (fmul absoluteStartTimeStampSec (Fin 1000)));
                                h2 = SetEndTimeMs h1 (to_int64 (fmul absoluteEndTimeStampSec (Fin 1000)))
                            in Return (Some (if t \<noteq> [] then SetTag h2 t else h2)) None r2)))"

definition interval_line :: "(int \<Rightarrow> int) \<Rightarrow> (byte list \<Rightarrow> (byte list \<times> stream_end) option) \<Rightarrow> string \<Rightarrow> string
    \<Rightarrow> log_reader \<Rightarrow> outcome" where
  "interval_line lg inflate t line r =
     (case match_interval line of
        None \<Rightarrow> Continue t r
      | Some (a, b, c, cpayload) \<Rightarrow>
          (case ParseFloat a of
             (_, Some e) \<Rightarrow> Return None (Some e) r
           | (logTimeStampInSec, None) \<Rightarrow>
               (case ParseFloat b of
                  (_, Some e) \<Rightarrow> Return None (Some e) r
                | (intervalLengthSec, None) \<Rightarrow> take_interval lg inflate t logTimeStampInSec intervalLengthSec cpayload r)))"

text \<open>\<open>strings.Index\<close> of one character: its first position, or -1.\<close>

definition index_of :: "char \<Rightarrow> string \<Rightarrow> int" where
  "index_of c s = (let k = length (takeWhile (\<lambda>x. x \<noteq> c) s) in if k < length s then int k else - 1)"

text \<open>The index and the slices of the line are checked: a panic of one of them is returned as an error.\<close>

definition log_line :: "(int \<Rightarrow> int) \<Rightarrow> (byte list \<Rightarrow> (byte list \<times> stream_end) option) \<Rightarrow> string \<Rightarrow> string
    \<Rightarrow> log_reader \<Rightarrow> outcome" where
  "log_line lg inflate t line r =
     (case index_at line 0 of
        Inl e \<Rightarrow> Return None (Some e) r
      | Inr c \<Rightarrow>
          if c = CHR ''#'' then comment_line t line r
          else if take 4 line = ''Tag=''
          then
            let commaPos = index_of (CHR '','') line
            in if commaPos < 0 then Continue t r
               else
                 (case slice line 4 commaPos of
                    Inl e \<Rightarrow> Return None (Some e) r
                  | Inr t' \<Rightarrow>
                      (case slice line (commaPos + 1) (int (length line)) of
                         Inl e \<Rightarrow> Return None (Some e) r
                       | Inr line' \<Rightarrow> interval_line lg inflate t' line' r))
          else interval_line lg inflate t line r)"

text \<open>No line panics: it is not empty, and the comma of a tag comes after its four characters.\<close>

lemma log_line_eq:
  assumes "line \<noteq> []"
  shows "log_line lg inflate t line r =
     (if hd line = CHR ''#'' then comment_line t line r
      else if take 4 line = ''Tag=''
      then case dropWhile (\<lambda>c. c \<noteq> CHR '','') line of
             [] \<Rightarrow> Continue t r
           | _ # rest \<Rightarrow> interval_line lg inflate (drop 4 (takeWhile (\<lambda>c. c \<noteq> CHR '','') line)) rest r
      else interval_line lg inflate t line r)"
proof -
  let ?a = "takeWhile (\<lambda>c. c \<noteq> CHR '','') line" and ?b = "dropWhile (\<lambda>c. c \<noteq> CHR '','') line"
  have l: "line = ?a @ ?b" by simp
  have h: "index_at line 0 = Inr (hd line)" using assms by (simp add: index_at_def hd_conv_nth)
  show ?thesis
  proof (cases "take 4 line = ''Tag='' \<and> ?b \<noteq> []")
    case True
    then obtain c rest where b: "?b = c # rest" by (cases ?b) auto
    have k: "length ?a < length line" using arg_cong [OF l, of length] unfolding b by simp
    from True obtain s where "line = ''Tag='' @ s" by (metis append_take_drop_id)
    then have four: "4 \<le> length ?a" by simp
    have A: "take (length ?a) line = ?a" by (simp flip: takeWhile_eq_take)
    have B: "drop (Suc (length ?a)) line = rest"
      using arg_cong [OF b, of tl] by (simp add: dropWhile_eq_drop tl_drop drop_Suc)
    have "take (length ?a - 4) (drop 4 line) = drop 4 ?a" using A by (metis drop_take)
    then have "slice line 4 (int (length ?a)) = Inr (drop 4 ?a)"
      using four k slice_ok [of 4 "int (length ?a)" line] by (simp add: nat_diff_distrib)
    moreover have "slice line (int (length ?a) + 1) (int (length line)) = Inr rest"
      using slice_from [of "Suc (length ?a)" line] k B by (simp add: add.commute)
    ultimately show ?thesis using k b h True by (simp add: log_line_def index_of_def)
  next
    case False
    show ?thesis
    proof (cases ?b)
      case Nil
      then have "?a = line" using l by (metis append_Nil2)
      then have "index_of (CHR '','') line = - 1" by (simp only: index_of_def Let_def) simp
      then show ?thesis by (simp only: log_line_def h sum.case Nil list.case Let_def) simp
    next
      case (Cons c rest)
      with False show ?thesis by (simp add: log_line_def h)
    qed
  qed
qed

lemma log_line_nil: "log_line lg inflate t [] r \<noteq> Continue t' r'"
  by (simp add: log_line_def index_at_def)

text \<open>The methods only look at lines, so the input shrinks with every round of the loop.\<close>

lemma rd_log_observe [simp]: "rd_log (observe_times x r) = rd_log r"
  by (simp add: observe_times_def Let_def)

lemma rd_log_comment: "comment_line t line r = Continue t' r' \<Longrightarrow> rd_log r' = rd_log r"
  by (auto simp: comment_line_def split: option.splits prod.splits)

lemma rd_log_interval: "interval_line lg inflate t line r = Continue t' r' \<Longrightarrow> rd_log r' = rd_log r"
  by (auto simp: interval_line_def take_interval_def Let_def split: option.splits prod.splits if_splits sum.splits)

lemma rd_log_line: "log_line lg inflate t line r = Continue t' r' \<Longrightarrow> rd_log r' = rd_log r"
  using log_line_nil [of lg inflate t r t' r']
  by (cases "line = []") (auto simp: log_line_eq dest: rd_log_comment rd_log_interval split: if_splits list.splits)

lemma ReadString_shorter: "ReadString r = (line, e, r1) \<Longrightarrow> line \<noteq> [] \<Longrightarrow> length (rd_log r1) < length (rd_log r)"
proof -
  assume a: "ReadString r = (line, e, r1)" "line \<noteq> []"
  have "length (rd_log r) = length (takeWhile (\<lambda>c. c \<noteq> newline) (rd_log r)) + length (dropWhile (\<lambda>c. c \<noteq> newline) (rd_log r))"
    by (metis length_append takeWhile_dropWhile_id)
  then show ?thesis using a by (auto simp: ReadString_def Let_def split: list.splits)
qed

lemma log_line_shorter: "(line, e, r1) = ReadString r \<Longrightarrow> log_line lg inflate t line r1 = Continue t' r2 \<Longrightarrow>
    length (rd_log r2) < length (rd_log r)"
  using ReadString_shorter [of r line e r1] rd_log_line log_line_nil by metis

function decode_loop :: "(int \<Rightarrow> int) \<Rightarrow> (byte list \<Rightarrow> (byte list \<times> stream_end) option) \<Rightarrow> string \<Rightarrow> log_reader
    \<Rightarrow> (histogram option \<times> error option) \<times> log_reader" where
  "decode_loop lg inflate t r =
     (case ReadString r of
        (line, Failed e, r1) \<Rightarrow> ((None, Some e), r1)
      | (line, e, r1) \<Rightarrow>
          if e = AtEOF \<and> line = [] then ((None, None), r1)
          else case log_line lg inflate t line r1 of
                 Return h e r2 \<Rightarrow> ((h, e), r2)
               | Continue t' r2 \<Rightarrow> decode_loop lg inflate t' r2)"
  by pat_completeness auto
termination
  by (relation "measure (\<lambda>(lg, inflate, t, r). length (rd_log r))") (auto intro: log_line_shorter)

declare decode_loop.simps [simp del]

definition decodeNextIntervalHistogram :: "(int \<Rightarrow> int) \<Rightarrow> (byte list \<Rightarrow> (byte list \<times> stream_end) option) \<Rightarrow> log_reader
    \<Rightarrow> (histogram option \<times> error option) \<times> log_reader" where
  "decodeNextIntervalHistogram lg inflate r = decode_loop lg inflate [] r"

definition NextIntervalHistogramWithRange :: "(int \<Rightarrow> int) \<Rightarrow> (byte list \<Rightarrow> (byte list \<times> stream_end) option) \<Rightarrow> log_reader
    \<Rightarrow> f64 \<Rightarrow> f64 \<Rightarrow> bool \<Rightarrow> (histogram option \<times> error option) \<times> log_reader" where
  "NextIntervalHistogramWithRange lg inflate r rangeStart rangeEnd absol =
     decodeNextIntervalHistogram lg inflate (r\<lparr>rangeStartTimeSec := rangeStart, rangeEndTimeSec := rangeEnd, absolute := absol\<rparr>)"

definition NextIntervalHistogram :: "(int \<Rightarrow> int) \<Rightarrow> (byte list \<Rightarrow> (byte list \<times> stream_end) option) \<Rightarrow> log_reader
    \<Rightarrow> (histogram option \<times> error option) \<times> log_reader" where
  "NextIntervalHistogram lg inflate r = NextIntervalHistogramWithRange lg inflate r (Fin 0) (Fin max_finite) True"

end
