(* ===== verification/Log_Times.thy ===== *)
theory Log_Times
  imports Log
begin

text \<open>
  The numbers of the interval log: a time in milliseconds is written in seconds with six decimals,
  read back as a \<open>float64\<close> and truncated to milliseconds again. The lemmas bound the rounding of
  every step (\<open>seconds\<close>, \<open>length_of\<close>, \<open>read_length\<close>, \<open>end_seconds\<close>); the result is the same time or one
  millisecond less.
\<close>

section \<open>Times\<close>

text \<open>Times in milliseconds up to the year 2223, for which a \<open>float64\<close> of seconds has room for six
  decimals.\<close>

definition time_ok :: "int \<Rightarrow> bool" where
  "time_ok s \<longleftrightarrow> 0 \<le> s \<and> s \<le> 8000000000000"

text \<open>A time in seconds, as the writer computes it.\<close>

definition seconds :: "int \<Rightarrow> rat" where
  "seconds s = round64 (of_int s / 1000)"

lemma seconds_bounds:
  assumes "time_ok s"
  shows "0 \<le> seconds s" "seconds s \<le> 8000000000" "\<bar>seconds s - of_int s / 1000\<bar> \<le> 1 / 2097152" "dyadic (seconds s)"
proof -
  have s: "0 \<le> (of_int s :: rat)" "(of_int s :: rat) \<le> 8000000000000" using assms by (simp_all add: time_ok_def)
  show "0 \<le> seconds s" unfolding seconds_def using s by (intro round64_nonneg) simp
  have "seconds s \<le> round64 8000000000" unfolding seconds_def using s by (intro round64_mono) simp
  also have "round64 8000000000 = 8000000000" using round64_exact [OF dyadic_of_int [of 8000000000]] by simp
  finally show "seconds s \<le> 8000000000" .
  show "\<bar>seconds s - of_int s / 1000\<bar> \<le> 1 / 2097152"
    unfolding seconds_def using round64_err [of "of_int s / 1000" 33] s by simp
  show "dyadic (seconds s)" by (simp add: seconds_def dyadic_round64)
qed

lemma seconds_mono: "s \<le> e \<Longrightarrow> seconds s \<le> seconds e"
  unfolding seconds_def by (intro round64_mono divide_right_mono) simp_all

text \<open>The first two numbers of a line, for a base time of zero.\<close>

lemma written_start:
  assumes "time_ok s"
  shows "fdivide (fsub (of_int64 s) (of_int64 0)) (Fin 1000) = Fin (seconds s)"
proof -
  have s: "0 \<le> (of_int s :: rat)" "(of_int s :: rat) \<le> 8000000000000" "\<bar>s\<bar> \<le> 2 ^ 53" using assms by (simp_all add: time_ok_def)
  have "fsub (of_int64 s) (of_int64 0) = of_rat64 (of_int s)" using s by (simp add: of_int64_exact fsub_def)
  also have "\<dots> = Fin (of_int s)" using of_int64_exact [OF s(3)] by (simp add: of_int64_def)
  finally show ?thesis using s by (simp add: of_rat64_fin seconds_def)
qed

definition length_of :: "int \<Rightarrow> int \<Rightarrow> rat" where
  "length_of s e = round64 (seconds e - seconds s)"

lemma written_length:
  assumes "time_ok s" "time_ok e" "s \<le> e"
  shows "fsub (Fin (seconds e)) (Fin (seconds s)) = Fin (length_of s e)"
    and "0 \<le> length_of s e" and "length_of s e \<le> 8000000000"
    and "\<bar>length_of s e - (seconds e - seconds s)\<bar> \<le> 1 / 2097152"
proof -
  note a = seconds_bounds [OF assms(1)] and b = seconds_bounds [OF assms(2)] and m = seconds_mono [OF assms(3)]
  have r: "0 \<le> seconds e - seconds s" "seconds e - seconds s \<le> 8000000000" using a(1) b(2) m by linarith+
  then show "fsub (Fin (seconds e)) (Fin (seconds s)) = Fin (length_of s e)"
    by (simp add: fsub_def length_of_def of_rat64_fin)
  show "0 \<le> length_of s e" using r by (simp add: length_of_def round64_nonneg)
  have "length_of s e \<le> round64 8000000000" unfolding length_of_def using r by (intro round64_mono)
  also have "round64 8000000000 = 8000000000" using round64_exact [OF dyadic_of_int [of 8000000000]] by simp
  finally show "length_of s e \<le> 8000000000" .
  show "\<bar>length_of s e - (seconds e - seconds s)\<bar> \<le> 1 / 2097152"
    using round64_err [of "seconds e - seconds s" 33] r by (simp add: length_of_def)
qed

lemma round_even_near: "\<bar>y - of_int k\<bar> < 1 / 2 \<Longrightarrow> round_even y = k"
proof -
  assume "\<bar>y - of_int k\<bar> < 1 / 2"
  then have "\<bar>of_int (round_even y) - (of_int k :: rat)\<bar> < 1" using round_even_error [of y] by linarith
  then have "\<bar>round_even y - k\<bar> < 1" by (metis of_int_1 of_int_abs of_int_diff of_int_less_iff)
  then show ?thesis by simp
qed

text \<open>Six decimals are enough for a start time, which is a number of milliseconds.\<close>

lemma millionths_seconds:
  assumes "time_ok s"
  shows "millionths (seconds s) = nat (1000 * s)"
proof -
  have "seconds s * 1000000 - of_int (1000 * s) = (seconds s - of_int s / 1000) * 1000000" by (simp add: left_diff_distrib)
  then have "\<bar>seconds s * 1000000 - of_int (1000 * s)\<bar> = \<bar>seconds s - of_int s / 1000\<bar> * 1000000"
    by (simp only: abs_mult)
  also have "\<dots> \<le> 1 / 2097152 * 1000000" using seconds_bounds(3) [OF assms] by (intro mult_right_mono) simp_all
  also have "\<dots> < 1 / 2" by simp
  finally have "round_even (seconds s * 1000000) = 1000 * s" by (rule round_even_near)
  then show ?thesis by (simp add: millionths_def)
qed

lemma millionths_near:
  assumes "0 \<le> x"
  shows "\<bar>of_nat (millionths x) / 1000000 - x\<bar> \<le> 1 / 2000000"
proof -
  have "0 \<le> round_even (x * 1000000)" using round_even_mono [of 0 "x * 1000000"] round_even_int [of 0] assms by simp
  then have "of_nat (millionths x) = (of_int (round_even (x * 1000000)) :: rat)" by (simp add: millionths_def)
  then have "of_nat (millionths x) / 1000000 - x = (of_int (round_even (x * 1000000)) - x * 1000000) / 1000000"
    by (simp add: diff_divide_distrib)
  then have "\<bar>of_nat (millionths x) / 1000000 - x\<bar> = \<bar>of_int (round_even (x * 1000000)) - x * 1000000\<bar> / 1000000"
    by (simp only: abs_divide)
  also have "\<dots> \<le> 1 / 2 / 1000000" using round_even_error by (intro divide_right_mono) simp_all
  finally show ?thesis by simp
qed

lemma show_f_nonneg: "0 \<le> x \<Longrightarrow> show_f (Fin x) = show_fixed (millionths x)"
  by simp

text \<open>The numbers as they are read back.\<close>

lemma read_start:
  assumes "time_ok s"
  shows "ParseFloat (show_fixed (millionths (seconds s))) = (Fin (seconds s), None)"
proof -
  have s: "0 \<le> s" "(of_int s :: rat) \<le> 8000000000000" using assms by (simp_all add: time_ok_def)
  then have "(of_nat (nat (1000 * s)) :: rat) / 1000000 = of_int s / 1000" by simp
  moreover have "of_rat64 (of_int s / 1000) = Fin (seconds s)" using s by (simp add: of_rat64_fin seconds_def)
  ultimately show ?thesis by (simp add: ParseFloat_show_fixed millionths_seconds [OF assms])
qed

definition read_length :: "int \<Rightarrow> int \<Rightarrow> rat" where
  "read_length s e = round64 (of_nat (millionths (length_of s e)) / 1000000)"

lemma read_length:
  assumes "time_ok s" "time_ok e" "s \<le> e"
  shows "ParseFloat (show_fixed (millionths (length_of s e))) = (Fin (read_length s e), None)"
    and "0 \<le> read_length s e" and "read_length s e \<le> 8000000001"
    and "\<bar>read_length s e - length_of s e\<bar> \<le> 1 / 2097152 + 1 / 2000000"
proof -
  let ?x = "of_nat (millionths (length_of s e)) / (1000000 :: rat)"
  note l = written_length [OF assms] and n = millionths_near [OF written_length(2) [OF assms]]
  have x: "0 \<le> ?x" "?x \<le> 8000000001" using l(3) n by (simp, linarith)
  then show "ParseFloat (show_fixed (millionths (length_of s e))) = (Fin (read_length s e), None)"
    by (simp add: ParseFloat_show_fixed of_rat64_fin read_length_def)
  show "0 \<le> read_length s e" unfolding read_length_def using x(1) by (rule round64_nonneg)
  have "read_length s e \<le> round64 8000000001" unfolding read_length_def using x(2) by (rule round64_mono)
  also have "round64 8000000001 = 8000000001" using round64_exact [OF dyadic_of_int [of 8000000001]] by simp
  finally show "read_length s e \<le> 8000000001" .
  have "\<bar>read_length s e - ?x\<bar> \<le> 1 / 2097152" unfolding read_length_def using round64_err [of ?x 33] x by simp
  then show "\<bar>read_length s e - length_of s e\<bar> \<le> 1 / 2097152 + 1 / 2000000" using n by linarith
qed

text \<open>A time in seconds that is close enough to its milliseconds is truncated to them, or to one less.\<close>

lemma to_ms:
  assumes "0 \<le> x" "x \<le> 16000000001" "\<bar>x - of_int e / 1000\<bar> \<le> 1 / 100000" "0 \<le> e"
  shows "to_int64 (fmul (Fin x) (Fin 1000)) \<in> {e - 1, e}"
proof -
  let ?y = "round64 (x * 1000)"
  have y: "\<bar>?y - x * 1000\<bar> \<le> 1 / 1024" using round64_err [of "x * 1000" 44] assms by simp
  have near: "\<bar>?y - of_int e\<bar> < 1" using y assms(3) by linarith
  have y0: "0 \<le> ?y" using assms(1) by (intro round64_nonneg) simp
  have f: "fmul (Fin x) (Fin 1000) = Fin ?y" using assms by (simp add: of_rat64_fin)
  have "e - 1 < \<lfloor>?y\<rfloor> + 1" "\<lfloor>?y\<rfloor> < e + 1" using near by linarith+
  then have fl: "\<lfloor>?y\<rfloor> = e - 1 \<or> \<lfloor>?y\<rfloor> = e" by linarith
  have "(of_int e :: rat) \<le> 17000000000000" using assms(2,3) by linarith
  then have "e \<le> 17000000000000" by simp
  then have r: "MinInt64 \<le> \<lfloor>?y\<rfloor>" "\<lfloor>?y\<rfloor> \<le> MaxInt64" using fl assms(4) by linarith+
  have tr: "trunc64 ?y = \<lfloor>?y\<rfloor>" using y0 by (simp add: trunc64_def)
  have "to_int64 (Fin ?y) = trunc64 ?y" using r unfolding to_int64_def f64.case tr by simp
  then show ?thesis unfolding f using fl tr by simp
qed

definition read_start_ms :: "int \<Rightarrow> int" where
  "read_start_ms s = to_int64 (fmul (Fin (seconds s)) (Fin 1000))"

lemma start_ms: "time_ok s \<Longrightarrow> read_start_ms s \<in> {s - 1, s}"
  unfolding read_start_ms_def
proof (rule to_ms)
  assume s: "time_ok s"
  note b = seconds_bounds [OF s]
  show "0 \<le> seconds s" by (rule b)
  show "seconds s \<le> 16000000001" "\<bar>seconds s - of_int s / 1000\<bar> \<le> 1 / 100000" using b(2,3) by linarith+
  show "0 \<le> s" using s by (simp add: time_ok_def)
qed

definition end_seconds :: "int \<Rightarrow> int \<Rightarrow> rat" where
  "end_seconds s e = round64 (seconds s + read_length s e)"

lemma end_ms:
  assumes "time_ok s" "time_ok e" "s \<le> e"
  shows "fadd (Fin (seconds s)) (Fin (read_length s e)) = Fin (end_seconds s e)"
    and "to_int64 (fmul (Fin (end_seconds s e)) (Fin 1000)) \<in> {e - 1, e}"
proof -
  note a = seconds_bounds [OF assms(1)] and b = seconds_bounds [OF assms(2)] and l = written_length [OF assms] and r = read_length [OF assms]
  let ?x = "seconds s + read_length s e"
  have x: "0 \<le> ?x" "?x \<le> 16000000001" using a(1,2) r(2,3) by linarith+
  then show "fadd (Fin (seconds s)) (Fin (read_length s e)) = Fin (end_seconds s e)"
    by (simp add: of_rat64_fin end_seconds_def)
  have e: "\<bar>end_seconds s e - ?x\<bar> \<le> 1 / 1048576" unfolding end_seconds_def using round64_err [of ?x 34] x by simp
  show "to_int64 (fmul (Fin (end_seconds s e)) (Fin 1000)) \<in> {e - 1, e}"
  proof (rule to_ms)
    show "0 \<le> end_seconds s e" unfolding end_seconds_def using x(1) by (rule round64_nonneg)
    have "end_seconds s e \<le> round64 16000000001" unfolding end_seconds_def using x(2) by (rule round64_mono)
    also have "round64 16000000001 = 16000000001" using round64_exact [OF dyadic_of_int [of 16000000001]] by simp
    finally show "end_seconds s e \<le> 16000000001" .
    show "\<bar>end_seconds s e - of_int e / 1000\<bar> \<le> 1 / 100000" using e l(4) r(4) b(3) by linarith
    show "0 \<le> e" using assms(2) by (simp add: time_ok_def)
  qed
qed

text \<open>Whole seconds are read back exactly.\<close>

lemma start_exact:
  assumes "time_ok s" "1000 dvd s"
  shows "read_start_ms s = s"
proof -
  obtain k where k: "s = 1000 * k" using assms(2) by blast
  have b: "\<bar>k\<bar> \<le> 2 ^ 53" "\<bar>s\<bar> \<le> 2 ^ 53" "0 \<le> s" "s \<le> MaxInt64" using assms(1) k by (simp_all add: time_ok_def)
  have "seconds s = of_int k" using round64_exact [OF dyadic_of_int [OF b(1)]] by (simp add: seconds_def k)
  then have "fmul (Fin (seconds s)) (Fin 1000) = of_int64 s" by (simp add: of_int64_def k mult.commute)
  then have "fmul (Fin (seconds s)) (Fin 1000) = Fin (of_int s)" using of_int64_exact [OF b(2)] by simp
  then show ?thesis using b by (simp add: read_start_ms_def to_int64_def trunc64_def)
qed

lemma round64_eval:
  assumes "0 < x" "2 powi e \<le> x" "x < 2 powi (e + 1)" "- 1022 \<le> e" "\<bar>x / 2 powi (e - 52) - of_int k\<bar> < 1 / 2"
  shows "round64 x = of_int k * 2 powi (e - 52)"
  using assms(1,4) ilog2_unique [OF assms(1-3)] round_even_near [OF assms(5)]
  by (simp add: round64_def round_pos_def quantum_def max_def)

text \<open>\<open>1.001\<close> is less than a thousand and one thousandths as a \<open>float64\<close>, and so is its product with a thousand.\<close>

lemma start_1001: "read_start_ms 1001 = 1000"
proof -
  have p: "(2 :: rat) powi (0 - 52) = 1 / 4503599627370496" "(2 :: rat) powi (9 - 52) = 1 / 8796093022208"
    by (simp_all add: power_int_def field_simps)
  have "round64 (1001 / 1000) = of_int 4508103226997866 * 2 powi (0 - 52)" by (rule round64_eval) (simp_all add: p)
  then have s: "seconds 1001 = 4508103226997866 / 4503599627370496" unfolding p by (simp add: seconds_def)
  let ?x = "4508103226997866 / 4503599627370496 * 1000 :: rat"
  have "round64 ?x = of_int 8804889115230207 * 2 powi (9 - 52)" by (rule round64_eval) (simp_all add: p)
  then have r: "round64 ?x = 8804889115230207 / 8796093022208" unfolding p by simp
  have "\<bar>?x\<bar> \<le> 2 ^ 64" by simp
  then have "fmul (Fin (seconds 1001)) (Fin 1000) = Fin (8804889115230207 / 8796093022208)"
    unfolding s fmul.simps by (simp only: of_rat64_fin r)
  moreover have "\<lfloor>8804889115230207 / 8796093022208 :: rat\<rfloor> = 1000" by (rule floor_unique) simp_all
  ultimately show ?thesis by (simp add: read_start_ms_def to_int64_def trunc64_def)
qed

end
