(* ===== verification/Log_Spec.thy ===== *)
theory Log_Spec
  imports Log_Times Packed_Encoding_Spec "HOL-Library.Sublist"
begin

text \<open>
  Correctness of the interval log: what the writer writes line by line, what the reader makes of one
  such line and of a whole log, and what it can do on any input at all.
\<close>

section \<open>Lines\<close>

lemma bytes_of_chars_of [simp]: "bytes_of (chars_of bs) = bs"
proof -
  have "word_of_nat (of_char (char_of (unat b))) = b" for b :: byte
    using byte_bound [of b] by (simp only: of_char_of) simp
  then show ?thesis by (simp add: bytes_of_def chars_of_def comp_def)
qed

lemma newline_code: "newline = CHR 0x0A"
proof -
  have "of_char (CHR 0x0A) = (10 :: nat)" by simp
  then show ?thesis unfolding newline_def by (metis char_of_char)
qed

lemma carriage_return_code: "char_of (13 :: nat) = CHR 0x0D"
proof -
  have "of_char (CHR 0x0D) = (13 :: nat)" by simp
  then show ?thesis by (metis char_of_char)
qed

lemma newline_not_num [simp]: "\<not> is_num_char newline" "\<not> is_digit newline"
  by (simp_all add: is_num_char_def is_digit_def newline_code)

lemma newline_chars_of: "10 \<notin> set bs \<Longrightarrow> newline \<notin> set (chars_of bs)"
proof
  assume a: "10 \<notin> set bs" and "newline \<in> set (chars_of bs)"
  then obtain b where b: "b \<in> set bs" "char_of (unat b) = newline" by (auto simp: chars_of_def)
  from b(2) have "bytes_of (chars_of [b]) = bytes_of [newline]" by (simp add: chars_of_def)
  then have "b = 10" by (simp only: bytes_of_chars_of) (simp add: bytes_of_def newline_def)
  with a b(1) show False by simp
qed

lemma EncodeToString_no_newline: "newline \<notin> set (chars_of (EncodeToString bs))"
proof (rule newline_chars_of)
  show "10 \<notin> set (EncodeToString bs)"
    by (subst EncodeToString_plain [symmetric]) simp
qed

lemma Encode_no_newline: "EncodeV2 deflate h = Inr enc \<Longrightarrow> newline \<notin> set (chars_of enc)"
  by (auto simp: EncodeV2_def Encode_def dumpV2CompressedEncoding_def Let_def EncodeToString_no_newline
      simp del: EncodeToString.simps split: sum.splits)

lemma ReadString_line:
  assumes "newline \<notin> set l" "rd_log r = l @ newline # rest"
  shows "ReadString r = (l @ [newline], Complete, r\<lparr>rd_log := rest\<rparr>)"
proof -
  have "takeWhile (\<lambda>c. c \<noteq> newline) (l @ newline # rest) = l" "dropWhile (\<lambda>c. c \<noteq> newline) (l @ newline # rest) = newline # rest"
    using assms(1) by (induction l) auto
  then show ?thesis using assms(2) by (simp add: ReadString_def)
qed

definition interval_text :: "string \<Rightarrow> string \<Rightarrow> string \<Rightarrow> string \<Rightarrow> string" where
  "interval_text a b c payload = a @ '','' @ b @ '','' @ c @ '','' @ payload"

lemma match_interval_line:
  assumes "list_all is_num_char a" "list_all is_num_char b" "list_all is_num_char c" "newline \<notin> set payload"
  shows "match_interval (interval_text a b c payload @ [newline]) = Some (a, b, c, payload)"
proof -
  have "takeWhile (\<lambda>x. x \<noteq> newline) (payload @ [newline]) = payload" using assms(4) by (induction payload) auto
  then have "interval_here (interval_text a b c payload @ [newline]) = Some (a, b, c, payload)"
    using assms by (simp add: interval_here_def number_comma_match interval_text_def)
  then show ?thesis by (cases "interval_text a b c payload @ [newline]") simp_all
qed

lemma num_chars_no_newline: "list_all is_num_char s \<Longrightarrow> newline \<notin> set s"
  by (auto simp: list_all_iff)

text \<open>The interval maximum, which the reader skips, is written as digits and a point.\<close>

lemma Max_h_range:
  assumes h: "hist_ok h"
  obtains mx where "Max_h h = Inr mx" "0 \<le> mx" "mx \<le> MaxInt64"
proof -
  have g: "geom_ok h" using h by (simp add: hist_ok_def)
  have "0 \<le> highestEquivalentValue h v \<and> highestEquivalentValue h v \<le> MaxInt64" if "0 \<le> v" "v \<le> MaxInt64" for v
    using value_in_range [OF g that] that by linarith
  moreover have "0 \<le> valueFromFlatIndex h (int (last (populated h))) \<and> valueFromFlatIndex h (int (last (populated h))) \<le> MaxInt64"
    if "populated h \<noteq> []" using valueFromFlatIndex_range [of h "int (last (populated h))"] populated_range [OF h] that h
    by (simp add: hist_ok_def)
  ultimately show ?thesis using that Max_h_eq [OF h] by (cases "populated h = []") auto
qed

lemma max_chars:
  assumes "0 \<le> mx" "mx \<le> MaxInt64"
  shows "list_all is_num_char (show_f (fdivide (of_int64 mx) MsToNsRatio))"
proof -
  have m: "0 \<le> (of_int mx :: rat)" "(of_int mx :: rat) \<le> 9223372036854775808" using assms by (simp, linarith)
  let ?r = "round64 (of_int mx)"
  have "?r \<le> round64 (of_int 9223372036854775808)" using m by (intro round64_mono) simp
  also have "round64 (of_int 9223372036854775808) = 9223372036854775808"
    using round64_exact [OF dyadic_power [of 63]] by simp
  finally have r: "0 \<le> ?r" "?r \<le> 9223372036854775808" using m by (simp_all add: round64_nonneg)
  have "of_int64 mx = Fin ?r" using m by (simp add: of_int64_def of_rat64_fin)
  then have "fdivide (of_int64 mx) MsToNsRatio = Fin (round64 (?r / 1000000))"
    using r by (simp add: MsToNsRatio_def of_rat64_fin)
  moreover have "0 \<le> round64 (?r / 1000000)" using r by (intro round64_nonneg) simp
  ultimately show ?thesis by (simp add: show_fixed_chars)
qed

section \<open>One interval\<close>

text \<open>The histograms a log can hold: times up to the year 2223, a tag without separators.\<close>

definition tag_ok :: "string \<Rightarrow> bool" where
  "tag_ok t \<longleftrightarrow> CHR '','' \<notin> set t \<and> newline \<notin> set t \<and> \<not> tag_rejected t"

definition timed_ok :: "(int \<Rightarrow> int) \<Rightarrow> (byte list \<Rightarrow> byte list) \<Rightarrow> histogram \<Rightarrow> bool" where
  "timed_ok lg deflate h \<longleftrightarrow>
     configured lg h \<and> MinInt64 \<le> highestTrackableValue h \<and>
     time_ok (startTimeMs h) \<and> time_ok (endTimeMs h) \<and> startTimeMs h \<le> endTimeMs h \<and>
     (case EncodeV2 deflate h of Inl e \<Rightarrow> False | Inr enc \<Rightarrow> int (length enc) \<le> 2147483647)"

definition interval_ok :: "(int \<Rightarrow> int) \<Rightarrow> (byte list \<Rightarrow> byte list) \<Rightarrow> histogram \<Rightarrow> bool" where
  "interval_ok lg deflate h \<longleftrightarrow> timed_ok lg deflate h \<and> tag_ok (tag h)"

text \<open>The line of a histogram.\<close>

definition line_of :: "(byte list \<Rightarrow> byte list) \<Rightarrow> histogram \<Rightarrow> string" where
  "line_of deflate h =
     (case (Max_h h, EncodeV2 deflate h) of
        (Inr mx, Inr enc) \<Rightarrow>
          (if tag h \<noteq> [] then ''Tag='' @ tag h @ '','' else []) @
          interval_text (show_fixed (millionths (seconds (startTimeMs h))))
            (show_fixed (millionths (length_of (startTimeMs h) (endTimeMs h))))
            (show_f (fdivide (of_int64 mx) MsToNsRatio)) (chars_of enc)
      | _ \<Rightarrow> [])"

lemma timed_okE:
  assumes "timed_ok lg deflate h"
  obtains mx enc where "Max_h h = Inr mx" "list_all is_num_char (show_f (fdivide (of_int64 mx) MsToNsRatio))"
    "EncodeV2 deflate h = Inr enc" "int (length enc) \<le> 2147483647" "newline \<notin> set (chars_of enc)"
proof -
  have h: "hist_ok h" using assms by (simp add: timed_ok_def configured_def)
  from Max_h_range [OF h] obtain mx where mx: "Max_h h = Inr mx" "0 \<le> mx" "mx \<le> MaxInt64" .
  from assms obtain enc where e: "EncodeV2 deflate h = Inr enc" "int (length enc) \<le> 2147483647"
    by (auto simp: timed_ok_def split: sum.splits)
  show ?thesis by (rule that [OF mx(1) max_chars [OF mx(2,3)] e Encode_no_newline [OF e(1)]])
qed

lemma write_interval:
  assumes ok: "timed_ok lg deflate h" and g: "\<not> tag_rejected (tag h)" and b: "baseTime lw = 0"
  shows "OutputIntervalHistogram deflate lw h = (None, put lw (line_of deflate h @ [newline]))"
proof -
  from timed_okE [OF ok] obtain mx enc where m: "Max_h h = Inr mx" "EncodeV2 deflate h = Inr enc" by metis
  have t: "time_ok (startTimeMs h)" "time_ok (endTimeMs h)" "startTimeMs h \<le> endTimeMs h"
    using ok by (simp_all add: timed_ok_def)
  note s = seconds_bounds(1) [OF t(1)] and l = written_length(1,2) [OF t]
  show ?thesis
    using s l
    by (simp add: OutputIntervalHistogram_def OutputIntervalHistogramWithLogOptions_def outputIntervalHistogram_def
        dense_interval_def m g b written_start [OF t(1)] written_start [OF t(2)] line_of_def interval_text_def Let_def
        del: fdivide.simps)
qed

lemma interval_text_no_newline:
  "list_all is_num_char a \<Longrightarrow> list_all is_num_char b \<Longrightarrow> list_all is_num_char c \<Longrightarrow> newline \<notin> set p \<Longrightarrow>
   newline \<notin> set (interval_text a b c p)"
  using num_chars_no_newline [of a] num_chars_no_newline [of b] num_chars_no_newline [of c]
  by (simp add: interval_text_def newline_code)

lemma line_of_no_newline:
  assumes ok: "timed_ok lg deflate h" "newline \<notin> set (tag h)"
  shows "newline \<notin> set (line_of deflate h)"
proof -
  from timed_okE [OF ok(1)] obtain mx enc where m: "Max_h h = Inr mx" "EncodeV2 deflate h = Inr enc"
    "list_all is_num_char (show_f (fdivide (of_int64 mx) MsToNsRatio))" "newline \<notin> set (chars_of enc)" by metis
  have "newline \<notin> set ''Tag=''" "newline \<notin> set '',''" by (simp_all add: newline_code)
  then show ?thesis using ok(2) interval_text_no_newline [OF show_fixed_chars show_fixed_chars m(3,4)] m(1,2)
    by (simp add: line_of_def del: show_f.simps)
qed

text \<open>The histogram as the reader returns it.\<close>

definition restored :: "histogram \<Rightarrow> histogram \<Rightarrow> bool" where
  "restored h h' \<longleftrightarrow>
     (let s = startTimeMs h; e = endTimeMs h
      in startTimeMs h' = read_start_ms s \<and> startTimeMs h' \<in> {s - 1, s} \<and> (s mod 1000 = 0 \<longrightarrow> startTimeMs h' = s) \<and> endTimeMs h' \<in> {e - 1, e} \<and>
         h' = h\<lparr>startTimeMs := startTimeMs h', endTimeMs := endTimeMs h',
                conversionRatio := getIntegerToDoubleValueConversionRatio h\<rparr>)"

text \<open>The reader before an interval that starts at \<open>x\<close> seconds: no base time, or none that will be deduced.\<close>

definition ready :: "log_reader \<Rightarrow> rat \<Rightarrow> bool" where
  "ready r x \<longleftrightarrow>
     (if observedBaseTime r then baseTimeSec r = Fin 0
      else observedStartTime r \<longrightarrow> (\<exists>st. startTimeSec r = Fin st \<and> 0 \<le> st \<and> st \<le> x))"

lemma observe_times_ready:
  assumes "ready r x" "0 \<le> x" "x \<le> 8000000000" "dyadic x"
  shows "baseTimeSec (observe_times (Fin x) r) = Fin 0" "observedBaseTime (observe_times (Fin x) r)"
proof -
  have early: "\<not> fless (Fin x) (fsub (Fin st) (Fin (365 * 24 * 3600)))" if st: "0 \<le> st" "st \<le> x" for st
  proof -
    have "fsub (Fin st) (Fin (365 * 24 * 3600)) = Fin (round64 (st - 31536000))"
      using st assms(3) by (simp add: fsub_def of_rat64_fin)
    moreover have "round64 (st - 31536000) \<le> round64 x" using st by (intro round64_mono) simp
    ultimately show ?thesis by (simp add: round64_exact [OF assms(4)])
  qed
  show "baseTimeSec (observe_times (Fin x) r) = Fin 0" "observedBaseTime (observe_times (Fin x) r)"
    using assms(1) early [of x] early assms(2) by (auto simp: observe_times_def ready_def Let_def split: if_splits)
qed

lemma max_finite_large: "8000000000 \<le> max_finite"
proof -
  have "(1 :: rat) \<le> 2 ^ 971" by (rule one_le_power) simp
  then have "(2 ^ 53 - 1) * 1 \<le> (2 ^ 53 - 1) * (2 :: rat) ^ 971" by (intro mult_left_mono) simp_all
  then show ?thesis unfolding max_finite_def by (rule order_trans [rotated]) simp
qed

lemma take_interval_ready:
  assumes ok: "timed_ok lg deflate h" and lg: "log2_ok lg" and z: "zlib_ok deflate inflate" and e: "EncodeV2 deflate h = Inr enc"
    and r: "ready r (seconds (startTimeMs h))" and range: "absolute r" "rangeStartTimeSec r = Fin 0" "rangeEndTimeSec r = Fin max_finite"
  obtains h' r' where "\<And>t. take_interval lg inflate t (Fin (seconds (startTimeMs h)))
      (Fin (read_length (startTimeMs h) (endTimeMs h))) (chars_of enc) r =
      Return (Some (if t \<noteq> [] then SetTag h' t else h')) None r'"
    "restored (h\<lparr>tag := []\<rparr>) h'" "rd_log r' = rd_log r" "rd_end r' = rd_end r" "observedBaseTime r'" "baseTimeSec r' = Fin 0"
proof -
  let ?s = "startTimeMs h" and ?e = "endTimeMs h"
  let ?x = "seconds ?s"
  have c: "configured lg h" "MinInt64 \<le> highestTrackableValue h" and t: "time_ok ?s" "time_ok ?e" "?s \<le> ?e"
    using ok by (simp_all add: timed_ok_def)
  from timed_okE [OF ok(1)] e have len: "int (length enc) \<le> 2147483647" by (metis sum.inject(2))
  note b = seconds_bounds [OF t(1)] and ob = observe_times_ready [OF r seconds_bounds(1) [OF t(1)] seconds_bounds(2) [OF t(1)] seconds_bounds(4) [OF t(1)]]
  let ?r = "observe_times (Fin ?x) r"
  have keep: "absolute ?r" "rangeStartTimeSec ?r = Fin 0" "rangeEndTimeSec ?r = Fin max_finite" "rd_end ?r = rd_end r"
    using range by (simp_all add: observe_times_def Let_def)
  have base: "fadd (Fin ?x) (baseTimeSec ?r) = Fin ?x"
    using b by (simp add: ob of_rat64_fin round64_exact)
  let ?d = "h\<lparr>tag := [], startTimeMs := 0, endTimeMs := 0, conversionRatio := getIntegerToDoubleValueConversionRatio h\<rparr>"
  have d: "Decode lg inflate enc = Inr ?d"
    using Decode_Encode [OF lg c z _ len] e by (simp add: EncodeV2_def)
  with Decode_configured [OF lg] have "configured lg ?d" by blast
  then have "hist_ok ?d" by (simp add: configured_def)
  from Max_h_range [OF this] obtain mx where mx: "Max_h ?d = Inr mx" .
  have "\<exists>mn. Min_h ?d = Inr mn" using Min_h_eq [OF \<open>hist_ok ?d\<close>] by simp
  then obtain mn where mn: "Min_h ?d = Inr mn" ..
  have "?x \<le> max_finite" using b(2) max_finite_large by linarith
  then have in_range: "\<not> fless (Fin max_finite) (Fin ?x)" "\<not> fless (Fin ?x) (Fin 0)" using b(1) by simp_all
  define s' e' where "s' = read_start_ms ?s"
    and "e' = to_int64 (fmul (Fin (end_seconds ?s ?e)) (Fin 1000))"
  define h' where "h' = ?d\<lparr>startTimeMs := s', endTimeMs := e'\<rparr>"
  define r1 where "r1 = (if mx > rangeObservedMax ?r then ?r\<lparr>rangeObservedMax := mx\<rparr> else ?r)"
  define r2 where "r2 = (if mn < rangeObservedMin r1 then r1\<lparr>rangeObservedMin := mn\<rparr> else r1)"
  have go: "take_interval lg inflate t (Fin ?x) (Fin (read_length ?s ?e)) (chars_of enc) r =
      Return (Some (if t \<noteq> [] then SetTag h' t else h')) None r2" for t
    unfolding take_interval_def Let_def base keep(2,3) using keep(1) in_range
    by (simp add: d mx mn end_ms(1) [OF t] h'_def r1_def r2_def s'_def read_start_ms_def e'_def SetStartTimeMs_def SetEndTimeMs_def
        del: fmul.simps fadd.simps)
  have "restored (h\<lparr>tag := []\<rparr>) h'"
    using start_ms [OF t(1)] end_ms(2) [OF t] start_exact [OF t(1)]
    by (auto simp: restored_def h'_def s'_def e'_def Let_def getIntegerToDoubleValueConversionRatio_def mod_eq_0_iff_dvd
        simp del: fmul.simps)
  moreover have "rd_log r2 = rd_log r" "rd_end r2 = rd_end r" "observedBaseTime r2" "baseTimeSec r2 = Fin 0"
    using ob keep by (simp_all add: r1_def r2_def)
  ultimately show ?thesis by (rule that [OF go])
qed

lemma show_fixed_Cons: "\<exists>c cs. show_fixed m = c # cs \<and> is_digit c"
  using show_nat_nonempty [of "m div 1000000"] digits_show_nat [of "m div 1000000"]
  by (cases "show_nat (m div 1000000)") (auto simp: show_fixed_def)

lemma takeWhile_comma:
  "CHR '','' \<notin> set t \<Longrightarrow> takeWhile (\<lambda>c. c \<noteq> CHR '','') (t @ CHR '','' # rest) = t"
  "CHR '','' \<notin> set t \<Longrightarrow> dropWhile (\<lambda>c. c \<noteq> CHR '','') (t @ CHR '','' # rest) = CHR '','' # rest"
  by (induction t) auto

lemma read_interval:
  assumes ok: "interval_ok lg deflate h" and lg: "log2_ok lg" and z: "zlib_ok deflate inflate"
    and r: "ready r (seconds (startTimeMs h))" and range: "absolute r" "rangeStartTimeSec r = Fin 0" "rangeEndTimeSec r = Fin max_finite"
  obtains h' r' where "log_line lg inflate [] (line_of deflate h @ [newline]) r = Return (Some h') None r'"
    "restored h h'" "rd_log r' = rd_log r" "rd_end r' = rd_end r" "observedBaseTime r'" "baseTimeSec r' = Fin 0"
proof -
  let ?s = "startTimeMs h" and ?e = "endTimeMs h"
  have tk: "timed_ok lg deflate h" using ok by (simp add: interval_ok_def)
  from timed_okE [OF tk] obtain mx enc where m: "Max_h h = Inr mx" "EncodeV2 deflate h = Inr enc"
    "list_all is_num_char (show_f (fdivide (of_int64 mx) MsToNsRatio))" "newline \<notin> set (chars_of enc)" by metis
  have t: "time_ok ?s" "time_ok ?e" "?s \<le> ?e" and g: "CHR '','' \<notin> set (tag h)"
    using ok by (simp_all add: interval_ok_def timed_ok_def tag_ok_def)
  let ?a = "show_fixed (millionths (seconds ?s))" and ?b = "show_fixed (millionths (length_of ?s ?e))"
  let ?l = "interval_text ?a ?b (show_f (fdivide (of_int64 mx) MsToNsRatio)) (chars_of enc) @ [newline]"
  from take_interval_ready [OF tk lg z m(2) r range] obtain h' r' where T:
    "\<And>u. take_interval lg inflate u (Fin (seconds ?s)) (Fin (read_length ?s ?e)) (chars_of enc) r =
       Return (Some (if u \<noteq> [] then SetTag h' u else h')) None r'"
    "restored (h\<lparr>tag := []\<rparr>) h'" and R: "rd_log r' = rd_log r" "rd_end r' = rd_end r" "observedBaseTime r'" "baseTimeSec r' = Fin 0"
    by metis
  have I: "interval_line lg inflate u ?l r = Return (Some (if u \<noteq> [] then SetTag h' u else h')) None r'" for u
    using T(1) [of u] match_interval_line [OF show_fixed_chars show_fixed_chars m(3,4)]
    by (simp add: interval_line_def read_start [OF t(1)] read_length(1) [OF t] del: match_interval.simps)
  have L: "log_line lg inflate [] (line_of deflate h @ [newline]) r = Return (Some (if tag h \<noteq> [] then SetTag h' (tag h) else h')) None r'"
  proof (cases "tag h = []")
    case True
    obtain c cs where c: "?a = c # cs" "is_digit c" using show_fixed_Cons by blast
    then have hd: "c \<noteq> CHR ''#''" "c \<noteq> CHR ''T''" by (auto simp: is_digit_def)
    have "?l = c # drop 1 ?l" by (simp add: interval_text_def c(1))
    then obtain rest where rest: "?l = c # rest" by metis
    have "log_line lg inflate [] ?l r = interval_line lg inflate [] ?l r"
      unfolding rest using hd by (subst log_line_eq) simp_all
    with I [of "[]"] True m show ?thesis by (simp add: line_of_def)
  next
    case False
    have "line_of deflate h @ [newline] = ''Tag='' @ tag h @ CHR '','' # ?l" using False m by (simp add: line_of_def)
    moreover have "log_line lg inflate [] (''Tag='' @ tag h @ CHR '','' # ?l) r = interval_line lg inflate (tag h) ?l r"
      using g takeWhile_comma [of "tag h" ?l] by (simp add: log_line_eq)
    ultimately show ?thesis using I [of "tag h"] by simp
  qed
  have "restored h (if tag h \<noteq> [] then SetTag h' (tag h) else h')"
    using T(2) by (auto simp: restored_def SetTag_def Let_def getIntegerToDoubleValueConversionRatio_def)
  then show ?thesis using that L R by blast
qed

section \<open>A whole log\<close>

datatype log_entry = Comment string | Legend | Version | StartTime int | Dense histogram | Sparse packed

fun write_entry :: "(byte list \<Rightarrow> byte list) \<Rightarrow> log_writer \<Rightarrow> log_entry \<Rightarrow> error option \<times> log_writer" where
  "write_entry deflate lw (Comment c) = (None, OutputComment lw c)"
| "write_entry deflate lw Legend = (None, OutputLegend lw)"
| "write_entry deflate lw Version = (None, OutputLogFormatVersion lw)"
| "write_entry deflate lw (StartTime m) = (None, OutputStartTime lw m)"
| "write_entry deflate lw (Dense h) = OutputIntervalHistogram deflate lw h"
| "write_entry deflate lw (Sparse p) = OutputIntervalPackedHistogram deflate lw p"

fun write_log :: "(byte list \<Rightarrow> byte list) \<Rightarrow> log_writer \<Rightarrow> log_entry list \<Rightarrow> error option \<times> log_writer" where
  "write_log deflate lw [] = (None, lw)"
| "write_log deflate lw (e # es) =
     (case write_entry deflate lw e of
        (Some err, lw') \<Rightarrow> (Some err, lw')
      | (None, lw') \<Rightarrow> write_log deflate lw' es)"

fun intervals :: "log_entry list \<Rightarrow> histogram list" where
  "intervals [] = []"
| "intervals (Dense h # es) = h # intervals es"
| "intervals (Sparse p # es) = dense_of p # intervals es"
| "intervals (_ # es) = intervals es"

text \<open>A comment must not be taken for a start or a base time.\<close>

definition plain_comment :: "string \<Rightarrow> bool" where
  "plain_comment c \<longleftrightarrow> newline \<notin> set c \<and>
     after_literal ''#[StartTime: '' (CHR ''#'' # c @ [newline]) = None \<and>
     after_literal ''#[BaseTime: '' (CHR ''#'' # c @ [newline]) = None"

fun entry_ok :: "(int \<Rightarrow> int) \<Rightarrow> (byte list \<Rightarrow> byte list) \<Rightarrow> log_entry \<Rightarrow> bool" where
  "entry_ok lg deflate (Comment c) = plain_comment c"
| "entry_ok lg deflate (StartTime m) = time_ok m"
| "entry_ok lg deflate (Dense h) = interval_ok lg deflate h"
| "entry_ok lg deflate (Sparse p) = (packed_ok p \<and> sum_list (slots p) \<le> MaxInt64 \<and> interval_ok lg deflate (dense_of p))"
| "entry_ok lg deflate _ = True"

fun entry_line :: "(byte list \<Rightarrow> byte list) \<Rightarrow> log_entry \<Rightarrow> string" where
  "entry_line deflate (Comment c) = CHR ''#'' # c"
| "entry_line deflate Legend = quoted ''StartTimestamp'' @ '','' @ quoted ''Interval_Length'' @ '','' @ quoted ''Interval_Max'' @ '','' @
             quoted ''Interval_Compressed_Histogram''"
| "entry_line deflate Version = ''#[Histogram log format version 1.3]''"
| "entry_line deflate (StartTime m) = ''#[StartTime: '' @ show_nat (nat (m div 1000)) @ '' (seconds since epoch), '' @ show_rfc3339 (m div 1000) @ '']''"
| "entry_line deflate (Dense h) = line_of deflate h"
| "entry_line deflate (Sparse p) = line_of deflate (dense_of p)"

lemma packed_line:
  assumes "packed_ok p" "sum_list (slots p) \<le> MaxInt64"
  shows "packed_interval deflate p = dense_interval deflate (dense_of p)"
  using packed_extrema(1) [OF assms] packed_encode_parity [OF assms]
  by (simp add: packed_interval_def dense_interval_def EncodeV2_def EncodeV2_p_def dense_of_def)

lemma write_entry_line:
  assumes "entry_ok lg deflate e" "baseTime lw = 0"
  shows "write_entry deflate lw e = (None, put lw (entry_line deflate e @ [newline]))"
proof (cases e)
  case (StartTime m)
  then have m: "0 \<le> m" using assms(1) by (simp add: time_ok_def)
  then have q: "quot m 1000 = m div 1000" by (simp add: quot_def sgn_if)
  then have "go_rem m 1000 = m mod 1000" by (simp add: go_rem_def minus_mult_div_eq_mod)
  with q have "quot m 1000 = m div 1000" "\<not> go_rem m 1000 < 0" by (simp_all add: not_less)
  moreover have "0 \<le> m div 1000" using m by simp
  ultimately show ?thesis by (simp add: StartTime OutputStartTime_def show_int_def Let_def not_less)
next
  case (Sparse p)
  then have "OutputIntervalPackedHistogram deflate lw p = OutputIntervalHistogram deflate lw (dense_of p)"
    using assms(1) by (simp add: OutputIntervalPackedHistogram_def OutputIntervalPackedHistogramWithLogOptions_def
        OutputIntervalHistogram_def OutputIntervalHistogramWithLogOptions_def packed_line)
  moreover have "OutputIntervalHistogram deflate lw (dense_of p) = (None, put lw (line_of deflate (dense_of p) @ [newline]))"
    using assms Sparse by (intro write_interval [of lg]) (simp_all add: interval_ok_def tag_ok_def)
  ultimately show ?thesis using Sparse by simp
next
  case (Dense h)
  then show ?thesis using assms by (simp add: write_interval [of lg] interval_ok_def tag_ok_def)
qed (simp_all add: OutputComment_def OutputLegend_def OutputLogFormatVersion_def HISTOGRAM_LOG_FORMAT_VERSION_def)

lemma write_log_text:
  assumes "list_all (entry_ok lg deflate) es" "baseTime lw = 0"
  shows "write_log deflate lw es = (None, put lw (concat (map (\<lambda>e. entry_line deflate e @ [newline]) es)))"
  using assms
proof (induction es arbitrary: lw)
  case Nil
  then show ?case by (simp add: put_def)
next
  case (Cons e es)
  have "write_entry deflate lw e = (None, put lw (entry_line deflate e @ [newline]))"
    using write_entry_line [of lg deflate e lw] Cons.prems by simp
  moreover have "write_log deflate (put lw (entry_line deflate e @ [newline])) es =
      (None, put (put lw (entry_line deflate e @ [newline])) (concat (map (\<lambda>e. entry_line deflate e @ [newline]) es)))"
    using Cons.prems by (intro Cons.IH) (simp_all add: put_def)
  ultimately show ?case by (simp add: put_def)
qed

lemma show_rfc3339_no_newline: "newline \<notin> set (show_rfc3339 s)"
proof -
  have p: "newline \<notin> set (pad_digits k n)" "newline \<notin> set (show_nat n)" for k n
    using digits_pad digits_show_nat by (simp_all add: digits_no_newline)
  have c: "newline \<noteq> CHR ''-''" "newline \<noteq> CHR ''T''" "newline \<noteq> CHR '':''" "newline \<noteq> CHR ''Z''" by (simp_all add: newline_code)
  show ?thesis using p c by (simp add: show_rfc3339_def show_year_def Let_def split: prod.split)
qed

lemma entry_line_no_newline:
  assumes "entry_ok lg deflate e"
  shows "newline \<notin> set (entry_line deflate e)"
proof (cases e)
  case (StartTime m)
  have "newline \<notin> set (show_nat n)" for n using digits_show_nat by (simp add: digits_no_newline)
  moreover have "newline \<notin> set ''#[StartTime: ''" "newline \<notin> set '' (seconds since epoch), ''" "newline \<notin> set '']''"
    by (simp_all add: newline_code)
  ultimately show ?thesis using StartTime show_rfc3339_no_newline by simp
next
  case (Comment c)
  then show ?thesis using assms by (simp add: plain_comment_def) (simp add: newline_code)
qed (use assms in \<open>auto simp: newline_code quoted_def interval_ok_def tag_ok_def dest: line_of_no_newline\<close>)

lemma ParseFloat_show_nat:
  assumes "int n \<le> 2 ^ 53"
  shows "ParseFloat (show_nat n) = (Fin (of_nat n), None)"
proof -
  have t: "takeWhile is_digit (show_nat n) = show_nat n" "dropWhile is_digit (show_nat n) = []"
    using digits_show_nat [of n] by (simp_all add: takeWhile_eq_all_conv list_all_iff)
  have "of_rat64 (of_nat n) = Fin (of_nat n)"
    using of_int64_exact [of "int n"] assms by (simp add: of_int64_def)
  then show ?thesis using show_nat_nonempty [of n] by (simp add: ParseFloat_def t digits_val_show_nat)
qed

lemma read_start_time:
  assumes "time_ok m"
  shows "log_line lg inflate t (entry_line deflate (StartTime m) @ [newline]) r =
     Continue t (r\<lparr>startTimeSec := Fin (of_int (m div 1000)), observedStartTime := True\<rparr>)"
proof -
  let ?n = "nat (m div 1000)"
  let ?rest = "'' (seconds since epoch), '' @ show_rfc3339 (m div 1000) @ '']'' @ [newline]"
  have b: "0 \<le> m div 1000" "m div 1000 \<le> 8000000000" using assms by (auto simp: time_ok_def)
  then have m: "0 \<le> m div 1000" "int ?n \<le> 2 ^ 53" "rat_of_nat ?n = of_int (m div 1000)" by simp_all
  have "list_all is_num_char (show_nat ?n)" using digits_show_nat [of ?n] by (auto simp: list_all_iff)
  then have "takeWhile is_num_char (show_nat ?n @ ?rest) = show_nat ?n"
    by (simp add: list_all_iff is_num_char_def is_digit_def)
  moreover have "after_literal ''#[StartTime: '' (''#[StartTime: '' @ show_nat ?n @ ?rest) = Some (show_nat ?n @ ?rest)"
    by (subst after_literal.simps) simp
  ultimately have "match_literal_number ''#[StartTime: '' (''#[StartTime: '' @ show_nat ?n @ ?rest) = Some (show_nat ?n)"
    by (simp add: match_literal_number_def)
  then show ?thesis
    by (simp add: log_line_eq comment_line_def ParseFloat_show_nat [OF m(2)] m(3))
qed

lemma read_comment: "plain_comment c \<Longrightarrow> log_line lg inflate t (CHR ''#'' # c @ [newline]) r = Continue t r"
  by (simp add: log_line_eq comment_line_def plain_comment_def match_literal_number_def)

lemma read_version: "log_line lg inflate t (entry_line deflate Version @ [newline]) r = Continue t r"
proof -
  have "plain_comment (tl (entry_line deflate Version))" unfolding entry_line.simps by code_simp
  from read_comment [OF this] show ?thesis by simp
qed

lemma read_legend: "log_line lg inflate t (entry_line deflate Legend @ [newline]) r = Continue t r"
proof -
  have "match_interval (entry_line deflate Legend @ [newline]) = None" unfolding entry_line.simps by code_simp
  then show ?thesis by (simp add: log_line_eq interval_line_def quoted_def)
qed

text \<open>The reader with the range of \<open>NextIntervalHistogram\<close>.\<close>

definition whole_range :: "log_reader \<Rightarrow> log_reader" where
  "whole_range r = r\<lparr>rangeStartTimeSec := Fin 0, rangeEndTimeSec := Fin max_finite, absolute := True\<rparr>"

lemma Next_loop: "NextIntervalHistogram lg inflate r = decode_loop lg inflate [] (whole_range r)"
  by (simp add: NextIntervalHistogram_def NextIntervalHistogramWithRange_def decodeNextIntervalHistogram_def whole_range_def)

lemma whole_range_idem [simp]: "whole_range (whole_range r) = whole_range r"
  by (simp add: whole_range_def)

lemma log_line_step:
  assumes "newline \<notin> set l" "rd_log r = l @ newline # rest"
  shows "decode_loop lg inflate t r = (case log_line lg inflate t (l @ [newline]) (r\<lparr>rd_log := rest\<rparr>) of
      Return h e r2 \<Rightarrow> ((h, e), r2) | Continue t' r2 \<Rightarrow> decode_loop lg inflate t' r2)"
  by (subst decode_loop.simps) (simp add: ReadString_line [OF assms])

text \<open>What is known of the reader before the histograms still to come.\<close>

definition ready_for :: "log_reader \<Rightarrow> histogram list \<Rightarrow> bool" where
  "ready_for r hs \<longleftrightarrow> (\<forall>h \<in> set hs. ready r (seconds (startTimeMs h)))"

text \<open>Every start time in the log is before the intervals that follow.\<close>

fun in_time :: "log_entry list \<Rightarrow> bool" where
  "in_time [] = True"
| "in_time (StartTime m # es) = ((\<forall>h \<in> set (intervals es). m \<le> startTimeMs h) \<and> in_time es)"
| "in_time (_ # es) = in_time es"

lemma ready_after_start:
  assumes "ready_for r hs" "time_ok m" "\<forall>h \<in> set hs. m \<le> startTimeMs h"
  shows "ready_for (r\<lparr>startTimeSec := Fin (of_int (m div 1000)), observedStartTime := True\<rparr>) hs"
proof -
  have m: "0 \<le> m div 1000" "m div 1000 \<le> 8000000000" using assms(2) by (auto simp: time_ok_def)
  have "of_int (m div 1000) \<le> seconds (startTimeMs h)" if h: "h \<in> set hs" for h
  proof -
    have "1000 * (m div 1000) \<le> startTimeMs h" using assms(3) h mult_div_mod_eq [of 1000 m] pos_mod_sign [of 1000 m] by force
    then have "of_int (m div 1000) \<le> (of_int (startTimeMs h) :: rat) / 1000" by (simp add: field_simps flip: of_int_mult)
    then have "round64 (of_int (m div 1000)) \<le> seconds (startTimeMs h)" unfolding seconds_def by (rule round64_mono)
    then show ?thesis using round64_exact [OF dyadic_of_int [of "m div 1000"]] m by simp
  qed
  then show ?thesis using assms(1) m by (auto simp: ready_for_def ready_def)
qed

section \<open>Any input\<close>

lemma hist_ok_extrema:
  assumes "hist_ok h"
  obtains mx mn where "Max_h h = Inr mx" "Min_h h = Inr mn"
  using Max_h_eq [OF assms] Min_h_eq [OF assms] by metis

lemma configured_metadata:
  "configured lg h \<Longrightarrow> configured lg (h\<lparr>startTimeMs := s, endTimeMs := e\<rparr>)"
  "configured lg h \<Longrightarrow> configured lg (SetTag h t)"
  by (simp_all add: configured_header cleared_def hist_ok_def SetTag_def)

text \<open>What a line can make the reader return: an error that is no panic, nothing, or a sound histogram; the
  reader keeps its input.\<close>

definition sound :: "(int \<Rightarrow> int) \<Rightarrow> nat \<Rightarrow> histogram option \<Rightarrow> error option \<Rightarrow> bool" where
  "sound lg n h e \<longleftrightarrow> (\<forall>err. e = Some err \<longrightarrow> refused n err \<and> h = None) \<and> (\<forall>h'. h = Some h' \<longrightarrow> configured lg h')"

fun outcome_ok :: "(int \<Rightarrow> int) \<Rightarrow> nat \<Rightarrow> log_reader \<Rightarrow> outcome \<Rightarrow> bool" where
  "outcome_ok lg n r (Continue t r') = (rd_log r' = rd_log r \<and> rd_end r' = rd_end r)"
| "outcome_ok lg n r (Return h e r') = (rd_log r' = rd_log r \<and> rd_end r' = rd_end r \<and> (log2_ok lg \<longrightarrow> sound lg n h e))"

lemma sound_mono: "sound lg m h e \<Longrightarrow> m \<le> n \<Longrightarrow> sound lg n h e"
  by (auto simp: sound_def intro: refused_mono)

lemma outcome_ok_mono: "outcome_ok lg m r out \<Longrightarrow> m \<le> n \<Longrightarrow> outcome_ok lg n r out"
  by (cases out) (auto intro: sound_mono)

lemma number_comma_length: "number_comma s = Some (a, s') \<Longrightarrow> length s' \<le> length s"
  using length_dropWhile_le [of is_num_char s] by (auto simp: number_comma_def split: list.splits if_splits)

lemma interval_here_length: "interval_here s = Some (a, b, c, p) \<Longrightarrow> length p \<le> length s"
  by (auto simp: interval_here_def dest!: number_comma_length split: option.splits prod.splits
      intro: order_trans [OF length_takeWhile_le])

lemma match_interval_length: "match_interval s = Some (a, b, c, p) \<Longrightarrow> length p \<le> length s"
  by (induction s) (auto split: option.splits dest: interval_here_length)

lemma ParseFloat_clean: "ParseFloat s = (v, Some e) \<Longrightarrow> clean e"
  by (auto simp: ParseFloat_def Let_def split: if_splits f64.splits)

lemma comment_line_ok: "outcome_ok lg n r (comment_line t line r)"
  by (auto simp: comment_line_def sound_def ParseFloat_clean clean_refused split: option.split prod.split)

lemma take_interval_ok: "outcome_ok lg (length c) r (take_interval lg inflate t a b c r)"
proof -
  let ?r = "observe_times a r"
  have k: "rd_log ?r = rd_log r" "rd_end ?r = rd_end r" by (simp_all add: observe_times_def Let_def)
  show ?thesis
  proof (cases "Decode lg inflate (bytes_of c)")
    case (Inl e)
    have "length (bytes_of c) = length c" by (simp add: bytes_of_def)
    with Inl have "log2_ok lg \<Longrightarrow> refused (length c) e" using Decode_sound [of lg "bytes_of c" inflate] by simp
    then show ?thesis by (simp add: take_interval_def Let_def Inl k sound_def)
  next
    case (Inr h)
    then have h: "log2_ok lg \<Longrightarrow> configured lg h" using Decode_configured [of lg inflate "bytes_of c"] by blast
    have m: "log2_ok lg \<Longrightarrow> \<exists>mx mn. Max_h h = Inr mx \<and> Min_h h = Inr mn"
      using hist_ok_extrema [of h] h by (metis configured_def)
    show ?thesis
    proof (cases "\<exists>mx mn. Max_h h = Inr mx \<and> Min_h h = Inr mn")
      case True
      then obtain mx mn where "Max_h h = Inr mx" "Min_h h = Inr mn" by blast
      then show ?thesis
        by (simp add: take_interval_def Let_def Inr k sound_def SetStartTimeMs_def SetEndTimeMs_def configured_metadata h)
    next
      case False
      with m have "\<not> log2_ok lg" by blast
      then show ?thesis
        by (simp add: take_interval_def Let_def Inr k split: sum.split)
    qed
  qed
qed

lemma interval_line_ok: "outcome_ok lg (length line) r (interval_line lg inflate t line r)"
proof (cases "match_interval line")
  case (Some m)
  obtain a b c p where m: "m = (a, b, c, p)" by (cases m)
  have "outcome_ok lg (length line) r (take_interval lg inflate t x y p r)" for x y
    using take_interval_ok match_interval_length [OF Some [unfolded m]] by (rule outcome_ok_mono)
  then show ?thesis
    by (auto simp: interval_line_def Some m sound_def ParseFloat_clean clean_refused split: option.split prod.split)
qed (simp add: interval_line_def)

lemma log_line_ok:
  assumes "line \<noteq> []"
  shows "outcome_ok lg (length line) r (log_line lg inflate t line r)"
proof -
  have i: "outcome_ok lg (length line) r (interval_line lg inflate t' rest r)"
    if "dropWhile (\<lambda>c. c \<noteq> CHR '','') line = c # rest" for t' c rest
    using length_dropWhile_le [of "\<lambda>c. c \<noteq> CHR '',''" line]
    unfolding that by (intro outcome_ok_mono [OF interval_line_ok]) simp
  show ?thesis using interval_line_ok comment_line_ok
    by (auto simp: log_line_eq [OF assms] intro: i split: list.split)
qed

lemma ReadString_complete: "ReadString r = (line, e, r1) \<Longrightarrow> e = Complete \<Longrightarrow> line \<noteq> []"
  by (auto simp: ReadString_def Let_def split: list.splits option.splits)

lemma decode_loop_unfold:
  "ReadString r = (line, e, r1) \<Longrightarrow> decode_loop lg inflate t r =
     (case e of
        Failed err \<Rightarrow> ((None, Some err), r1)
      | _ \<Rightarrow> if line = [] then ((None, None), r1)
             else case log_line lg inflate t line r1 of
                    Return h e r2 \<Rightarrow> ((h, e), r2)
                  | Continue t' r2 \<Rightarrow> decode_loop lg inflate t' r2)"
  using ReadString_complete [of r line e r1] by (subst decode_loop.simps) (auto split: line_end.split)

lemma ReadString_parts:
  assumes "ReadString r = (line, e, r1)"
  shows "rd_log r = line @ rd_log r1" "rd_end r1 = rd_end r" "e = Failed err \<Longrightarrow> rd_end r = Some err"
proof -
  have id: "takeWhile (\<lambda>c. c \<noteq> newline) (rd_log r) @ dropWhile (\<lambda>c. c \<noteq> newline) (rd_log r) = rd_log r" by (rule takeWhile_dropWhile_id)
  show "rd_log r = line @ rd_log r1" using assms id
    by (cases "dropWhile (\<lambda>c. c \<noteq> newline) (rd_log r)") (auto simp: ReadString_def Let_def simp del: takeWhile_dropWhile_id)
  show "rd_end r1 = rd_end r" "e = Failed err \<Longrightarrow> rd_end r = Some err"
    using assms by (auto simp: ReadString_def Let_def split: list.splits option.splits)
qed

lemma decode_loop_ok:
  "decode_loop lg inflate t r = ((h, e), r') \<Longrightarrow>
     (log2_ok lg \<and> (\<forall>err. rd_end r = Some err \<longrightarrow> clean err) \<longrightarrow> sound lg (length (rd_log r)) h e) \<and> rd_end r' = rd_end r \<and> suffix (rd_log r') (rd_log r) \<and> (rd_log r = [] \<or> rd_log r' \<noteq> rd_log r)"
proof (induction "length (rd_log r)" arbitrary: t r rule: less_induct)
  case less
  obtain line k r1 where R: "ReadString r = (line, k, r1)" by (metis prod_cases3)
  note P = ReadString_parts [OF R] and U = decode_loop_unfold [OF R, of lg inflate t, unfolded less.prems]
  show ?case
  proof (cases "line = [] \<or> (\<exists>err. k = Failed err)")
    case True
    have "rd_log r1 = [] \<or> line \<noteq> []" using R by (auto simp: ReadString_def Let_def split: list.splits)
    moreover have "rd_log r1 = []" if "k = Failed err" for err
      using R that by (auto simp: ReadString_def Let_def split: list.splits)
    ultimately have "rd_log r1 = []" using True by blast
    moreover have "r' = r1 \<and> h = None \<and> (e = None \<or> k = Failed (the e) \<and> e \<noteq> None)"
      using True U by (cases k) auto
    ultimately show ?thesis using P by (auto simp: sound_def suffix_def clean_refused)
  next
    case False
    then have U': "((h, e), r') = (case log_line lg inflate t line r1 of
        Return h e r2 \<Rightarrow> ((h, e), r2) | Continue t' r2 \<Rightarrow> decode_loop lg inflate t' r2)"
      using U by (cases k) simp_all
    show ?thesis
    proof (cases "log_line lg inflate t line r1")
      case (Return h2 e2 r2)
      have "sound lg (length line) h e \<Longrightarrow> sound lg (length (rd_log r)) h e" by (erule sound_mono) (simp add: P(1))
      with Return show ?thesis using log_line_ok [of line lg r1 inflate t] U' P False by (auto simp: suffix_def)
    next
      case (Continue t' r2)
      then have C: "rd_log r2 = rd_log r1" "rd_end r2 = rd_end r1" using log_line_ok [of line lg r1 inflate t] False by simp_all
      have I: "(log2_ok lg \<and> (\<forall>err. rd_end r2 = Some err \<longrightarrow> clean err) \<longrightarrow> sound lg (length (rd_log r2)) h e) \<and> rd_end r' = rd_end r2 \<and> suffix (rd_log r') (rd_log r2) \<and> (rd_log r2 = [] \<or> rd_log r' \<noteq> rd_log r2)"
        using U' Continue C P False by (intro less.hyps) auto
      have sf: "suffix (rd_log r') (rd_log r)" using I C(1) by (simp add: P(1) suffix_appendI)
      have "length (rd_log r') \<le> length (rd_log r1)" using I C(1) by (simp add: suffix_length_le)
      moreover have "length (rd_log r1) < length (rd_log r)" using P(1) False by simp
      ultimately have "rd_log r' \<noteq> rd_log r" by auto
      moreover have "sound lg (length (rd_log r2)) h e \<Longrightarrow> sound lg (length (rd_log r)) h e"
        by (erule sound_mono) (simp add: C(1) P(1))
      ultimately show ?thesis using I C(2) P(2) sf by auto
    qed
  qed
qed

section \<open>Reading a whole log\<close>

text \<open>What a client does: call \<open>NextIntervalHistogram\<close> until it returns no histogram.\<close>

lemma Next_shorter:
  assumes "NextIntervalHistogram lg inflate r = ((Some h, e), r')"
  shows "length (rd_log r') < length (rd_log r)"
proof -
  have "rd_log r \<noteq> []"
  proof
    assume "rd_log r = []"
    then have "ReadString (whole_range r) = ([], (case rd_end r of None \<Rightarrow> AtEOF | Some x \<Rightarrow> Failed x), whole_range r)"
      by (simp add: ReadString_def whole_range_def)
    with assms show False by (simp add: Next_loop decode_loop_unfold split: option.splits)
  qed
  with decode_loop_ok [OF assms [unfolded Next_loop]] show ?thesis by (auto simp: whole_range_def suffix_def)
qed

function read_all :: "(int \<Rightarrow> int) \<Rightarrow> (byte list \<Rightarrow> (byte list \<times> stream_end) option) \<Rightarrow> log_reader \<Rightarrow> histogram list \<times> error option" where
  "read_all lg inflate r =
     (case NextIntervalHistogram lg inflate r of
        ((Some h, None), r') \<Rightarrow> (let (hs, e) = read_all lg inflate r' in (h # hs, e))
      | ((_, e), _) \<Rightarrow> ([], e))"
  by pat_completeness auto
termination
  by (relation "measure (\<lambda>(lg, inflate, r). length (rd_log r))") (auto dest: Next_shorter [OF sym])

declare read_all.simps [simp del]

lemma read_skip:
  assumes "newline \<notin> set l" "rd_log r = l @ newline # rest"
    and "log_line lg inflate [] (l @ [newline]) ((whole_range r)\<lparr>rd_log := rest\<rparr>) = Continue [] r1" "whole_range r1 = r1"
  shows "read_all lg inflate r = read_all lg inflate r1"
proof -
  have "decode_loop lg inflate [] (whole_range r) = decode_loop lg inflate [] r1"
    using log_line_step [of l "whole_range r" rest lg inflate "[]"] assms by (simp add: whole_range_def)
  then have "NextIntervalHistogram lg inflate r = NextIntervalHistogram lg inflate r1" by (simp add: Next_loop assms(4))
  then show ?thesis by (subst (1 2) read_all.simps) simp
qed

lemma ready_whole_range [simp]:
  "ready_for (whole_range r) hs = ready_for r hs" "ready_for (r\<lparr>rd_log := l\<rparr>) hs = ready_for r hs"
  "ready (whole_range r) x = ready r x" "ready (r\<lparr>rd_log := l\<rparr>) x = ready r x"
  by (simp_all add: ready_for_def ready_def whole_range_def)

lemma ready_for_tail [simp]: "ready_for r (h # hs) \<longleftrightarrow> ready r (seconds (startTimeMs h)) \<and> ready_for r hs"
  by (simp add: ready_for_def)

lemma ready_for_base: "observedBaseTime r \<Longrightarrow> baseTimeSec r = Fin 0 \<Longrightarrow> ready_for r hs"
  by (simp add: ready_for_def ready_def)

lemma read_one:
  assumes ok: "interval_ok lg deflate h" and lg: "log2_ok lg" and z: "zlib_ok deflate inflate"
    and r: "ready r (seconds (startTimeMs h))" and l: "rd_log r = line_of deflate h @ newline # rest"
  obtains h' r' where "read_all lg inflate r = (let (hs, e) = read_all lg inflate r' in (h' # hs, e))" "restored h h'"
    "rd_log r' = rest" "rd_end r' = rd_end r" "ready_for r' hs"
proof -
  let ?r = "(whole_range r)\<lparr>rd_log := rest\<rparr>"
  have n: "newline \<notin> set (line_of deflate h)" using ok line_of_no_newline [of lg deflate h] by (simp add: interval_ok_def tag_ok_def)
  have "ready ?r (seconds (startTimeMs h))" using r by simp
  from read_interval [OF ok lg z this] obtain h' r' where
    A: "log_line lg inflate [] (line_of deflate h @ [newline]) ?r = Return (Some h') None r'" "restored h h'"
    "rd_log r' = rest" "rd_end r' = rd_end r" "observedBaseTime r'" "baseTimeSec r' = Fin 0"
    by (auto simp: whole_range_def)
  have "NextIntervalHistogram lg inflate r = ((Some h', None), r')"
    using log_line_step [OF n, of "whole_range r" rest lg inflate "[]"] A(1) l
    by (simp add: Next_loop whole_range_def)
  then have "read_all lg inflate r = (let (hs, e) = read_all lg inflate r' in (h' # hs, e))" by (subst read_all.simps) simp
  then show ?thesis using that A ready_for_base by blast
qed

theorem read_all_lines:
  assumes lg: "log2_ok lg" and z: "zlib_ok deflate inflate"
  shows "list_all (entry_ok lg deflate) es \<Longrightarrow> in_time es \<Longrightarrow> ready_for r (intervals es) \<Longrightarrow> rd_end r = None \<Longrightarrow>
    rd_log r = concat (map (\<lambda>e. entry_line deflate e @ [newline]) es) \<Longrightarrow>
    \<exists>hs. read_all lg inflate r = (hs, None) \<and> list_all2 restored (intervals es) hs"
proof (induction es arbitrary: r)
  case Nil
  then have "ReadString (whole_range r) = ([], AtEOF, whole_range r)" by (simp add: ReadString_def whole_range_def)
  then have "NextIntervalHistogram lg inflate r = ((None, None), whole_range r)"
    by (simp add: Next_loop decode_loop_unfold)
  then have "read_all lg inflate r = ([], None)" by (subst read_all.simps) simp
  then show ?case by simp
next
  case (Cons e es)
  let ?rest = "concat (map (\<lambda>e. entry_line deflate e @ [newline]) es)"
  let ?r = "(whole_range r)\<lparr>rd_log := ?rest\<rparr>"
  have l: "rd_log r = entry_line deflate e @ newline # ?rest" using Cons.prems(5) by simp
  have n: "newline \<notin> set (entry_line deflate e)" using Cons.prems(1) by (intro entry_line_no_newline [of lg]) simp
  have w: "whole_range ?r = ?r" "rd_end ?r = None" using Cons.prems(4) by (simp_all add: whole_range_def)
  have hist: ?case if o: "interval_ok lg deflate h" "intervals (e # es) = h # intervals es" "entry_line deflate e = line_of deflate h"
    "in_time es" for h
  proof -
    have ry: "ready r (seconds (startTimeMs h))" and rl: "rd_log r = line_of deflate h @ newline # ?rest"
      using l o Cons.prems(3) by simp_all
    from read_one [where hs = "intervals es", OF o(1) lg z ry rl] obtain h' r' where
      A: "read_all lg inflate r = (let (hs, e) = read_all lg inflate r' in (h' # hs, e))" "restored h h'"
      "rd_log r' = ?rest" "rd_end r' = rd_end r" "ready_for r' (intervals es)" .
    obtain hs where "read_all lg inflate r' = (hs, None)" "list_all2 restored (intervals es) hs"
      using Cons.IH [of r'] A Cons.prems(1,4) o(4) by auto
    then show ?thesis using A(1,2) o(2) by simp
  qed
  have skip: ?case if s: "log_line lg inflate [] (entry_line deflate e @ [newline]) ?r = Continue [] ?r"
    "intervals (e # es) = intervals es" "in_time es"
  proof -
    have "ready_for ?r (intervals es)" using Cons.prems(3) s(2) by simp
    then show ?thesis using Cons.IH [of ?r] read_skip [OF n l s(1) w(1)] w(2) Cons.prems(1) s by simp
  qed
  show ?case
  proof (cases e)
    case (Comment c)
    then show ?thesis using read_comment [of c] Cons.prems(1,2) by (intro skip) simp_all
  next
    case Legend
    then show ?thesis using read_legend Cons.prems(2) by (intro skip) simp_all
  next
    case Version
    then show ?thesis using read_version Cons.prems(2) by (intro skip) simp_all
  next
    case (StartTime m)
    let ?r1 = "?r\<lparr>startTimeSec := Fin (of_int (m div 1000)), observedStartTime := True\<rparr>"
    have m: "time_ok m" "\<forall>h \<in> set (intervals es). m \<le> startTimeMs h" using Cons.prems(1,2) StartTime by simp_all
    have "read_all lg inflate r = read_all lg inflate ?r1"
      using read_start_time [OF m(1)] StartTime by (intro read_skip [OF n l]) (simp_all add: whole_range_def)
    moreover have "ready_for ?r1 (intervals es)" using Cons.prems(3) StartTime by (intro ready_after_start m) simp
    ultimately show ?thesis using Cons.IH [of ?r1] Cons.prems(1,2,4) StartTime w(2) by simp
  next
    case (Dense h)
    then show ?thesis using Cons.prems(1,2) by (intro hist [of h]) simp_all
  next
    case (Sparse p)
    then show ?thesis using Cons.prems(1,2) by (intro hist [of "dense_of p"]) simp_all
  qed
qed

section \<open>Properties\<close>

text \<open>C31: A log of comments, a legend, a version, start times and interval histograms of either kind
  is written without an error, and reading it to its end gives the same histograms in order, each
  with its counts, its tag and its end time and start time to the millisecond or one less (exactly,
  for a start time of whole seconds). The times go up to the year 2223, every start time line is
  before the intervals that follow it, and a tag has no separators.\<close>

theorem log_roundtrip:
  assumes "log2_ok lg" "zlib_ok deflate inflate" "list_all (entry_ok lg deflate) es" "in_time es"
  shows "\<exists>lw hs. write_log deflate (NewHistogramLogWriter []) es = (None, lw) \<and>
           read_all lg inflate (NewHistogramLogReader (wr_log lw) None) = (hs, None) \<and>
           list_all2 restored (intervals es) hs"
proof -
  let ?t = "concat (map (\<lambda>e. entry_line deflate e @ [newline]) es)"
  have w: "write_log deflate (NewHistogramLogWriter []) es = (None, put (NewHistogramLogWriter []) ?t)"
    by (intro write_log_text [of lg] assms) (simp add: NewHistogramLogWriter_def)
  have "ready_for (NewHistogramLogReader ?t None) (intervals es)"
    by (simp add: ready_for_def ready_def NewHistogramLogReader_def)
  then have "\<exists>hs. read_all lg inflate (NewHistogramLogReader ?t None) = (hs, None) \<and> list_all2 restored (intervals es) hs"
    by (intro read_all_lines [OF assms]) (simp_all add: NewHistogramLogReader_def)
  then show ?thesis using w by (auto simp: put_def NewHistogramLogWriter_def)
qed

lemma sample_timed:
  "timed_ok floor_log2 (\<lambda>bs. bs) (SetTag (sample_recorded\<lparr>startTimeMs := s, endTimeMs := e\<rparr>) t) \<longleftrightarrow> time_ok s \<and> time_ok e \<and> s \<le> e"
proof -
  let ?h = "SetTag (sample_recorded\<lparr>startTimeMs := s, endTimeMs := e\<rparr>) t"
  have c: "configured floor_log2 ?h" by (intro configured_metadata sample_recorded_configured)
  then have h: "hist_ok ?h" by (simp add: configured_def)
  have l: "length (counts ?h) = 64" by (simp add: sample_recorded_def SetTag_def)
  obtain bs where b: "length bs \<le> 40 + 9 * length (counts ?h)"
    "Encode (\<lambda>bs. bs) ?h V2CompressedEncodingCookieBase = Inr (EncodeToString (be_bytes 4 compressedEncodingCookie @
       be_bytes 4 (i32 (int (length bs))) @ bs))" using Encode_eq [OF h, of "\<lambda>bs. bs"] by metis
  have "length (EncodeToString (be_bytes 4 compressedEncodingCookie @ be_bytes 4 (i32 (int (length bs))) @ bs)) \<le> 4 * (8 + length bs)"
    using length_EncodeToString_le [of "be_bytes 4 compressedEncodingCookie @ be_bytes 4 (i32 (int (length bs))) @ bs"] by simp
  then have "case EncodeV2 (\<lambda>bs. bs) ?h of Inl e \<Rightarrow> False | Inr enc \<Rightarrow> int (length enc) \<le> 2147483647"
    using b l by (simp add: EncodeV2_def)
  moreover have "MinInt64 \<le> highestTrackableValue ?h" by (simp add: sample_recorded_def sample_geometry_def SetTag_def)
  ultimately show ?thesis using c by (simp add: timed_ok_def) (simp add: SetTag_def)
qed

theorem log_roundtrip_witness:
  "\<exists>lw h. write_log (\<lambda>bs. bs) (NewHistogramLogWriter [])
       [Version, StartTime 5000, Legend, Dense (SetTag (sample_recorded\<lparr>startTimeMs := 7000, endTimeMs := 8500\<rparr>) ''A'')] = (None, lw) \<and>
     read_all floor_log2 (\<lambda>bs. Some (bs, Eof)) (NewHistogramLogReader (wr_log lw) None) = ([h], None) \<and>
     restored (SetTag (sample_recorded\<lparr>startTimeMs := 7000, endTimeMs := 8500\<rparr>) ''A'') h"
proof -
  let ?h = "SetTag (sample_recorded\<lparr>startTimeMs := 7000, endTimeMs := 8500\<rparr>) ''A''"
  have "timed_ok floor_log2 (\<lambda>bs. bs) ?h" unfolding sample_timed by (simp add: time_ok_def)
  moreover have "tag_ok (tag ?h)" by (simp add: tag_ok_def newline_code SetTag_def)
  ultimately have t: "list_all (entry_ok floor_log2 (\<lambda>bs. bs)) [Version, StartTime 5000, Legend, Dense ?h]"
    by (simp add: time_ok_def interval_ok_def)
  have i: "in_time [Version, StartTime 5000, Legend, Dense ?h]" by (simp add: SetTag_def)
  have z: "zlib_ok (\<lambda>bs. bs) (\<lambda>bs. Some (bs, Eof))" by (simp add: zlib_ok_def)
  from log_roundtrip [OF log2_ok_floor_log2 z t i] show ?thesis by (auto simp: list_all2_Cons1)
qed

text \<open>The writer produces for a sparse histogram, whatever the options and the compressor, the
  line of the dense histogram it stands for.\<close>

theorem packed_log_parity:
  assumes "packed_ok p" "sum_list (slots p) \<le> MaxInt64"
  shows "OutputIntervalPackedHistogramWithLogOptions deflate lw p opts =
         OutputIntervalHistogramWithLogOptions deflate lw (dense_of p) opts"
  using packed_line [OF assms]
  by (simp add: OutputIntervalPackedHistogramWithLogOptions_def OutputIntervalHistogramWithLogOptions_def)

theorem packed_log_parity_witness:
  "OutputIntervalPackedHistogramWithLogOptions (\<lambda>bs. bs) (NewHistogramLogWriter []) sample_packed None =
   OutputIntervalHistogramWithLogOptions (\<lambda>bs. bs) (NewHistogramLogWriter []) (dense_of sample_packed) None"
  by (rule packed_log_parity) (simp_all add: sample_packed_ok)

text \<open>C32: On any input, whatever the decompressor, a call of the reader returns: an error that is no
  panic, nothing, or a well-formed histogram. The index and the slices of a line, and those of the decoder, can panic in
  the model; the one that is left is that of \<open>Decode\<close> on a text of \<open>2 ^ 31\<close> bytes and more. The call consumes a prefix of
  the input, which is not empty unless the input is.\<close>

theorem log_reader_safe:
  assumes "log2_ok lg" "case rd_end r of Some err \<Rightarrow> clean err | None \<Rightarrow> True"
  shows "case NextIntervalHistogramWithRange lg inflate r from_sec to_sec absol of
           ((h, e), r') \<Rightarrow>
             (case e of None \<Rightarrow> True | Some err \<Rightarrow> refused (length (rd_log r)) err \<and> h = None) \<and>
             (case h of None \<Rightarrow> True | Some h' \<Rightarrow> configured lg h') \<and>
             rd_end r' = rd_end r \<and> suffix (rd_log r') (rd_log r) \<and> (rd_log r = [] \<or> rd_log r' \<noteq> rd_log r)"
proof -
  let ?r = "r\<lparr>rangeStartTimeSec := from_sec, rangeEndTimeSec := to_sec, absolute := absol\<rparr>"
  obtain h e r' where d: "decode_loop lg inflate [] ?r = ((h, e), r')" by (metis prod.collapse)
  have k: "rd_log ?r = rd_log r" "rd_end ?r = rd_end r" by simp_all
  have "\<forall>err. rd_end ?r = Some err \<longrightarrow> clean err" unfolding k using assms(2) by (auto split: option.splits)
  then have "sound lg (length (rd_log r)) h e" using decode_loop_ok [OF d] assms(1) unfolding k by blast
  then have "(case e of None \<Rightarrow> True | Some err \<Rightarrow> refused (length (rd_log r)) err \<and> h = None) \<and> (case h of None \<Rightarrow> True | Some h' \<Rightarrow> configured lg h')"
    by (simp add: sound_def split: option.split)
  then show ?thesis using decode_loop_ok [OF d] unfolding k
    by (simp only: NextIntervalHistogramWithRange_def decodeNextIntervalHistogram_def d prod.case)
qed

theorem log_reader_safe_witness:
  "case NextIntervalHistogramWithRange floor_log2 (\<lambda>bs. None) (NewHistogramLogReader ''Tag=A'' (Some ZlibError)) (Fin 0) (Fin 1) True of
     ((h, e), r') \<Rightarrow> suffix (rd_log r') ''Tag=A'' \<and> rd_end r' = Some ZlibError"
proof -
  have "case rd_end (NewHistogramLogReader ''Tag=A'' (Some ZlibError)) of Some err \<Rightarrow> clean err | None \<Rightarrow> True"
    by (simp add: NewHistogramLogReader_def)
  from log_reader_safe [OF log2_ok_floor_log2 this, of "\<lambda>bs. None" "Fin 0" "Fin 1" True] show ?thesis
    by (simp add: NewHistogramLogReader_def split: prod.splits)
qed

lemma show_f_no_newline: "newline \<notin> set (show_f x)"
proof -
  have "newline \<notin> set ''NaN''" "newline \<notin> set ''-Inf''" "newline \<notin> set ''+Inf''" "newline \<notin> set ''-''"
    by (simp_all add: newline_code)
  moreover have "newline \<notin> set (show_fixed m)" for m using show_fixed_chars num_chars_no_newline by blast
  ultimately show ?thesis by (cases x) simp_all
qed

lemma output_shape:
  assumes "\<not> (ih_Tag x \<noteq> [] \<and> tag_rejected (ih_Tag x))" "ih_Max x = Inr mx" "ih_EncodeV2 x = Inr enc"
  shows "\<exists>s l m. outputIntervalHistogram lw x opts =
    (None, put lw ((if ih_Tag x \<noteq> [] then ''Tag='' @ ih_Tag x @ '','' else []) @ show_f s @ '','' @ show_f l @ '','' @
                   show_f m @ '','' @ chars_of enc @ [newline]))"
  unfolding outputIntervalHistogram_def Let_def if_not_P [OF assms(1)] assms(2,3) sum.case by (intro exI, rule refl)

text \<open>Whatever the options, the writer either refuses the tag and writes nothing, or appends exactly
  one text that ends in a newline; it is one line unless the tag holds a newline, as a tag may at
  either end.\<close>

theorem OutputIntervalHistogram_one_line:
  assumes "hist_ok h"
  shows "case OutputIntervalHistogramWithLogOptions deflate lw h opts of
           (e, lw') \<Rightarrow> baseTime lw' = baseTime lw \<and>
             (if tag h \<noteq> [] \<and> tag_rejected (tag h) then e = Some (BadTag (tag h)) \<and> wr_log lw' = wr_log lw
              else e = None \<and> (\<exists>line. wr_log lw' = wr_log lw @ line @ [newline] \<and>
                     (newline \<in> set line \<longleftrightarrow> newline \<in> set (tag h))))"
proof -
  obtain mx enc where m: "Max_h h = Inr mx" "EncodeV2 deflate h = Inr enc"
    using Max_h_range [OF assms] Encode_eq [OF assms, of deflate] by (metis EncodeV2_def)
  have c: "newline \<notin> set ''Tag=''" "newline \<noteq> CHR '',''" by (simp_all add: newline_code)
  show ?thesis
  proof (cases "tag h \<noteq> [] \<and> tag_rejected (tag h)")
    case True
    then show ?thesis by (simp add: OutputIntervalHistogramWithLogOptions_def outputIntervalHistogram_def dense_interval_def)
  next
    case False
    have t: "ih_Tag (dense_interval deflate h) = tag h" "ih_Max (dense_interval deflate h) = Inr mx"
      "ih_EncodeV2 (dense_interval deflate h) = Inr enc" using m by (simp_all add: dense_interval_def)
    from output_shape [OF False [folded t(1)] t(2,3), of lw opts, unfolded t(1)] obtain s l x where
      o: "outputIntervalHistogram lw (dense_interval deflate h) opts =
        (None, put lw ((if tag h \<noteq> [] then ''Tag='' @ tag h @ '','' else []) @ show_f s @ '','' @ show_f l @ '','' @
                       show_f x @ '','' @ chars_of enc @ [newline]))" by metis
    let ?l = "(if tag h \<noteq> [] then ''Tag='' @ tag h @ '','' else []) @ show_f s @ '','' @ show_f l @ '','' @ show_f x @ '','' @ chars_of enc"
    have "newline \<in> set ?l \<longleftrightarrow> newline \<in> set (tag h)"
      using show_f_no_newline Encode_no_newline [OF m(2)] c by auto
    then show ?thesis using False o
      by (simp only: OutputIntervalHistogramWithLogOptions_def prod.case if_False)
        (auto simp: put_def intro!: exI [of _ ?l])
  qed
qed

theorem OutputIntervalHistogram_one_line_witness:
  "case OutputIntervalHistogramWithLogOptions (\<lambda>bs. bs) (NewHistogramLogWriter []) (SetTag sample_recorded ''A B'') None of
     (e, lw') \<Rightarrow> e = Some (BadTag ''A B'') \<and> wr_log lw' = []"
proof -
  have "hist_ok (SetTag sample_recorded ''A B'')"
    using sample_recorded_configured configured_metadata(2) by (metis configured_def)
  from OutputIntervalHistogram_one_line [OF this, where deflate = "\<lambda>bs. bs" and lw = "NewHistogramLogWriter []" and opts = None] show ?thesis
    by (simp add: SetTag_def is_separator_def newline_code NewHistogramLogWriter_def split: prod.splits)
qed

text \<open>The writer's check looks at the characters between the first and the last: a separator at the end passes it.\<close>

lemma tag_rejected_snoc: "\<forall>x \<in> set t. \<not> is_separator x \<Longrightarrow> \<not> tag_rejected (t @ [c])"
  by (induction t rule: tag_rejected.induct) (auto simp: neq_Nil_conv append_eq_Cons_conv)

text \<open>C33: A tag of characters that are no separator, and a comma at its end, is accepted by the writer, and reading
  the log it writes fails: the second comma is taken for an empty time stamp.\<close>

theorem trailing_comma_unreadable:
  assumes "timed_ok lg deflate h" "tag h = t @ '',''"
    and "CHR '','' \<notin> set t" "CHR '' '' \<notin> set t" "CHR 0x0D \<notin> set t" "newline \<notin> set t"
  shows "\<exists>lw. OutputIntervalHistogram deflate (NewHistogramLogWriter []) h = (None, lw) \<and>
           fst (NextIntervalHistogram lg inflate (NewHistogramLogReader (wr_log lw) None)) = (None, Some (BadNumber []))"
proof -
  let ?lw = "put (NewHistogramLogWriter []) (line_of deflate h @ [newline])"
  let ?r = "NewHistogramLogReader (wr_log ?lw) None"
  have w: "OutputIntervalHistogram deflate (NewHistogramLogWriter []) h = (None, ?lw)"
    using tag_rejected_snoc [of t] assms(3-6) unfolding is_separator_def carriage_return_code
    by (intro write_interval [OF assms(1)]) (auto simp: assms(2) NewHistogramLogWriter_def)
  from timed_okE [OF assms(1)] obtain mx enc where m: "Max_h h = Inr mx" "EncodeV2 deflate h = Inr enc" by metis
  define a b c where "a = show_fixed (millionths (seconds (startTimeMs h)))"
    and "b = show_fixed (millionths (length_of (startTimeMs h) (endTimeMs h)))"
    and "c = show_f (fdivide (of_int64 mx) MsToNsRatio)"
  let ?rest = "CHR '','' # interval_text a b c (chars_of enc) @ [newline]"
  have l: "line_of deflate h @ [newline] = ''Tag='' @ t @ CHR '','' # ?rest"
    using m assms(2) by (simp add: line_of_def a_def b_def c_def)
  have n: "newline \<notin> set (line_of deflate h)"
    using assms(2,6) by (intro line_of_no_newline [OF assms(1)]) (simp add: newline_code)
  have num: "list_all is_num_char a" "list_all is_num_char b" by (simp_all add: a_def b_def show_fixed_chars)
  have empty: "number_comma (CHR '','' # s) = Some ([], s)" for s by (simp add: number_comma_def)
  have "match_interval ?rest = Some ([], a, b, takeWhile (\<lambda>x. x \<noteq> newline) (c @ CHR '','' # chars_of enc @ [newline]))"
    by (simp add: interval_here_def empty interval_text_def number_comma_match [OF num(1)] number_comma_match [OF num(2)])
  then have i: "interval_line lg inflate t ?rest r = Return None (Some (BadNumber [])) r" for r
    by (simp add: interval_line_def ParseFloat_def del: match_interval.simps)
  have L: "log_line lg inflate [] (''Tag='' @ t @ CHR '','' # ?rest) r = Return None (Some (BadNumber [])) r" for r
    using takeWhile_comma [OF assms(3), of ?rest] i by (simp add: log_line_eq)
  define r0 where "r0 = whole_range ?r"
  have e: "rd_log r0 = line_of deflate h @ newline # []"
    by (simp add: r0_def whole_range_def NewHistogramLogReader_def put_def NewHistogramLogWriter_def)
  have "decode_loop lg inflate [] r0 = ((None, Some (BadNumber [])), r0\<lparr>rd_log := []\<rparr>)"
    by (simp only: log_line_step [OF n e] l L outcome.case)
  then have "fst (NextIntervalHistogram lg inflate ?r) = (None, Some (BadNumber []))"
    by (simp only: Next_loop r0_def fst_conv)
  then show ?thesis using w by simp
qed

theorem trailing_comma_unreadable_witness:
  "\<exists>lw. OutputIntervalHistogram (\<lambda>bs. bs) (NewHistogramLogWriter [])
       (SetTag (sample_recorded\<lparr>startTimeMs := 0, endTimeMs := 0\<rparr>) ''A,'') = (None, lw) \<and>
     fst (NextIntervalHistogram floor_log2 (\<lambda>bs. None) (NewHistogramLogReader (wr_log lw) None)) = (None, Some (BadNumber []))"
proof (rule trailing_comma_unreadable [of floor_log2 _ _ "''A''"])
  show "timed_ok floor_log2 (\<lambda>bs. bs) (SetTag (sample_recorded\<lparr>startTimeMs := 0, endTimeMs := 0\<rparr>) ''A,'')"
    unfolding sample_timed by (simp add: time_ok_def)
qed (simp_all add: SetTag_def newline_code)

text \<open>C40: A start time of 1001 milliseconds comes back as 1000, whatever else the histogram holds,
  because the reader truncates the product of 1.001 seconds with a thousand.\<close>

theorem start_time_loses_millisecond:
  assumes "log2_ok lg" "zlib_ok deflate inflate" "interval_ok lg deflate h" "startTimeMs h = 1001"
  shows "\<exists>lw h'. OutputIntervalHistogram deflate (NewHistogramLogWriter []) h = (None, lw) \<and>
           read_all lg inflate (NewHistogramLogReader (wr_log lw) None) = ([h'], None) \<and>
           startTimeMs h' = 1000 \<and> counts h' = counts h"
proof -
  let ?lw = "put (NewHistogramLogWriter []) (line_of deflate h @ [newline])"
  have w: "OutputIntervalHistogram deflate (NewHistogramLogWriter []) h = (None, ?lw)"
    using assms(3) by (intro write_interval [of lg]) (simp_all add: interval_ok_def tag_ok_def NewHistogramLogWriter_def)
  have "\<exists>hs. read_all lg inflate (NewHistogramLogReader (wr_log ?lw) None) = (hs, None) \<and> list_all2 restored (intervals [Dense h]) hs"
    using assms(3) by (intro read_all_lines [OF assms(1,2)])
      (simp_all add: NewHistogramLogReader_def ready_for_def ready_def put_def NewHistogramLogWriter_def)
  then obtain h' where r: "read_all lg inflate (NewHistogramLogReader (wr_log ?lw) None) = ([h'], None)" "restored h h'"
    by (auto simp: list_all2_Cons1)
  from r(2) have "startTimeMs h' = 1000" "counts h' = counts h"
    by (simp add: restored_def assms(4) start_1001 Let_def, auto simp: restored_def Let_def dest: arg_cong [where f = counts])
  with w r(1) show ?thesis by blast
qed

theorem start_time_loses_millisecond_witness:
  "\<exists>lw h'. OutputIntervalHistogram (\<lambda>bs. bs) (NewHistogramLogWriter [])
       (SetTag (sample_recorded\<lparr>startTimeMs := 1001, endTimeMs := 2000\<rparr>) []) = (None, lw) \<and>
     read_all floor_log2 (\<lambda>bs. Some (bs, Eof)) (NewHistogramLogReader (wr_log lw) None) = ([h'], None) \<and> startTimeMs h' = 1000"
proof -
  let ?h = "SetTag (sample_recorded\<lparr>startTimeMs := 1001, endTimeMs := 2000\<rparr>) []"
  have "timed_ok floor_log2 (\<lambda>bs. bs) ?h" unfolding sample_timed by (simp add: time_ok_def)
  then have i: "interval_ok floor_log2 (\<lambda>bs. bs) ?h" by (simp add: interval_ok_def tag_ok_def SetTag_def)
  have z: "zlib_ok (\<lambda>bs. bs) (\<lambda>bs. Some (bs, Eof))" by (simp add: zlib_ok_def)
  have "startTimeMs ?h = 1001" by (simp add: SetTag_def)
  from start_time_loses_millisecond [OF log2_ok_floor_log2 z i this] show ?thesis by blast
qed

end
