(* ===== verification/Spec2Isabelle.thy ===== *)
theory Spec2Isabelle
  imports Packed_Window_Spec Packed_Encoding_Spec Window Packed_Percentile_Spec Printing_Spec Log_Spec
begin

text \<open>
  Verification of the Go port of HdrHistogram: a histogram of \<open>int64\<close> values with a fixed number
  of significant digits over a configurable range.

  \<^bold>\<open>The program.\<close> A \<^emph>\<open>geometry\<close> (the configuration fields of \<open>Histogram\<close>, \<open>hdr.go\<close>) maps a value
  to a flat index by powers of two (the bucket) and linear steps inside them (the sub-bucket). The
  dense \<open>Histogram\<close> counts in an array over the flat indices; the sparse \<open>PackedHistogram\<close>
  (\<open>packed.go\<close>, \<open>packed_window.go\<close>, \<open>packed_queries.go\<close>) keeps the populated indices sorted with their
  counts packed in 1, 2, 4 or 8 bytes each. \<open>WindowedHistogram\<close> (\<open>window.go\<close>) is a ring of dense
  histograms. Both histograms are written to and read from the V2 wire format
  (\<open>hdr_encoding.go\<close>, \<open>packed_encoding.go\<close>), whose payload is a run-length and ZigZag LEB128 code
  (\<open>zigzag.go\<close>). The log reader and writer put such texts on the lines of an interval log.

  \<^bold>\<open>Theories.\<close>
  \<^item> \<open>Go_Prelude\<close>: Go's integers (\<open>i64\<close>, \<open>i32\<close>, \<open>u64\<close>, \<open>u32\<close> reduce a result to its width), shifts,
    truncated division, \<open>bits.Len64\<close>, and the collection \<open>width_simps\<close> that removes the reductions
    on values in range.
  \<^item> \<open>Hist_Types\<close>: the record \<open>histogram\<close> for the struct and the datatype \<open>error\<close>; every error and
    panic of the source is a constructor that carries what its message prints.
  \<^item> \<open>Geometry\<close>: \<open>clampGeometryArgs\<close> to \<open>wireGeometry\<close> and the index arithmetic. \<open>geom_ok\<close> is the
    invariant of a geometry. The locale \<open>bucketing\<close> states what the rest relies on (an index
    monotone in the value, and the lowest value of each index), interpreted as \<open>buckets\<close>.
  \<^item> \<open>Zigzag\<close>: the varint codec on words; locale \<open>prefix_codec\<close>, interpreted as \<open>zz\<close>.
  \<^item> \<open>Histogram\<close>: construction, recording, \<open>Reset\<close>, \<open>Clone\<close>, the two iterators, \<open>Merge\<close>, \<open>Max\<close>, \<open>Min\<close>,
    \<open>Distribution\<close>, \<open>Equals\<close>, snapshots. \<open>Hist_Spec\<close>: \<open>hist_ok\<close> (the invariant) and \<open>represents h M\<close>, which says that \<open>h\<close> counts the multiset \<open>M\<close> of recorded values;
    each operation is related to its operation on multisets.
  \<^item> \<open>Recorder\<close>: the contract that both histograms share as recorders, a locale with the theory of
    sequences of recordings, interpreted as \<open>dense\<close> (in \<open>Hist_Spec\<close>) and \<open>sparse\<close> (in \<open>Packed_Spec\<close>).
  \<^item> \<open>Bytes\<close>: little- and big-endian integers and base64 of the standard library.
  \<^item> \<open>Packed\<close>, \<open>Packed_Window\<close>: the sparse histogram as its backing slices, with the packed bytes
    written out. \<open>Packed_Spec\<close>, \<open>Packed_Window_Spec\<close>: \<open>packed_ok\<close> (sorted indices, counts that fit
    their width, a valid cache) is kept by every operation, and \<open>dense_of\<close> maps a sparse histogram
    to the dense one it stands for; every operation commutes with it. \<open>Merge_p\<close> has the in-place
    two-pass merge of equally indexed histograms; \<open>Merge_self\<close> is \<open>p.Merge(p)\<close>, where source and
    target are the same object.
  \<^item> \<open>Encoding\<close>, \<open>Packed_Encoding\<close>: the two codecs. \<open>Encoding_Spec\<close>, \<open>Packed_Encoding_Spec\<close>: round
    trips, safety of the decoder on arbitrary input (the decoder without its checked accesses is \<open>fill_decoded\<close> and
    \<open>decode_envelope_eq\<close>), and equality of the two encoders and decoders.
  \<^item> \<open>Window\<close>: the ring, and the runs of a client as the inductive relation \<open>window_run\<close> with the
    invariant \<open>window_ok\<close>.
  \<^item> \<open>Float64\<close>: Go's \<open>float64\<close>, binary64 on the rational numbers with an explicit rounding \<open>round64\<close>,
    and the facts on it that the queries share (monotonicity, the numbers it keeps, its error).
  \<^item> \<open>Percentile\<close>, \<open>Packed_Percentile\<close>: the rank of a percentile and the blocked scans of both
    histograms. \<open>Percentile_Rank\<close>: the rank is in range, monotone, and within one of the exact share.
    \<open>Percentile_Spec\<close>, \<open>Packed_Percentile_Spec\<close>: the answer is the recorded value of that rank in
    the sorted multiset, and the queries for many percentiles and of the sparse histogram agree with it.
  \<^item> \<open>Statistics\<close>: \<open>Mean\<close> and \<open>StdDev\<close> of both histograms. \<open>Statistics_Spec\<close>: their results are
    finite, the mean is close to the exact one, and both histograms agree bit by bit.
  \<^item> \<open>Cumulative\<close>: the percentile iterator and \<open>CumulativeDistributionWithTicks\<close>. \<open>Cumulative_Spec\<close>: for
    totals and ticks whose product is at most \<open>2 ^ 44\<close> it ends with the right brackets (each step
    of the scale is at least \<open>2 ^ -44\<close>), and it does not end for a negative number of
    ticks, nor for some histograms with totals near \<open>2 ^ 54\<close>.
  \<^item> \<open>Go_Text\<close>: the verbs of \<open>fmt\<close>, \<open>ParseFloat\<close> and the regular expressions of the log.
    \<open>Printing\<close>: \<open>PercentilesPrint\<close> and \<open>Bar.String\<close>. \<open>Printing_Spec\<close>: what is written to any sink, up to its first error.
  \<^item> \<open>Log\<close>: writer and reader of the interval log. \<open>Log_Times\<close>: the rounding of times from milliseconds to
    printed seconds and back, for times up to the year 2223 (\<open>time_ok\<close>), where the result is the same
    or one millisecond less. \<open>Log_Spec\<close>: a written log is read back, the reader is safe on every
    input, and two inputs for which the format loses something. \<open>log_line_eq\<close> shows that the checked accesses of a
    line that is not empty are in bounds.
  \<^item> This theory: the composition of the sparse histogram, its encoder, the dense decoder and the dense
    queries.

  \<^bold>\<open>Modelling choices.\<close> \<open>int\<close> and \<open>uint\<close> are 64 bits wide. Slices are lists: their capacity and the
  reuse of backing arrays are not visible in the model. Objects are values, and an operation returns
  the updated object; aliasing matters in two places, where it is modelled: \<open>p.Merge(p)\<close> and
  \<open>WindowedHistogram.Current\<close>, a position of the ring. Two functions outside the repository are
  parameters: \<open>math.Floor(math.Log2(float64(x)))\<close> is \<open>lg\<close>, with \<open>log2_ok\<close> (exact up to \<open>2 ^ 48\<close>, at most one too large above, never too small), and zlib is \<open>deflate\<close> and \<open>inflate\<close>, with
  \<open>zlib_ok\<close> (inflating a deflated text gives it back) where a round trip needs it; the safety of the
  decoder holds for every \<open>inflate\<close>. So is \<open>math.Trunc(math.Log2(z))\<close>, the parameter \<open>lb\<close> of the
  percentile iterator, with \<open>trunc_log2_ok\<close> (the integer part of the logarithm of a number from 1 on, or
  one more). Choices that the language or a library leaves open are parameters too: \<open>fused\<close>
  (whether a product and a sum are rounded once; the results hold for both) and \<open>arrange\<close> (the
  arrangement \<open>sort.Slice\<close> makes; the results hold for every one that is sorted by the target).

  \<^bold>\<open>Untrusted input.\<close> In the code that reads text from outside (\<open>zig_zag_decode_i64\<close>, both decoders, the log reader) an
  index, a slice and an allocation are the checked ones of \<open>Hist_Types\<close> (\<open>index_at\<close>, \<open>slice\<close>, \<open>make_counts\<close>): out of
  bounds they are the panic of the program, as a value. So a guard that is dropped from the code shows as a panic, and the safety
  theorems say which panics are left: only that of the slice of the compressed contents, whose bound
  is an \<open>int32\<close> sum that wraps for contents within eight bytes of the largest \<open>int32\<close> (\<open>envelope_overflow\<close>).
  \<open>refused n\<close> are the errors possible on a text of \<open>n\<close> bytes. A
  position in a payload is the suffix that is left, which the loop condition keeps in bounds. The upper bound of a slice is
  checked against its length, which is stricter than Go's check against the capacity.

  The two zeros of \<open>float64\<close> are one value of the model. The sign of a zero is lost only for
  a unit ratio of the log or a value scale of the printed table that is negative or the negative zero, and shows there in the text alone, or in
  the sign of the infinity that a division by the negative zero gives. The
  source of the log reader ends with the end of the input or an error; the sink of the log writer
  accepts everything, that of \<open>PercentilesPrint\<close> may fail at any write.

  Loops are recursive functions with termination proofs. \<open>corrected_loop\<close> and \<open>widen_width\<close> repeat a
  condition that every caller establishes (a positive interval, a positive width) to be well-founded. \<open>getBucketsNeededToCoverValue\<close> is a \<^theory_text>\<open>partial_function\<close>, as the
  loop on overflowing values has to be shown to end, and so are the loops of the percentile iterator, which need
  not end: not returning is \<open>None\<close> there. \<open>self_loop\<close> has as fuel one more than the number of
  buckets, which the loop does not change.

  \<^bold>\<open>Not modelled.\<close> \<open>GetMemorySize\<close> of the sparse histogram and its constant \<open>packedFixedSize\<close>: they
  add up \<open>unsafe.Sizeof\<close> and slice capacities, which depend on the compiler and the allocator.
\<close>

section \<open>From the sparse histogram to the dense one over the wire\<close>

text \<open>The queries do not depend on the metadata that the wire format leaves out.\<close>

lemma metadata_queries:
  assumes h: "hist_ok h" and h': "h' = h\<lparr>tag := t, startTimeMs := s, endTimeMs := e, conversionRatio := r\<rparr>"
  shows "Max_h h' = Max_h h" "Min_h h' = Min_h h" "Mean h' = Mean h" "StdDev h' = StdDev h"
    "ValueAtPercentile fused h' pc = ValueAtPercentile fused h pc" "hist_ok h'"
proof -
  show ok: "hist_ok h'" using h by (simp add: h' hist_ok_def)
  have p: "populated h' = populated h" "totalCount h' = totalCount h" by (simp_all add: h' populated_def)
  have v: "valueFromFlatIndex h' i = valueFromFlatIndex h i" "highestEquivalentValue h' v = highestEquivalentValue h v"
    "lowestEquivalentValue h' v = lowestEquivalentValue h v" "medianEquivalentValue h' v = medianEquivalentValue h v" for i v
    by (simp_all add: h')
  show "Max_h h' = Max_h h" "Min_h h' = Min_h h"
    by (simp_all add: Max_h_eq [OF h] Max_h_eq [OF ok] Min_h_eq [OF h] Min_h_eq [OF ok] p v)
  have c: "contents h' = contents h" by (simp add: contents_def p v) (simp add: h')
  have st: "mean_step h' = mean_step h" "dev_step h' = dev_step h" by (simp_all add: fun_eq_iff mean_step_def dev_step_def v)
  show m: "Mean h' = Mean h" by (simp add: Mean_eq [OF h] Mean_eq [OF ok] c st p)
  show "StdDev h' = StdDev h"
  proof (cases "totalCount h = 0")
    case False
    obtain x where x: "Mean h = Inr x" using Mean_eq [OF h] by blast
    then show ?thesis using False StdDev_eq [OF h _ x] StdDev_eq [OF ok] m by (simp add: p variance_def c st)
  qed (simp add: StdDev_def p)
  have "counts h' = counts h" by (simp add: h')
  then show "ValueAtPercentile fused h' pc = ValueAtPercentile fused h pc"
    by (simp add: ValueAtPercentile_def getValueFromIdxUpToCount_def Let_def p v cong: option.case_cong)
qed

text \<open>C23: A sparse histogram written to the wire and read back by the dense decoder gives a dense
  histogram that answers every query as the sparse one does: the total, the extrema, the mean, the
  standard deviation and all the percentiles, with either choice of fusing.\<close>

theorem sparse_answers_survive_wire:
  assumes "log2_ok lg" "packed_ok p" "sum_list (slots p) < MaxInt64" "header_geometry lg (p_geom p)" "zlib_ok deflate inflate"
  shows "\<exists>enc. Encode_p deflate p = Inr enc \<and>
    (int (length enc) \<le> 2147483647 \<longrightarrow>
      (\<exists>h. Decode lg inflate enc = Inr h \<and> TotalCount h = TotalCount_p p \<and> Max_h h = Inr (Max_p p) \<and> Min_h h = Inr (Min_p p) \<and>
         Mean h = Inr (Mean_p p) \<and> StdDev h = Inr (StdDev_p p) \<and>
         (\<forall>pc. ValueAtPercentile fused h pc = ValueAtPercentile_p fused p pc)))"
proof -
  let ?d = "dense_of p"
  have s: "sum_list (slots p) \<le> MaxInt64" using assms(3) by simp
  note d = hist_ok_dense_of [OF assms(2) s]
  have "cleared ?d = cleared (p_geom p)" by (simp add: cleared_def dense_of_def)
  then have c: "configured lg ?d" "MinInt64 \<le> highestTrackableValue ?d"
    using d assms(4) by (simp_all add: configured_header header_geometry_def)
  obtain enc where e: "Encode_p deflate p = Inr enc" by (simp add: Encode_p_def Let_def)
  then have e': "Encode deflate ?d V2CompressedEncodingCookieBase = Inr enc" using Encode_p_eq [OF assms(2) s] by simp
  define h where "h = ?d\<lparr>tag := '''', startTimeMs := 0, endTimeMs := 0, conversionRatio := getIntegerToDoubleValueConversionRatio ?d\<rparr>"
  note q = metadata_queries [OF d h_def]
  have "TotalCount h = TotalCount_p p" by (simp add: h_def TotalCount_def TotalCount_p_def dense_of_def)
  then show ?thesis
    using e Decode_Encode [OF assms(1) c assms(5) e', folded h_def] q packed_extrema [OF assms(2) s]
      packed_statistics [OF assms(2,3)] ValueAtPercentile_dense_of [OF assms(2) s] by simp
qed

theorem sparse_answers_survive_wire_witness:
  "\<exists>enc h. Encode_p (\<lambda>bs. bs) sample_packed = Inr enc \<and> Decode floor_log2 (\<lambda>bs. Some (bs, Eof)) enc = Inr h \<and>
     TotalCount h = 302 \<and> Mean h = Inr (Mean_p sample_packed) \<and>
     ValueAtPercentile True h (Fin 50) = ValueAtPercentile_p True sample_packed (Fin 50)"
proof -
  have g: "p_geom sample_packed = sample_geometry" and l: "countsLen sample_geometry = 64" and t: "p_totalCount sample_packed = 302"
    by (simp_all add: sample_packed_def sample_geometry_def)
  have z: "zlib_ok (\<lambda>bs. bs) (\<lambda>bs. Some (bs, Eof))" by (simp add: zlib_ok_def)
  have wf: "packed_wf sample_packed" using sample_packed_ok(1) by (simp add: packed_ok_def)
  obtain bs where b: "length bs \<le> 40 + 9 * nat (countsLen (p_geom sample_packed))"
    "Encode_p (\<lambda>bs. bs) sample_packed = Inr (EncodeToString (be_bytes 4 compressedEncodingCookie @ be_bytes 4 (int (length bs)) @ bs))"
    by (rule Encode_p_total [OF wf])
  have "length (EncodeToString (be_bytes 4 compressedEncodingCookie @ be_bytes 4 (int (length bs)) @ bs)) \<le> 4 * (8 + length bs)"
    by (rule order_trans [OF length_EncodeToString_le]) simp
  moreover have "sum_list (slots sample_packed) < MaxInt64" by (simp add: sample_packed_ok(2))
  note w = sparse_answers_survive_wire [OF log2_ok_floor_log2 sample_packed_ok(1) this sample_header [folded g] z, of True]
  ultimately show ?thesis using b w by (auto simp: g l t)
qed

end
